(* ===== verification/Embed_Prelude.thy ===== *)
theory Embed_Prelude
  imports Main "HOL-Library.Word" "HOL-Library.Monad_Syntax" "HOL-Library.Signed_Division"
begin

text \<open>
  Shared vocabulary of the development: what the C sources use of the language itself.

  A C function or statement macro is a HOL function into \<open>option\<close>. \<open>None\<close> means that the
  C execution has undefined behaviour (a read or write outside an array, a dereference of a
  null or dangling pointer, a signed overflow, a division by zero) or does not return; every
  error that the sources report themselves (a \<open>false\<close> or a null result) is an ordinary value.
  Statements are sequenced with the \<open>do\<close> notation of the option monad, the state being
  passed explicitly.

  A C \<open>int\<close> is a HOL \<open>int\<close> whose arithmetic is checked against \<open>INT_MIN\<close> and
  \<open>INT_MAX\<close>; unsigned types are words, which wrap around.
\<close>

unbundle bit_operations_syntax

declare Option.bind_cong [fundef_cong]

named_theorems c_simps \<open>evaluation of the C primitives\<close>

section \<open>Signed 32-bit arithmetic\<close>

definition INT_MAX :: int where
  "INT_MAX = 2 ^ 31 - 1"

definition INT_MIN :: int where
  "INT_MIN = - (2 ^ 31)"

text \<open>A signed result that does not fit is undefined behaviour.\<close>

definition c_int :: "int \<Rightarrow> int option" where
  "c_int z = (if INT_MIN \<le> z \<and> z \<le> INT_MAX then Some z else None)"

lemma c_int_Some [c_simps]: "INT_MIN \<le> z \<Longrightarrow> z \<le> INT_MAX \<Longrightarrow> c_int z = Some z"
  by (simp add: c_int_def)

lemma c_int_overflow [c_simps]: "INT_MAX < z \<Longrightarrow> c_int z = None"
  by (simp add: c_int_def)

lemma c_int_eq_Some_iff: "c_int z = Some y \<longleftrightarrow> y = z \<and> INT_MIN \<le> z \<and> z \<le> INT_MAX"
  by (auto simp: c_int_def)

text \<open>The C quotient of two \<open>int\<close>s truncates towards zero.\<close>

lemma midpoint:
  fixes low high :: int
  assumes "low \<le> high"
  shows "low \<le> (low + high) sdiv 2" and "(low + high) sdiv 2 \<le> high"
  using assms by (auto simp: signed_divide_int_def sgn_if)

section \<open>Array accesses\<close>

text \<open>An array is the list of its elements; an access outside it is undefined behaviour.\<close>

definition c_nth :: "'a list \<Rightarrow> int \<Rightarrow> 'a option" where
  "c_nth xs i = (if 0 \<le> i \<and> i < int (length xs) then Some (xs ! nat i) else None)"

definition c_upd :: "'a list \<Rightarrow> int \<Rightarrow> 'a \<Rightarrow> 'a list option" where
  "c_upd xs i x = (if 0 \<le> i \<and> i < int (length xs) then Some (xs[nat i := x]) else None)"

lemma c_nth_in [c_simps]: "0 \<le> i \<Longrightarrow> i < int (length xs) \<Longrightarrow> c_nth xs i = Some (xs ! nat i)"
  by (simp add: c_nth_def)

lemma c_nth_of_nat [c_simps]: "i < length xs \<Longrightarrow> c_nth xs (int i) = Some (xs ! i)"
  by (simp add: c_nth_def)

lemma c_upd_in [c_simps]: "0 \<le> i \<Longrightarrow> i < int (length xs) \<Longrightarrow> c_upd xs i x = Some (xs[nat i := x])"
  by (simp add: c_upd_def)

lemma c_upd_of_nat [c_simps]: "i < length xs \<Longrightarrow> c_upd xs (int i) x = Some (xs[i := x])"
  by (simp add: c_upd_def)

lemma take_Suc_update: "i < length xs \<Longrightarrow> take (Suc i) (xs[i := x]) = take i xs @ [x]"
  by (simp add: take_Suc_conv_app_nth [of i "xs[i := x]"])

lemma drop_update_same: "i < length xs \<Longrightarrow> drop i (xs[i := x]) = x # drop (Suc i) xs"
  by (simp add: Cons_nth_drop_Suc [of i "xs[i := x]", symmetric])

lemma drop_take_snoc:
  "i \<le> n \<Longrightarrow> n < length xs \<Longrightarrow> drop i (take (Suc n) xs) = drop i (take n xs) @ [xs ! n]"
  by (simp add: take_Suc_conv_app_nth)

lemma drop_take_Cons:
  "i < n \<Longrightarrow> n \<le> length xs \<Longrightarrow> drop i (take n xs) = xs ! i # drop (Suc i) (take n xs)"
  by (subst Cons_nth_drop_Suc [symmetric]) auto

lemma nth_in_set_take: "l < n \<Longrightarrow> n \<le> length xs \<Longrightarrow> xs ! l \<in> set (take n xs)"
  by (auto simp: in_set_conv_nth intro: exI [of _ l])

section \<open>Lists searched by key\<close>

lemma map_eqI_Some: "(\<And>j w. f j = Some w \<longleftrightarrow> g j = Some w) \<Longrightarrow> f = g"
  by (rule ext) (metis not_None_eq)

lemma find_key_eq_Some_iff:
  "distinct (map key_of xs) \<Longrightarrow> find (\<lambda>x. key_of x = j) xs = Some v \<longleftrightarrow> v \<in> set xs \<and> key_of v = j"
  by (induction xs) (auto simp: image_iff)

lemma find_key_eq_None_iff: "find (\<lambda>x. key_of x = j) xs = None \<longleftrightarrow> j \<notin> key_of ` set xs"
  by (auto simp: find_None_iff image_iff)

lemma dom_find_key: "dom (\<lambda>j. find (\<lambda>x. key_of x = j) xs) = key_of ` set xs"
  unfolding dom_def by (simp only: find_key_eq_None_iff) auto

lemma card_dom_find_key:
  "distinct (map key_of xs) \<Longrightarrow> card (dom (\<lambda>j. find (\<lambda>x. key_of x = j) xs)) = length xs"
  by (metis dom_find_key distinct_card length_map set_map)

lemma find_key_insert:
  assumes "distinct (map key_of (xs @ v # ys))"
  shows "(\<lambda>j. find (\<lambda>x. key_of x = j) (xs @ v # ys)) =
    (\<lambda>j. find (\<lambda>x. key_of x = j) (xs @ ys))(key_of v \<mapsto> v)"
  using assms
  by (intro map_eqI_Some, subst find_key_eq_Some_iff)
     (auto simp: find_key_eq_Some_iff image_iff)

lemma find_key_delete:
  assumes "distinct (map key_of (xs @ v # ys))"
  shows "(\<lambda>j. find (\<lambda>x. key_of x = j) (xs @ ys)) =
    (\<lambda>j. find (\<lambda>x. key_of x = j) (xs @ v # ys))(key_of v := None)"
  using assms
  by (intro map_eqI_Some, subst find_key_eq_Some_iff)
     (auto simp: find_key_eq_Some_iff image_iff)

lemma strict_sorted_distinct: "sorted_wrt (<) (xs :: 'k::linorder list) \<Longrightarrow> distinct xs"
  by (simp add: strict_sorted_iff)

section \<open>Words\<close>

lemma unat_succ [c_simps]:
  fixes x y :: "'w::len word"
  assumes "unat x < unat y"
  shows "unat (x + 1) = Suc (unat x)"
proof -
  have "unat y < 2 ^ LENGTH('w)" by (rule unsigned_less)
  with assms have "unat x + 1 < 2 ^ LENGTH('w)" by linarith
  then show ?thesis by (simp add: unat_word_ariths)
qed

lemma unat_pred [c_simps]:
  fixes x :: "'w::len word"
  assumes "x \<noteq> 0"
  shows "unat (x - 1) = unat x - 1"
  using assms by (metis unat_minus_one)

lemma unat_eq_zero_iff [simp]: "unat x = 0 \<longleftrightarrow> x = 0"
  by (metis unat_0 word_unat_eq_iff)

lemma unat_eq_unat_iff [simp]: "unat x = unat y \<longleftrightarrow> x = y" for x y :: "'w::len word"
  by (simp add: word_unat_eq_iff)

lemma unat_pos_iff: "0 < unat x \<longleftrightarrow> x \<noteq> 0"
  by (simp add: unat_gt_0)

lemma unat_word_of_nat: "n < 2 ^ LENGTH('w) \<Longrightarrow> unat (word_of_nat n :: 'w::len word) = n"
  by (simp add: unat_of_nat take_bit_nat_eq_self)

lemma unat_of_nat_small [c_simps]:
  fixes y :: "'w::len word"
  assumes "n < unat y"
  shows "unat (word_of_nat n :: 'w word) = n"
proof -
  have "unat y < 2 ^ LENGTH('w)" by (rule unsigned_less)
  with assms have "n < 2 ^ LENGTH('w)" by linarith
  then show ?thesis by (simp add: unat_of_nat take_bit_nat_eq_self)
qed

lemma uint_less_int_iff: "uint w < int n \<longleftrightarrow> unat w < n"
  by (simp only: uint_nat of_nat_less_iff)

lemma c_nth_uint [c_simps]: "unat w < length xs \<Longrightarrow> c_nth xs (uint w) = Some (xs ! unat w)"
  by (simp add: c_nth_def uint_less_int_iff)

lemma c_upd_uint [c_simps]: "unat w < length xs \<Longrightarrow> c_upd xs (uint w) x = Some (xs[unat w := x])"
  by (simp add: c_upd_def uint_less_int_iff)

section \<open>Positions on a ring\<close>

lemma mod_ring:
  fixes f i n :: nat
  assumes "f < n" "i \<le> n"
  shows "(f + i) mod n = (if f + i < n then f + i else f + i - n)"
  using assms by (auto simp: mod_if)

lemma mod_ring_inj:
  fixes f i j n :: nat
  assumes "f < n" "i < n" "j < n" "(f + i) mod n = (f + j) mod n"
  shows "i = j"
  using assms by (auto simp: mod_ring split: if_splits)

lemma mod_ring_Suc:
  fixes f i n :: nat
  assumes "0 < n"
  shows "Suc ((f + i) mod n) mod n = (f + Suc i) mod n"
  by (simp add: mod_Suc_eq)

end
