(* ===== verification/Bounded_Queue.thy ===== *)
theory Bounded_Queue
  imports Embed_Prelude
begin

text \<open>
  The interface of a bounded FIFO queue: what a client of \<open>array_queue.h\<close> relies on.
  The specification is the list of queued elements together with a capacity; a client's
  program is a sequence of operations and what it observes is the sequence of results.
\<close>

section \<open>Specification\<close>

datatype 'a qop = Enq 'a | Deq | Peek

datatype 'a qout = EnqRet bool | DeqRet bool 'a | PeekRet bool bool "'a option"

text \<open>
  One operation on the specification; \<open>d\<close> is what \<open>*pdata\<close> holds before a dequeue. \<open>Peek\<close> asks
  whether the queue is empty and whether it is full, and reads the first element if there is one.
\<close>

fun spec_step :: "nat \<Rightarrow> 'a \<Rightarrow> 'a list \<Rightarrow> 'a qop \<Rightarrow> 'a qout \<times> 'a list" where
  "spec_step cap d xs (Enq x) =
     (if length xs < cap then (EnqRet True, xs @ [x]) else (EnqRet False, xs))"
| "spec_step cap d [] Deq = (DeqRet False d, [])"
| "spec_step cap d (x # xs) Deq = (DeqRet True x, xs)"
| "spec_step cap d [] Peek = (PeekRet True (cap = 0) None, [])"
| "spec_step cap d (x # xs) Peek = (PeekRet False (Suc (length xs) = cap) (Some x), x # xs)"

fun spec_run :: "nat \<Rightarrow> 'a \<Rightarrow> 'a list \<Rightarrow> 'a qop list \<Rightarrow> 'a qout list \<times> 'a list" where
  "spec_run cap d xs [] = ([], xs)"
| "spec_run cap d xs (a # as) =
     (let (out, xs') = spec_step cap d xs a; (outs, xs'') = spec_run cap d xs' as
      in (out # outs, xs''))"

text \<open>The same program on an implementation given by its operations.\<close>

fun queue_step :: "('q \<Rightarrow> 'a \<Rightarrow> (bool \<times> 'q) option) \<Rightarrow> ('q \<Rightarrow> 'a \<Rightarrow> (bool \<times> 'a \<times> 'q) option) \<Rightarrow>
    ('q \<Rightarrow> bool) \<Rightarrow> ('q \<Rightarrow> bool) \<Rightarrow> ('q \<Rightarrow> 'a option) \<Rightarrow> 'a \<Rightarrow> 'q \<Rightarrow> 'a qop \<Rightarrow> ('a qout \<times> 'q) option" where
  "queue_step enq deq emp ful frt d q (Enq x) = do { (r, q) \<leftarrow> enq q x; Some (EnqRet r, q) }"
| "queue_step enq deq emp ful frt d q Deq = do { (r, y, q) \<leftarrow> deq q d; Some (DeqRet r y, q) }"
| "queue_step enq deq emp ful frt d q Peek =
     (if emp q then Some (PeekRet True (ful q) None, q)
      else do { x \<leftarrow> frt q; Some (PeekRet False (ful q) (Some x), q) })"

fun queue_run :: "('q \<Rightarrow> 'a \<Rightarrow> (bool \<times> 'q) option) \<Rightarrow> ('q \<Rightarrow> 'a \<Rightarrow> (bool \<times> 'a \<times> 'q) option) \<Rightarrow>
    ('q \<Rightarrow> bool) \<Rightarrow> ('q \<Rightarrow> bool) \<Rightarrow> ('q \<Rightarrow> 'a option) \<Rightarrow> 'a \<Rightarrow> 'q \<Rightarrow> 'a qop list \<Rightarrow> ('a qout list \<times> 'q) option" where
  "queue_run enq deq emp ful frt d q [] = Some ([], q)"
| "queue_run enq deq emp ful frt d q (a # as) = do {
     (out, q) \<leftarrow> queue_step enq deq emp ful frt d q a;
     (outs, q) \<leftarrow> queue_run enq deq emp ful frt d q as;
     Some (out # outs, q)
   }"

text \<open>Enqueueing one element after the other: the first ones are accepted, as many as there is room for.\<close>

lemma spec_run_enqueues:
  "length ys \<le> cap \<Longrightarrow> spec_run cap d ys (map Enq xs) =
    (replicate (min (cap - length ys) (length xs)) (EnqRet True) @ replicate (length xs - (cap - length ys)) (EnqRet False),
     ys @ take (cap - length ys) xs)"
proof (induction xs arbitrary: ys)
  case (Cons x xs)
  show ?case
  proof (cases "length ys < cap")
    case True
    then obtain n where n: "cap - length ys = Suc n" by (metis Suc_diff_Suc)
    then have "cap - length (ys @ [x]) = n" by simp
    then show ?thesis using Cons.IH [of "ys @ [x]"] True n by simp
  next
    case False
    then show ?thesis using Cons.IH [of ys] Cons.prems by simp
  qed
qed simp

section \<open>Interface\<close>

locale bounded_queue =
  fixes enq :: "'q \<Rightarrow> 'a \<Rightarrow> (bool \<times> 'q) option"
    and deq :: "'q \<Rightarrow> 'a \<Rightarrow> (bool \<times> 'a \<times> 'q) option"
    and emp :: "'q \<Rightarrow> bool"
    and ful :: "'q \<Rightarrow> bool"
    and frt :: "'q \<Rightarrow> 'a option"
    and contents :: "'q \<Rightarrow> 'a list"
    and capacity :: "'q \<Rightarrow> nat"
    and inv :: "'q \<Rightarrow> bool"
  assumes bounded: "inv q \<Longrightarrow> length (contents q) \<le> capacity q"
    and enq_full: "inv q \<Longrightarrow> length (contents q) = capacity q \<Longrightarrow> enq q x = Some (False, q)"
    and enq_room: "inv q \<Longrightarrow> length (contents q) < capacity q \<Longrightarrow>
      \<exists>q'. enq q x = Some (True, q') \<and> inv q' \<and> contents q' = contents q @ [x] \<and>
           capacity q' = capacity q"
    and deq_empty: "inv q \<Longrightarrow> contents q = [] \<Longrightarrow> deq q d = Some (False, d, q)"
    and deq_elem: "inv q \<Longrightarrow> contents q = x # xs \<Longrightarrow>
      \<exists>q'. deq q d = Some (True, x, q') \<and> inv q' \<and> contents q' = xs \<and> capacity q' = capacity q"
    and emp_iff: "inv q \<Longrightarrow> emp q \<longleftrightarrow> contents q = []"
    and ful_iff: "inv q \<Longrightarrow> ful q \<longleftrightarrow> length (contents q) = capacity q"
    and frt_hd: "inv q \<Longrightarrow> contents q = x # xs \<Longrightarrow> frt q = Some x"
begin

lemma step_refines:
  assumes "inv q"
  shows "\<exists>q'. queue_step enq deq emp ful frt d q a =
           Some (fst (spec_step (capacity q) d (contents q) a), q') \<and>
         inv q' \<and> contents q' = snd (spec_step (capacity q) d (contents q) a) \<and>
         capacity q' = capacity q"
proof (cases a)
  case (Enq x)
  show ?thesis
  proof (cases "length (contents q) < capacity q")
    case True
    then show ?thesis using enq_room [OF assms True, of x] Enq by auto
  next
    case False
    then have "length (contents q) = capacity q" using bounded [OF assms] by simp
    then show ?thesis using enq_full [OF assms, of x] assms Enq False by simp
  qed
next
  case Deq
  show ?thesis
  proof (cases "contents q")
    case Nil
    then show ?thesis using deq_empty [OF assms Nil, of d] assms Deq by simp
  next
    case (Cons x xs)
    then show ?thesis using deq_elem [OF assms Cons, of d] Deq by auto
  qed
next
  case Peek
  then show ?thesis
    using assms emp_iff [OF assms] ful_iff [OF assms] frt_hd [OF assms]
    by (cases "contents q") auto
qed

text \<open>Every program of operations runs without error and sees what the specification shows.\<close>

lemma run_refines:
  "inv q \<Longrightarrow> \<exists>q'. queue_run enq deq emp ful frt d q as =
       Some (fst (spec_run (capacity q) d (contents q) as), q') \<and>
     inv q' \<and> contents q' = snd (spec_run (capacity q) d (contents q) as)"
proof (induction as arbitrary: q)
  case Nil
  then show ?case by simp
next
  case (Cons a as)
  obtain q1 where q1: "queue_step enq deq emp ful frt d q a =
      Some (fst (spec_step (capacity q) d (contents q) a), q1)" "inv q1"
      "contents q1 = snd (spec_step (capacity q) d (contents q) a)" "capacity q1 = capacity q"
    using step_refines [OF Cons.prems] by blast
  obtain q2 where "queue_run enq deq emp ful frt d q1 as =
      Some (fst (spec_run (capacity q1) d (contents q1) as), q2)" "inv q2"
      "contents q2 = snd (spec_run (capacity q1) d (contents q1) as)"
    using Cons.IH [OF q1(2)] by blast
  with q1 show ?case by (simp add: case_prod_beta)
qed

text \<open>Filling an empty queue and draining it returns the elements in the order they came.\<close>

lemma fill_drain:
  assumes "inv q" and "contents q = []" and "length xs \<le> capacity q"
  shows "\<exists>q'. queue_run enq deq emp ful frt d q (map Enq xs @ replicate (length xs) Deq) =
           Some (replicate (length xs) (EnqRet True) @ map (DeqRet True) xs, q') \<and>
         inv q' \<and> contents q' = []"
proof -
  have drain: "spec_run cap d ys (replicate (length ys) Deq) = (map (DeqRet True) ys, [])"
    for cap and ys :: "'a list"
    by (induction ys) auto
  have "spec_run cap d ys (map Enq xs @ as) =
      (replicate (length xs) (EnqRet True) @ fst (spec_run cap d (ys @ xs) as),
       snd (spec_run cap d (ys @ xs) as))"
    if "length ys + length xs \<le> cap" for cap ys as
    using that by (induction xs arbitrary: ys) (auto simp: case_prod_beta)
  then have "spec_run (capacity q) d [] (map Enq xs @ replicate (length xs) Deq) =
      (replicate (length xs) (EnqRet True) @ map (DeqRet True) xs, [])"
    using assms(3) drain [of "capacity q" xs] by simp
  then show ?thesis
    using run_refines [OF assms(1), of d "map Enq xs @ replicate (length xs) Deq"] assms(2) by simp
qed

end

end
