(* ===== verification/Array_Queue.thy ===== *)
theory Array_Queue
  imports Bounded_Queue
begin

text \<open>
  The ring-buffer queue of \<open>array_utils/array_queue.h\<close>: the record of
  \<open>ARRAY_QUEUE_TYPE_IMPL\<close>, every macro that operates on it, the representation invariant,
  the abstraction to the list of queued elements, and the proof that enqueueing, dequeueing,
  iterating and removing through an iterator behave as the same operations on that list.
  The interface \<open>bounded_queue\<close> states what a client may rely on and proves once that any
  sequence of operations is observationally a bounded FIFO.
\<close>

section \<open>State and operations\<close>

text \<open>
  \<open>'s\<close> is \<open>size_type\<close>: a word of 8, 16 or 32 bits; the operations are polymorphic in its width. The buffer is the array that
  \<open>aq_item\<close> points to.
\<close>

record ('a, 's) array_queue =
  aq_item :: "'a list"
  aq_size :: 's
  aq_front :: 's
  aq_back :: 's
  aq_len :: 's

type_synonym 'a array_queue_8 = "('a, 8 word) array_queue"
type_synonym 'a array_queue_16 = "('a, 16 word) array_queue"
type_synonym 'a array_queue_32 = "('a, 32 word) array_queue"

text \<open>The assignment to \<open>aq_size\<close> truncates \<open>siz\<close> to the width of the field.\<close>

definition ARRAY_QUEUE_INIT ::
    "('a, 'w::len word) array_queue \<Rightarrow> 'a list \<Rightarrow> nat \<Rightarrow> ('a, 'w word) array_queue" where
  "ARRAY_QUEUE_INIT q buf siz =
     q\<lparr>aq_item := buf, aq_size := word_of_nat siz, aq_front := 0, aq_back := 0, aq_len := 0\<rparr>"

definition ARRAY_QUEUE_IS_EMPTY :: "('a, 'w::len word) array_queue \<Rightarrow> bool" where
  "ARRAY_QUEUE_IS_EMPTY q \<longleftrightarrow> aq_len q = 0"

definition ARRAY_QUEUE_IS_FULL :: "('a, 'w::len word) array_queue \<Rightarrow> bool" where
  "ARRAY_QUEUE_IS_FULL q \<longleftrightarrow> aq_len q = aq_size q"

definition ARRAY_QUEUE_FRONT :: "('a, 'w::len word) array_queue \<Rightarrow> 'a option" where
  "ARRAY_QUEUE_FRONT q = c_nth (aq_item q) (uint (aq_front q))"

text \<open>
  The C expression \<open>(x + 1) % size\<close> on fields of \<open>size_type\<close>. An operand narrower than
  \<open>int\<close> is promoted, so the sum is exact; a 32-bit operand is added modulo \<open>2 ^ 32\<close>.
  A zero divisor is undefined behaviour.
\<close>

definition c_inc :: "'w::len word \<Rightarrow> nat" where
  "c_inc x = (if LENGTH('w) < 32 then unat x + 1 else (unat x + 1) mod 2 ^ LENGTH('w))"

definition c_inc_mod :: "'w::len word \<Rightarrow> 'w word \<Rightarrow> 'w word option" where
  "c_inc_mod x siz = (if siz = 0 then None else Some (word_of_nat (c_inc x mod unat siz)))"

definition ARRAY_QUEUE_ENQUEUE_IMPL ::
    "('a, 'w::len word) array_queue \<Rightarrow> 'a \<Rightarrow> (bool \<times> ('a, 'w word) array_queue) option" where
  "ARRAY_QUEUE_ENQUEUE_IMPL q data =
     (if ARRAY_QUEUE_IS_FULL q then Some (False, q)
      else do {
        items \<leftarrow> c_upd (aq_item q) (uint (aq_back q)) data;
        back \<leftarrow> c_inc_mod (aq_back q) (aq_size q);
        Some (True, q\<lparr>aq_item := items, aq_back := back, aq_len := aq_len q + 1\<rparr>)
      })"

text \<open>The argument \<open>pdata\<close> is the object that the pointer designates before the call.\<close>

definition ARRAY_QUEUE_DEQUEUE_IMPL ::
    "('a, 'w::len word) array_queue \<Rightarrow> 'a \<Rightarrow> (bool \<times> 'a \<times> ('a, 'w word) array_queue) option" where
  "ARRAY_QUEUE_DEQUEUE_IMPL q pdata =
     (if ARRAY_QUEUE_IS_EMPTY q then Some (False, pdata, q)
      else do {
        x \<leftarrow> c_nth (aq_item q) (uint (aq_front q));
        front \<leftarrow> c_inc_mod (aq_front q) (aq_size q);
        Some (True, x, q\<lparr>aq_front := front, aq_len := aq_len q - 1\<rparr>)
      })"

definition ARRAY_QUEUE_ENQUEUE ::
    "('a, 'w::len word) array_queue \<Rightarrow> 'a \<Rightarrow> ('a, 'w word) array_queue option" where
  "ARRAY_QUEUE_ENQUEUE q data = map_option snd (ARRAY_QUEUE_ENQUEUE_IMPL q data)"

definition ARRAY_QUEUE_DEQUEUE ::
    "('a, 'w::len word) array_queue \<Rightarrow> 'a \<Rightarrow> ('a \<times> ('a, 'w word) array_queue) option" where
  "ARRAY_QUEUE_DEQUEUE q pdata = map_option snd (ARRAY_QUEUE_DEQUEUE_IMPL q pdata)"

definition ARRAY_QUEUE_ENQUEUE_RET ::
    "('a, 'w::len word) array_queue \<Rightarrow> 'a \<Rightarrow> (bool \<times> ('a, 'w word) array_queue) option" where
  "ARRAY_QUEUE_ENQUEUE_RET q data = ARRAY_QUEUE_ENQUEUE_IMPL q data"

definition ARRAY_QUEUE_DEQUEUE_RET ::
    "('a, 'w::len word) array_queue \<Rightarrow> 'a \<Rightarrow> (bool \<times> 'a \<times> ('a, 'w word) array_queue) option" where
  "ARRAY_QUEUE_DEQUEUE_RET q pdata = ARRAY_QUEUE_DEQUEUE_IMPL q pdata"

subsection \<open>Iterators\<close>

text \<open>
  An iterator is a pointer into the buffer, written as the index \<open>iter - aq_item\<close>, or the
  null pointer \<open>ARRAY_QUEUE_ITER_END\<close>. Stepping or removing through the null pointer is
  undefined behaviour. Indices are of type \<open>ptrdiff_t\<close>, which holds every index of an array.
\<close>

type_synonym aq_iter = "nat option"

definition ARRAY_QUEUE_ITER_END :: aq_iter where
  "ARRAY_QUEUE_ITER_END = None"

definition ARRAY_QUEUE_ITER :: "('a, 'w::len word) array_queue \<Rightarrow> aq_iter" where
  "ARRAY_QUEUE_ITER q =
     (if ARRAY_QUEUE_IS_EMPTY q then ARRAY_QUEUE_ITER_END else Some (unat (aq_front q)))"

definition ARRAY_QUEUE_ITER_NEXT :: "('a, 'w::len word) array_queue \<Rightarrow> aq_iter \<Rightarrow> aq_iter option" where
  "ARRAY_QUEUE_ITER_NEXT q iter = do {
     i \<leftarrow> iter;
     if aq_size q = 0 then None
     else let i = (i + 1) mod unat (aq_size q)
          in Some (if i = unat (aq_back q) then ARRAY_QUEUE_ITER_END else Some i)
   }"

text \<open>The \<open>do ... while\<close> loop of \<open>ARRAY_QUEUE_ITER_REMOVE\<close>; it returns the buffer and \<open>i\<close>.\<close>

partial_function (option) aq_remove_loop ::
    "nat \<Rightarrow> nat \<Rightarrow> 'a list \<Rightarrow> nat \<Rightarrow> nat \<Rightarrow> ('a list \<times> nat) option" where
  "aq_remove_loop siz back items i i_next = do {
     x \<leftarrow> c_nth items (int i_next);
     items \<leftarrow> c_upd items (int i) x;
     (let i = i_next; i_next = (i + 1) mod siz
      in if i_next \<noteq> back then aq_remove_loop siz back items i i_next
         else Some (items, i))
   }"

definition ARRAY_QUEUE_ITER_REMOVE ::
    "('a, 'w::len word) array_queue \<Rightarrow> aq_iter \<Rightarrow> (aq_iter \<times> ('a, 'w word) array_queue) option" where
  "ARRAY_QUEUE_ITER_REMOVE q iter = do {
     idx \<leftarrow> iter;
     if aq_size q = 0 then None
     else let siz = unat (aq_size q); back = unat (aq_back q); i_next = (idx + 1) mod siz
          in do {
            (iter, items, i) \<leftarrow>
              (if i_next = back then Some (ARRAY_QUEUE_ITER_END, aq_item q, idx)
               else map_option (Pair (Some idx)) (aq_remove_loop siz back (aq_item q) idx i_next));
            Some (iter, q\<lparr>aq_item := items, aq_back := word_of_nat i, aq_len := aq_len q - 1\<rparr>)
          }
   }"

section \<open>Invariant and abstraction\<close>

definition aq_inv :: "('a, 'w::len word) array_queue \<Rightarrow> bool" where
  "aq_inv q \<longleftrightarrow>
     unat (aq_size q) \<le> length (aq_item q) \<and> unat (aq_len q) \<le> unat (aq_size q) \<and>
     (aq_size q \<noteq> 0 \<longrightarrow>
        unat (aq_front q) < unat (aq_size q) \<and>
        unat (aq_back q) = (unat (aq_front q) + unat (aq_len q)) mod unat (aq_size q))"

text \<open>The buffer index of the \<open>i\<close>-th queued element, and the queued elements in order.\<close>

definition aq_pos :: "('a, 'w::len word) array_queue \<Rightarrow> nat \<Rightarrow> nat" where
  "aq_pos q i = (unat (aq_front q) + i) mod unat (aq_size q)"

definition aq_list :: "('a, 'w::len word) array_queue \<Rightarrow> 'a list" where
  "aq_list q = map (\<lambda>i. aq_item q ! aq_pos q i) [0..<unat (aq_len q)]"

lemma length_aq_list [simp]: "length (aq_list q) = unat (aq_len q)"
  by (simp add: aq_list_def)

lemma nth_aq_list [simp]: "i < unat (aq_len q) \<Longrightarrow> aq_list q ! i = aq_item q ! aq_pos q i"
  by (simp add: aq_list_def)

lemma aq_inv_len_pos:
  assumes "aq_inv q" and "aq_len q \<noteq> 0 \<or> aq_len q \<noteq> aq_size q"
  shows "aq_size q \<noteq> 0"
  using assms by (auto simp: aq_inv_def)

lemma aq_queued_size: "aq_inv q \<Longrightarrow> i < length (aq_list q) \<Longrightarrow> aq_size q \<noteq> 0"
  by (auto simp: aq_inv_def)

lemma aq_pos_less:
  assumes "aq_inv q" and "aq_size q \<noteq> 0"
  shows "aq_pos q i < unat (aq_size q)" and "aq_pos q i < length (aq_item q)"
proof -
  show *: "aq_pos q i < unat (aq_size q)"
    using assms by (simp add: aq_pos_def unat_pos_iff)
  then show "aq_pos q i < length (aq_item q)"
    using assms by (simp add: aq_inv_def)
qed

lemma aq_pos_eq_iff:
  assumes "aq_inv q" and "aq_size q \<noteq> 0" and "i < unat (aq_size q)" and "j < unat (aq_size q)"
  shows "aq_pos q i = aq_pos q j \<longleftrightarrow> i = j"
  using assms mod_ring_inj [of "unat (aq_front q)" "unat (aq_size q)" i j]
  by (auto simp: aq_pos_def aq_inv_def)

lemma aq_back_pos: "aq_inv q \<Longrightarrow> aq_size q \<noteq> 0 \<Longrightarrow> unat (aq_back q) = aq_pos q (unat (aq_len q))"
  by (simp add: aq_inv_def aq_pos_def)

lemma aq_front_pos: "aq_inv q \<Longrightarrow> aq_size q \<noteq> 0 \<Longrightarrow> unat (aq_front q) = aq_pos q 0"
  by (simp add: aq_inv_def aq_pos_def)

lemma c_inc_mod_below:
  fixes x siz :: "'w::len word"
  assumes "unat x < unat siz"
  shows "c_inc_mod x siz = Some (word_of_nat (Suc (unat x) mod unat siz))"
proof -
  have "unat siz < 2 ^ LENGTH('w)" by (rule unsigned_less)
  with assms have "Suc (unat x) < 2 ^ LENGTH('w)" by linarith
  then have "c_inc x = Suc (unat x)" by (simp add: c_inc_def)
  moreover have "siz \<noteq> 0" using assms by auto
  ultimately show ?thesis by (simp add: c_inc_mod_def)
qed

lemma unat_ring_word:
  fixes siz :: "'w::len word"
  assumes "siz \<noteq> 0"
  shows "unat (word_of_nat (n mod unat siz) :: 'w word) = n mod unat siz"
  by (rule unat_of_nat_small [where y = siz]) (simp add: assms unat_pos_iff)

section \<open>Enqueue and dequeue\<close>

lemma aq_init_inv:
  fixes q :: "('a, 'w::len word) array_queue"
  assumes "siz < 2 ^ LENGTH('w)" and "siz \<le> length buf"
  shows "aq_inv (ARRAY_QUEUE_INIT q buf siz)" and "aq_list (ARRAY_QUEUE_INIT q buf siz) = []"
    and "unat (aq_size (ARRAY_QUEUE_INIT q buf siz)) = siz"
proof -
  have *: "unat (word_of_nat siz :: 'w word) = siz"
    using assms(1) by (simp add: unat_of_nat take_bit_nat_eq_self)
  show "aq_inv (ARRAY_QUEUE_INIT q buf siz)"
    using assms * by (auto simp: aq_inv_def ARRAY_QUEUE_INIT_def intro!: gr0I)
  show "aq_list (ARRAY_QUEUE_INIT q buf siz) = []"
    by (simp add: aq_list_def ARRAY_QUEUE_INIT_def)
  show "unat (aq_size (ARRAY_QUEUE_INIT q buf siz)) = siz"
    using * by (simp add: ARRAY_QUEUE_INIT_def)
qed

lemma aq_full_iff: "ARRAY_QUEUE_IS_FULL q \<longleftrightarrow> length (aq_list q) = unat (aq_size q)"
  by (simp add: ARRAY_QUEUE_IS_FULL_def)

lemma aq_empty_iff: "ARRAY_QUEUE_IS_EMPTY q \<longleftrightarrow> aq_list q = []"
  by (simp add: ARRAY_QUEUE_IS_EMPTY_def aq_list_def)

lemma aq_enqueue_full:
  "ARRAY_QUEUE_IS_FULL q \<Longrightarrow> ARRAY_QUEUE_ENQUEUE_IMPL q x = Some (False, q)"
  by (simp add: ARRAY_QUEUE_ENQUEUE_IMPL_def)

lemma aq_dequeue_empty:
  "ARRAY_QUEUE_IS_EMPTY q \<Longrightarrow> ARRAY_QUEUE_DEQUEUE_IMPL q x = Some (False, x, q)"
  by (simp add: ARRAY_QUEUE_DEQUEUE_IMPL_def)

lemma aq_not_full_len:
  assumes "aq_inv q" and "\<not> ARRAY_QUEUE_IS_FULL q"
  shows "aq_size q \<noteq> 0" and "unat (aq_len q) < unat (aq_size q)"
    and "unat (aq_len q + 1) = Suc (unat (aq_len q))"
proof -
  show "aq_size q \<noteq> 0" using assms aq_inv_len_pos by (auto simp: ARRAY_QUEUE_IS_FULL_def)
  show *: "unat (aq_len q) < unat (aq_size q)"
    using assms by (auto simp: aq_inv_def ARRAY_QUEUE_IS_FULL_def order.strict_iff_order)
  show "unat (aq_len q + 1) = Suc (unat (aq_len q))" by (rule unat_succ [OF *])
qed

lemma aq_enqueue_not_full:
  fixes q :: "('a, 'w::len word) array_queue" and x :: 'a
  assumes inv: "aq_inv q" and nf: "\<not> ARRAY_QUEUE_IS_FULL q"
  defines "q' \<equiv> q\<lparr>aq_item := (aq_item q)[unat (aq_back q) := x],
                   aq_back := word_of_nat (Suc (unat (aq_back q)) mod unat (aq_size q)),
                   aq_len := aq_len q + 1\<rparr>"
  shows "ARRAY_QUEUE_ENQUEUE_IMPL q x = Some (True, q')"
    and "aq_inv q'" and "aq_list q' = aq_list q @ [x]"
proof -
  note len = aq_not_full_len [OF inv nf]
  note bk = aq_back_pos [OF inv len(1)]
  have b: "unat (aq_back q) < unat (aq_size q)" "unat (aq_back q) < length (aq_item q)"
    using aq_pos_less [OF inv len(1)] bk by simp_all
  then have u: "c_upd (aq_item q) (uint (aq_back q)) x = Some ((aq_item q)[unat (aq_back q) := x])"
    by (simp add: c_upd_uint)
  show "ARRAY_QUEUE_ENQUEUE_IMPL q x = Some (True, q')"
    using nf u c_inc_mod_below [OF b(1)] by (simp add: ARRAY_QUEUE_ENQUEUE_IMPL_def q'_def)
  have "unat (aq_back q') = (unat (aq_front q) + Suc (unat (aq_len q))) mod unat (aq_size q)"
    using len(1) bk by (simp add: q'_def unat_ring_word aq_pos_def mod_Suc_eq)
  then show "aq_inv q'"
    using inv len by (simp add: aq_inv_def q'_def)
  have pos: "aq_pos q' i = aq_pos q i" for i by (simp add: aq_pos_def q'_def)
  show "aq_list q' = aq_list q @ [x]"
  proof (rule nth_equalityI)
    show "length (aq_list q') = length (aq_list q @ [x])" using len by (simp add: q'_def)
    fix i assume "i < length (aq_list q')"
    then have i: "i < Suc (unat (aq_len q))" using len by (simp add: q'_def)
    have "aq_list q' ! i = (aq_item q)[aq_pos q (unat (aq_len q)) := x] ! aq_pos q i"
      using i len pos bk by (subst nth_aq_list) (simp_all add: q'_def)
    also have "\<dots> = (aq_list q @ [x]) ! i"
      using i len aq_pos_less [OF inv len(1)] aq_pos_eq_iff [OF inv len(1), of i "unat (aq_len q)"]
      by (auto simp: nth_append nth_list_update less_Suc_eq)
    finally show "aq_list q' ! i = (aq_list q @ [x]) ! i" .
  qed
qed

lemma aq_dequeue_not_empty:
  fixes q :: "('a, 'w::len word) array_queue" and d :: 'a
  assumes inv: "aq_inv q" and ne: "\<not> ARRAY_QUEUE_IS_EMPTY q"
  defines "q' \<equiv> q\<lparr>aq_front := word_of_nat (Suc (unat (aq_front q)) mod unat (aq_size q)),
                   aq_len := aq_len q - 1\<rparr>"
  shows "ARRAY_QUEUE_DEQUEUE_IMPL q d = Some (True, hd (aq_list q), q')"
    and "aq_inv q'" and "aq_list q' = tl (aq_list q)"
proof -
  from ne have l: "aq_len q \<noteq> 0" by (simp add: ARRAY_QUEUE_IS_EMPTY_def)
  then have s: "aq_size q \<noteq> 0" using aq_inv_len_pos [OF inv] by simp
  note front = aq_front_pos [OF inv s]
  have f: "unat (aq_front q) < unat (aq_size q)" "unat (aq_front q) < length (aq_item q)"
    using aq_pos_less [OF inv s] front by simp_all
  have hd: "hd (aq_list q) = aq_item q ! unat (aq_front q)"
    using l front by (subst hd_conv_nth) (auto simp: unat_pos_iff simp flip: length_greater_0_conv)
  have "c_nth (aq_item q) (uint (aq_front q)) = Some (hd (aq_list q))"
    using f hd by (simp add: c_nth_uint)
  then show "ARRAY_QUEUE_DEQUEUE_IMPL q d = Some (True, hd (aq_list q), q')"
    using ne c_inc_mod_below [OF f(1)] by (simp add: ARRAY_QUEUE_DEQUEUE_IMPL_def q'_def)
  have len: "unat (aq_len q') = unat (aq_len q) - 1"
    using l by (simp add: q'_def unat_pred)
  have suc: "unat (aq_len q) = Suc (unat (aq_len q'))"
    using l len unat_pos_iff [of "aq_len q"] by simp
  have pos: "aq_pos q' i = aq_pos q (Suc i)" for i
    using s by (simp add: aq_pos_def q'_def unat_ring_word mod_add_left_eq)
  have "unat (aq_back q) = (unat (aq_front q') + unat (aq_len q')) mod unat (aq_size q)"
    using aq_back_pos [OF inv s] pos [of "unat (aq_len q')"] suc by (simp add: aq_pos_def q'_def)
  then show "aq_inv q'"
    using inv len s by (auto simp: aq_inv_def q'_def unat_ring_word unat_pos_iff)
  show "aq_list q' = tl (aq_list q)"
    by (rule nth_equalityI) (simp_all add: len nth_tl pos, simp add: q'_def)
qed

lemma aq_front_hd:
  assumes "aq_inv q" and "\<not> ARRAY_QUEUE_IS_EMPTY q"
  shows "ARRAY_QUEUE_FRONT q = Some (hd (aq_list q))"
  using aq_dequeue_not_empty(1) [OF assms, of undefined] assms(2)
  by (auto simp: ARRAY_QUEUE_FRONT_def ARRAY_QUEUE_DEQUEUE_IMPL_def split: bind_splits)

section \<open>Iteration\<close>

lemma aq_iter_start:
  assumes "aq_inv q"
  shows "ARRAY_QUEUE_ITER q = (if aq_list q = [] then None else Some (aq_pos q 0))"
  using assms aq_inv_len_pos aq_front_pos aq_empty_iff
  by (fastforce simp: ARRAY_QUEUE_ITER_def ARRAY_QUEUE_ITER_END_def ARRAY_QUEUE_IS_EMPTY_def)

text \<open>
  Between two queue positions: the successor of a queued element's index is \<open>aq_back\<close>
  exactly at the last one, also when the queue is full and \<open>aq_back = aq_front\<close>.
\<close>

lemma aq_pos_Suc:
  "aq_size q \<noteq> 0 \<Longrightarrow> (aq_pos q i + 1) mod unat (aq_size q) = aq_pos q (Suc i)"
  by (simp add: aq_pos_def mod_Suc_eq)

lemma aq_pos_back_iff:
  assumes inv: "aq_inv q" and s: "aq_size q \<noteq> 0" and i: "0 < i" "i \<le> unat (aq_len q)"
  shows "aq_pos q i = unat (aq_back q) \<longleftrightarrow> i = unat (aq_len q)"
proof -
  have f: "unat (aq_front q) < unat (aq_size q)" and l: "unat (aq_len q) \<le> unat (aq_size q)"
    using inv s by (auto simp: aq_inv_def)
  show ?thesis
    using i l aq_back_pos [OF inv s] mod_ring [OF f l] mod_ring [OF f order.trans [OF i(2) l]]
    by (auto simp: aq_pos_def split: if_splits)
qed

lemma aq_iter_next:
  assumes inv: "aq_inv q" and i: "i < length (aq_list q)"
  shows "ARRAY_QUEUE_ITER_NEXT q (Some (aq_pos q i)) =
           Some (if Suc i = length (aq_list q) then None else Some (aq_pos q (Suc i)))"
proof -
  have s: "aq_size q \<noteq> 0" using inv i by (rule aq_queued_size)
  show ?thesis
    using i aq_pos_Suc [OF s, of i] aq_pos_back_iff [OF inv s, of "Suc i"] s
    by (auto simp: ARRAY_QUEUE_ITER_NEXT_def ARRAY_QUEUE_ITER_END_def Let_def)
qed

text \<open>The client's loop: visit the iterator's element, step, until \<open>ARRAY_QUEUE_ITER_END\<close>.\<close>

partial_function (option) aq_collect ::
    "('a, 'w::len word) array_queue \<Rightarrow> aq_iter \<Rightarrow> 'a list option" where
  "aq_collect q iter =
     (case iter of None \<Rightarrow> Some []
      | Some i \<Rightarrow> do {
          x \<leftarrow> c_nth (aq_item q) (int i);
          it \<leftarrow> ARRAY_QUEUE_ITER_NEXT q iter;
          xs \<leftarrow> aq_collect q it;
          Some (x # xs)
        })"

lemma aq_collect_from:
  assumes inv: "aq_inv q"
  shows "i < length (aq_list q) \<Longrightarrow>
    aq_collect q (Some (aq_pos q i)) = Some (drop i (aq_list q))"
proof (induction "length (aq_list q) - i" arbitrary: i)
  case 0
  then show ?case by simp
next
  case (Suc n)
  have s: "aq_size q \<noteq> 0" using inv Suc.prems by (rule aq_queued_size)
  have rest: "aq_collect q (if Suc i = length (aq_list q) then None else Some (aq_pos q (Suc i))) =
      Some (drop (Suc i) (aq_list q))"
    using Suc.hyps(1) [of "Suc i"] Suc.hyps(2) Suc.prems
    by (auto simp: aq_collect.simps [of q None])
  show ?case
    using Suc.prems aq_iter_next [OF inv Suc.prems] rest aq_pos_less(2) [OF inv s, of i]
    by (subst aq_collect.simps) (simp add: c_nth_of_nat flip: Cons_nth_drop_Suc)
qed

lemma aq_collect_all:
  assumes "aq_inv q"
  shows "aq_collect q (ARRAY_QUEUE_ITER q) = Some (aq_list q)"
  using aq_collect_from [OF assms, of 0] aq_iter_start [OF assms]
  by (auto simp: aq_collect.simps [of q None] simp del: length_aq_list simp flip: length_greater_0_conv)

section \<open>Removal through an iterator\<close>

lemma aq_remove_loop_shifts:
  assumes inv: "aq_inv q" and "Suc j < length (aq_list q)" and "length items = length (aq_item q)"
  shows "\<exists>items'.
    aq_remove_loop (unat (aq_size q)) (unat (aq_back q)) items (aq_pos q j) (aq_pos q (Suc j)) =
      Some (items', aq_pos q (length (aq_list q) - 1)) \<and>
    length items' = length items \<and>
    (\<forall>m < length (aq_list q) - 1.
       items' ! aq_pos q m = (if m < j then items ! aq_pos q m else items ! aq_pos q (Suc m)))"
  using assms(2,3)
proof (induction "length (aq_list q) - j" arbitrary: j items)
  case 0
  then show ?case by simp
next
  case (Suc d)
  let ?n = "unat (aq_len q)"
  let ?items = "items[aq_pos q j := items ! aq_pos q (Suc j)]"
  have s: "aq_size q \<noteq> 0" using inv Suc.prems(1) by (rule aq_queued_size)
  have n: "?n \<le> unat (aq_size q)" using inv by (simp add: aq_inv_def)
  have less: "aq_pos q i < length items" for i
    using aq_pos_less(2) [OF inv s] Suc.prems(2) by simp
  have upd: "?items ! aq_pos q m = (if m = j then items ! aq_pos q (Suc j) else items ! aq_pos q m)"
    if "m < ?n" for m
    using that n Suc.prems(1) less aq_pos_eq_iff [OF inv s, of m j] by (auto simp: nth_list_update)
  have step: "aq_remove_loop (unat (aq_size q)) (unat (aq_back q)) items (aq_pos q j) (aq_pos q (Suc j)) =
      (if Suc (Suc j) = ?n then Some (?items, aq_pos q (Suc j))
       else aq_remove_loop (unat (aq_size q)) (unat (aq_back q)) ?items
              (aq_pos q (Suc j)) (aq_pos q (Suc (Suc j))))"
    using Suc.prems(1) less aq_pos_Suc [OF s, of "Suc j"] aq_pos_back_iff [OF inv s, of "Suc (Suc j)"]
    by (subst aq_remove_loop.simps) (auto simp: c_nth_of_nat c_upd_of_nat Let_def)
  show ?case
  proof (cases "Suc (Suc j) = ?n")
    case True
    then show ?thesis using step upd by (auto simp: less_Suc_eq simp flip: True)
  next
    case False
    have "d = length (aq_list q) - Suc j" using Suc.hyps(2) by simp
    from Suc.hyps(1) [OF this, of ?items] False Suc.prems obtain items' where r:
      "aq_remove_loop (unat (aq_size q)) (unat (aq_back q)) ?items (aq_pos q (Suc j))
         (aq_pos q (Suc (Suc j))) = Some (items', aq_pos q (?n - 1))"
      "length items' = length items"
      "\<forall>m < ?n - 1. items' ! aq_pos q m =
         (if m < Suc j then ?items ! aq_pos q m else ?items ! aq_pos q (Suc m))"
      by auto
    moreover have "items' ! aq_pos q m = (if m < j then items ! aq_pos q m else items ! aq_pos q (Suc m))"
      if "m < ?n - 1" for m
      using that r(3) upd [of m] upd [of "Suc m"] by (auto simp: less_Suc_eq)
    ultimately show ?thesis using step False by auto
  qed
qed

lemma aq_iter_remove_run:
  assumes inv: "aq_inv q" and j: "j < length (aq_list q)"
  shows "\<exists>items'.
    ARRAY_QUEUE_ITER_REMOVE q (Some (aq_pos q j)) =
      Some (if Suc j = length (aq_list q) then None else Some (aq_pos q j),
            q\<lparr>aq_item := items', aq_back := word_of_nat (aq_pos q (length (aq_list q) - 1)),
              aq_len := aq_len q - 1\<rparr>) \<and>
    length items' = length (aq_item q) \<and>
    (\<forall>m < length (aq_list q) - 1.
       items' ! aq_pos q m = (if m < j then aq_item q ! aq_pos q m else aq_item q ! aq_pos q (Suc m)))"
proof (cases "Suc j = length (aq_list q)")
  case True
  have s: "aq_size q \<noteq> 0" using inv j by (rule aq_queued_size)
  have "aq_pos q (Suc j) = unat (aq_back q)"
    using aq_pos_back_iff [OF inv s, of "Suc j"] True by simp
  moreover have "j = length (aq_list q) - 1" using True by simp
  ultimately show ?thesis
    using True s aq_pos_Suc [OF s, of j]
    by (intro exI [of _ "aq_item q"])
       (auto simp: ARRAY_QUEUE_ITER_REMOVE_def ARRAY_QUEUE_ITER_END_def Let_def)
next
  case False
  have s: "aq_size q \<noteq> 0" using inv j by (rule aq_queued_size)
  have "aq_pos q (Suc j) \<noteq> unat (aq_back q)"
    using aq_pos_back_iff [OF inv s, of "Suc j"] False j by auto
  moreover obtain items' where
    "aq_remove_loop (unat (aq_size q)) (unat (aq_back q)) (aq_item q) (aq_pos q j) (aq_pos q (Suc j)) =
      Some (items', aq_pos q (length (aq_list q) - 1))"
    "length items' = length (aq_item q)"
    "\<forall>m < length (aq_list q) - 1.
       items' ! aq_pos q m = (if m < j then aq_item q ! aq_pos q m else aq_item q ! aq_pos q (Suc m))"
    using aq_remove_loop_shifts [OF inv, of j "aq_item q"] False j by auto
  ultimately show ?thesis
    using False s aq_pos_Suc [OF s, of j]
    by (auto simp: ARRAY_QUEUE_ITER_REMOVE_def ARRAY_QUEUE_ITER_END_def Let_def)
qed

lemma aq_iter_remove_list:
  assumes inv: "aq_inv q" and j: "j < length (aq_list q)"
  obtains q' where
    "ARRAY_QUEUE_ITER_REMOVE q (Some (aq_pos q j)) =
       Some (if Suc j = length (aq_list q) then None else Some (aq_pos q' j), q')"
    "aq_inv q'" "aq_list q' = take j (aq_list q) @ drop (Suc j) (aq_list q)"
proof -
  let ?n = "length (aq_list q)"
  obtain items' where r:
    "ARRAY_QUEUE_ITER_REMOVE q (Some (aq_pos q j)) =
      Some (if Suc j = ?n then None else Some (aq_pos q j),
            q\<lparr>aq_item := items', aq_back := word_of_nat (aq_pos q (?n - 1)), aq_len := aq_len q - 1\<rparr>)"
    "length items' = length (aq_item q)"
    "\<forall>m < ?n - 1. items' ! aq_pos q m =
       (if m < j then aq_item q ! aq_pos q m else aq_item q ! aq_pos q (Suc m))"
    using aq_iter_remove_run [OF assms] by blast
  define q' where "q' = q\<lparr>aq_item := items', aq_back := word_of_nat (aq_pos q (?n - 1)),
                           aq_len := aq_len q - 1\<rparr>"
  have s: "aq_size q \<noteq> 0" using inv j by (rule aq_queued_size)
  have l: "aq_len q \<noteq> 0" using j by auto
  have pos: "aq_pos q' i = aq_pos q i" for i by (simp add: q'_def aq_pos_def)
  have len: "unat (aq_len q') = ?n - 1" using l by (simp add: q'_def unat_pred)
  have "unat (aq_back q') = aq_pos q' (unat (aq_len q'))"
    using s len pos by (simp add: q'_def aq_pos_def unat_ring_word)
  then have "aq_inv q'"
    using inv s r(2) len by (auto simp: aq_inv_def aq_pos_def q'_def)
  moreover have "aq_list q' = take j (aq_list q) @ drop (Suc j) (aq_list q)"
    using r(3) j by (intro nth_equalityI) (auto simp: len pos nth_append, auto simp: q'_def)
  ultimately show thesis
    using that [of q'] r(1) pos by (simp add: q'_def)
qed

section \<open>The ring buffer implements the queue interface\<close>

interpretation ring: bounded_queue
  "ARRAY_QUEUE_ENQUEUE_RET :: ('a, 'w::len word) array_queue \<Rightarrow> _"
  ARRAY_QUEUE_DEQUEUE_RET ARRAY_QUEUE_IS_EMPTY ARRAY_QUEUE_IS_FULL ARRAY_QUEUE_FRONT aq_list "\<lambda>q. unat (aq_size q)" aq_inv
proof unfold_locales
  fix q :: "('a, 'w::len word) array_queue" and x d :: 'a and xs :: "'a list"
  assume inv: "aq_inv q"
  show "length (aq_list q) \<le> unat (aq_size q)" using inv by (simp add: aq_inv_def)
  show "ARRAY_QUEUE_IS_EMPTY q \<longleftrightarrow> aq_list q = []" by (rule aq_empty_iff)
  show "ARRAY_QUEUE_IS_FULL q \<longleftrightarrow> length (aq_list q) = unat (aq_size q)" by (rule aq_full_iff)
  show "ARRAY_QUEUE_FRONT q = Some x" if "aq_list q = x # xs"
    using aq_front_hd [OF inv] that by (simp add: aq_empty_iff)
  show "ARRAY_QUEUE_ENQUEUE_RET q x = Some (False, q)" if "length (aq_list q) = unat (aq_size q)"
    using that by (simp add: ARRAY_QUEUE_ENQUEUE_RET_def aq_enqueue_full aq_full_iff)
  show "\<exists>q'. ARRAY_QUEUE_ENQUEUE_RET q x = Some (True, q') \<and> aq_inv q' \<and>
      aq_list q' = aq_list q @ [x] \<and> unat (aq_size q') = unat (aq_size q)"
    if "length (aq_list q) < unat (aq_size q)"
  proof -
    have nf: "\<not> ARRAY_QUEUE_IS_FULL q" using that by (auto simp: aq_full_iff)
    note e = aq_enqueue_not_full [OF inv nf, of x]
    show ?thesis
      unfolding ARRAY_QUEUE_ENQUEUE_RET_def by (rule exI, rule conjI, rule e(1)) (simp add: e(2,3))
  qed
  show "ARRAY_QUEUE_DEQUEUE_RET q d = Some (False, d, q)" if "aq_list q = []"
    using that by (simp add: ARRAY_QUEUE_DEQUEUE_RET_def aq_dequeue_empty aq_empty_iff)
  show "\<exists>q'. ARRAY_QUEUE_DEQUEUE_RET q d = Some (True, x, q') \<and> aq_inv q' \<and> aq_list q' = xs \<and>
      unat (aq_size q') = unat (aq_size q)"
    if "aq_list q = x # xs"
  proof -
    have ne: "\<not> ARRAY_QUEUE_IS_EMPTY q" using that by (simp add: aq_empty_iff)
    note e = aq_dequeue_not_empty [OF inv ne]
    show ?thesis
      unfolding ARRAY_QUEUE_DEQUEUE_RET_def
      by (rule exI, rule conjI, subst e(1), simp add: that) (simp add: e(2,3) that)
  qed
qed

section \<open>Reachable states\<close>

text \<open>The iterators that a client obtains from \<open>ARRAY_QUEUE_ITER\<close> and \<open>ARRAY_QUEUE_ITER_NEXT\<close>.\<close>

inductive aq_iterates :: "('a, 'w::len word) array_queue \<Rightarrow> aq_iter \<Rightarrow> bool" for q where
  iter_first: "aq_iterates q (ARRAY_QUEUE_ITER q)"
| iter_next: "aq_iterates q it \<Longrightarrow> ARRAY_QUEUE_ITER_NEXT q it = Some it' \<Longrightarrow> aq_iterates q it'"

text \<open>The states that a queue on a buffer of \<open>siz\<close> elements goes through.\<close>

inductive aq_reachable :: "nat \<Rightarrow> ('a, 'w::len word) array_queue \<Rightarrow> bool" for siz where
  reach_init: "siz \<le> length buf \<Longrightarrow> aq_reachable siz (ARRAY_QUEUE_INIT q buf siz)"
| reach_enqueue: "aq_reachable siz q \<Longrightarrow> ARRAY_QUEUE_ENQUEUE_RET q x = Some (r, q') \<Longrightarrow>
    aq_reachable siz q'"
| reach_dequeue: "aq_reachable siz q \<Longrightarrow> ARRAY_QUEUE_DEQUEUE_RET q d = Some (r, y, q') \<Longrightarrow>
    aq_reachable siz q'"
| reach_remove: "aq_reachable siz q \<Longrightarrow> aq_iterates q it \<Longrightarrow>
    ARRAY_QUEUE_ITER_REMOVE q it = Some (it', q') \<Longrightarrow> aq_reachable siz q'"

lemma aq_iterates_pos:
  assumes "aq_iterates q it" and inv: "aq_inv q"
  shows "it = None \<or> (\<exists>j < length (aq_list q). it = Some (aq_pos q j))"
  using assms(1)
proof (induction rule: aq_iterates.induct)
  case iter_first
  then show ?case using aq_iter_start [OF inv] by (auto simp flip: length_greater_0_conv)
next
  case (iter_next it it')
  show ?case
  proof (cases it)
    case None
    then show ?thesis using iter_next.hyps(2) by (simp add: ARRAY_QUEUE_ITER_NEXT_def)
  next
    case (Some i)
    then obtain j where j: "j < length (aq_list q)" "it = Some (aq_pos q j)"
      using iter_next.IH by blast
    then show ?thesis
      using aq_iter_next [OF inv j(1)] iter_next.hyps(2) by (cases "Suc j < length (aq_list q)") auto
  qed
qed

lemma aq_pos_iterates:
  assumes inv: "aq_inv q"
  shows "j < length (aq_list q) \<Longrightarrow> aq_iterates q (Some (aq_pos q j))"
proof (induction j)
  case 0
  then have "aq_list q \<noteq> []" by (metis length_greater_0_conv)
  then have "ARRAY_QUEUE_ITER q = Some (aq_pos q 0)" using aq_iter_start [OF inv] by simp
  then show ?case using aq_iterates.iter_first [of q] by simp
next
  case (Suc j)
  then have "ARRAY_QUEUE_ITER_NEXT q (Some (aq_pos q j)) = Some (Some (aq_pos q (Suc j)))"
    using aq_iter_next [OF inv, of j] by simp
  moreover have "aq_iterates q (Some (aq_pos q j))" using Suc by simp
  ultimately show ?case by (rule aq_iterates.iter_next [rotated])
qed

lemma aq_enqueue_inv:
  assumes "aq_inv q" and "ARRAY_QUEUE_ENQUEUE_RET q x = Some (r, q')"
  shows "aq_inv q'" and "aq_size q' = aq_size q"
  using assms aq_enqueue_full [of q x] aq_enqueue_not_full [of q x]
  by (cases "ARRAY_QUEUE_IS_FULL q"; auto simp: ARRAY_QUEUE_ENQUEUE_RET_def)+

lemma aq_dequeue_inv:
  assumes "aq_inv q" and "ARRAY_QUEUE_DEQUEUE_RET q d = Some (r, y, q')"
  shows "aq_inv q'" and "aq_size q' = aq_size q"
  using assms aq_dequeue_empty [of q d] aq_dequeue_not_empty(1) [of q d] aq_dequeue_not_empty(2) [of q]
  by (cases "ARRAY_QUEUE_IS_EMPTY q"; auto simp: ARRAY_QUEUE_DEQUEUE_RET_def)+

lemma aq_iter_remove_size: "ARRAY_QUEUE_ITER_REMOVE q it = Some (it', q') \<Longrightarrow> aq_size q' = aq_size q"
  by (auto simp: ARRAY_QUEUE_ITER_REMOVE_def Let_def split: bind_splits if_splits)

lemma aq_iter_remove_inv:
  assumes inv: "aq_inv q" and it: "aq_iterates q it"
    and run: "ARRAY_QUEUE_ITER_REMOVE q it = Some (it', q')"
  shows "aq_inv q'" and "it' \<noteq> None \<Longrightarrow> aq_iterates q' it'"
proof -
  have "it \<noteq> None" using run by (cases it) (auto simp: ARRAY_QUEUE_ITER_REMOVE_def)
  then obtain j where j: "j < length (aq_list q)" "it = Some (aq_pos q j)"
    using aq_iterates_pos [OF it inv] by blast
  obtain q'' where q'':
    "ARRAY_QUEUE_ITER_REMOVE q it =
       Some (if Suc j = length (aq_list q) then None else Some (aq_pos q'' j), q'')"
    "aq_inv q''" "aq_list q'' = take j (aq_list q) @ drop (Suc j) (aq_list q)"
    using aq_iter_remove_list [OF inv j(1)] j(2) by metis
  then have q': "q' = q''" "it' = (if Suc j = length (aq_list q) then None else Some (aq_pos q' j))"
    using run by auto
  show "aq_inv q'" using q' q''(2) by simp
  have "length (aq_list q') = length (aq_list q) - 1"
    using q''(3) q' j(1) arg_cong [OF q''(3), of length] by simp
  then show "aq_iterates q' it'" if "it' \<noteq> None"
    using that j(1) q' aq_pos_iterates [OF \<open>aq_inv q'\<close>, of j] by (auto split: if_splits)
qed

lemma aq_reachable_inv:
  fixes q :: "('a, 'w::len word) array_queue"
  assumes "aq_reachable siz q" and "siz < 2 ^ LENGTH('w)"
  shows "aq_inv q \<and> unat (aq_size q) = siz"
  using assms
proof (induction rule: aq_reachable.induct)
  case (reach_init buf q)
  then show ?case using aq_init_inv [of siz buf q] by simp
next
  case (reach_enqueue q x r q')
  then show ?case using aq_enqueue_inv [of q x r q'] by simp
next
  case (reach_dequeue q d r y q')
  then show ?case using aq_dequeue_inv [of q d r y q'] by simp
next
  case (reach_remove q it it' q')
  then show ?case using aq_iter_remove_inv(1) [of q it it' q'] aq_iter_remove_size by fastforce
qed

section \<open>Properties\<close>

text \<open>
  C23. A queue initialised on a buffer of \<open>siz\<close> elements behaves as a bounded FIFO of
  capacity \<open>siz\<close>: whatever sequence of enqueues, dequeues and inspections of the queue a
  client runs, no step has undefined behaviour and every return value, every dequeued element and
  the first element read through \<open>ARRAY_QUEUE_FRONT\<close> is the one that the list specification gives. This holds at each width of \<open>size_type\<close>.
\<close>

theorem aq_run_is_bounded_fifo:
  fixes q :: "('a, 'w::len word) array_queue"
  assumes "siz < 2 ^ LENGTH('w)" and "siz \<le> length buf"
  shows "\<exists>q'. queue_run ARRAY_QUEUE_ENQUEUE_RET ARRAY_QUEUE_DEQUEUE_RET
                ARRAY_QUEUE_IS_EMPTY ARRAY_QUEUE_IS_FULL ARRAY_QUEUE_FRONT d
                (ARRAY_QUEUE_INIT q buf siz) ops =
              Some (fst (spec_run siz d [] ops), q') \<and>
            aq_list q' = snd (spec_run siz d [] ops)"
  using ring.run_refines [OF aq_init_inv(1) [OF assms], of d q ops] aq_init_inv(2,3) [OF assms, of q]
  by auto

theorem aq_run_is_bounded_fifo_witness:
  "\<exists>q'. queue_run ARRAY_QUEUE_ENQUEUE_RET ARRAY_QUEUE_DEQUEUE_RET
          ARRAY_QUEUE_IS_EMPTY ARRAY_QUEUE_IS_FULL ARRAY_QUEUE_FRONT 0
          (ARRAY_QUEUE_INIT (undefined :: nat array_queue_8) [0, 0] 2)
          [Enq 1, Enq 2, Enq 3, Peek, Deq, Enq 4, Deq, Deq, Deq, Peek] =
        Some ([EnqRet True, EnqRet True, EnqRet False, PeekRet False True (Some 1), DeqRet True 1, EnqRet True,
               DeqRet True 2, DeqRet True 4, DeqRet False 0, PeekRet True False None], q') \<and> aq_list q' = []"
  using aq_run_is_bounded_fifo
    [of 2 "[0, 0]" 0 "undefined :: nat array_queue_8" "[Enq 1, Enq 2, Enq 3, Peek, Deq, Enq 4, Deq, Deq, Deq, Peek]"]
  by simp

text \<open>
  C30. In every state that initialisation, enqueueing, dequeueing and removal through a live
  iterator can reach, no operation has undefined behaviour: enqueue and dequeue return, and
  stepping or removing through an iterator that is not \<open>ARRAY_QUEUE_ITER_END\<close> returns
  (in particular the loop of \<open>ARRAY_QUEUE_ITER_REMOVE\<close> ends).
\<close>

theorem aq_reachable_no_undefined_behaviour:
  fixes q :: "('a, 'w::len word) array_queue"
  assumes "aq_reachable siz q" and "siz < 2 ^ LENGTH('w)"
  shows "ARRAY_QUEUE_ENQUEUE_RET q x \<noteq> None \<and> ARRAY_QUEUE_DEQUEUE_RET q d \<noteq> None \<and>
    (aq_iterates q (Some i) \<longrightarrow>
       ARRAY_QUEUE_ITER_NEXT q (Some i) \<noteq> None \<and> ARRAY_QUEUE_ITER_REMOVE q (Some i) \<noteq> None)"
proof -
  have inv: "aq_inv q" using aq_reachable_inv [OF assms] by blast
  have "ARRAY_QUEUE_ENQUEUE_RET q x \<noteq> None"
    using ring.step_refines [OF inv, of undefined "Enq x"] by (auto split: bind_splits)
  moreover have "ARRAY_QUEUE_DEQUEUE_RET q d \<noteq> None"
    using ring.step_refines [OF inv, of d Deq] by (auto split: bind_splits)
  moreover have "ARRAY_QUEUE_ITER_NEXT q (Some i) \<noteq> None \<and> ARRAY_QUEUE_ITER_REMOVE q (Some i) \<noteq> None"
    if it: "aq_iterates q (Some i)"
  proof -
    obtain j where j: "j < length (aq_list q)" "i = aq_pos q j"
      using aq_iterates_pos [OF it inv] by blast
    show ?thesis
      using aq_iter_next [OF inv j(1)] aq_iter_remove_run [OF inv j(1)] j(2) by auto
  qed
  ultimately show ?thesis by blast
qed

theorem aq_reachable_no_undefined_behaviour_witness:
  "\<exists>q'. ARRAY_QUEUE_ENQUEUE_RET (ARRAY_QUEUE_INIT (undefined :: nat array_queue_16) [7, 7, 7] 2) 5 = Some (True, q') \<and>
     ARRAY_QUEUE_ENQUEUE_RET q' 6 \<noteq> None \<and> ARRAY_QUEUE_DEQUEUE_RET q' 9 \<noteq> None \<and>
     ARRAY_QUEUE_ITER_NEXT q' (Some 0) \<noteq> None \<and> ARRAY_QUEUE_ITER_REMOVE q' (Some 0) \<noteq> None"
proof -
  let ?q = "ARRAY_QUEUE_INIT (undefined :: nat array_queue_16) [7, 7, 7] 2"
  obtain q' where q': "ARRAY_QUEUE_ENQUEUE_RET ?q 5 = Some (True, q')" "ARRAY_QUEUE_ITER q' = Some 0"
    by (simp add: ARRAY_QUEUE_ENQUEUE_RET_def ARRAY_QUEUE_ENQUEUE_IMPL_def ARRAY_QUEUE_IS_FULL_def ARRAY_QUEUE_INIT_def
        c_upd_def c_inc_mod_def c_inc_def ARRAY_QUEUE_ITER_def ARRAY_QUEUE_IS_EMPTY_def)
  have "aq_reachable 2 ?q" by (rule reach_init) simp
  then have r: "aq_reachable 2 q'" using q'(1) by (rule reach_enqueue)
  have "aq_iterates q' (Some 0)" using iter_first [of q'] q'(2) by simp
  then show ?thesis using aq_reachable_no_undefined_behaviour [OF r, of 6 9 0] q'(1) by simp
qed

text \<open>
  C38. Iterating with \<open>ARRAY_QUEUE_ITER\<close> and \<open>ARRAY_QUEUE_ITER_NEXT\<close> until
  \<open>ARRAY_QUEUE_ITER_END\<close> ends and visits exactly the queued elements, oldest first, whether
  the queue is empty, partly filled or full (where \<open>aq_back = aq_front\<close>).
\<close>

theorem aq_iteration_visits_queue:
  assumes "aq_inv q"
  shows "aq_collect q (ARRAY_QUEUE_ITER q) = Some (aq_list q)"
  using assms by (rule aq_collect_all)

theorem aq_iteration_visits_queue_witness:
  "aq_collect \<lparr>aq_item = [3, 1, 2 :: nat], aq_size = 3 :: 8 word, aq_front = 1, aq_back = 1, aq_len = 3\<rparr>
     (Some 1) = Some [1, 2, 3]"
proof -
  let ?q = "\<lparr>aq_item = [3, 1, 2 :: nat], aq_size = 3 :: 8 word, aq_front = 1, aq_back = 1, aq_len = 3\<rparr>"
  have "aq_inv ?q" by (simp add: aq_inv_def)
  moreover have "ARRAY_QUEUE_ITER ?q = Some 1"
    by (simp add: ARRAY_QUEUE_ITER_def ARRAY_QUEUE_IS_EMPTY_def)
  moreover have "aq_list ?q = [1, 2, 3]" by (simp add: aq_list_def aq_pos_def upt_rec)
  ultimately show ?thesis using aq_iteration_visits_queue [of ?q] by simp
qed

text \<open>
  C28. Removing through the iterator of the \<open>j\<close>-th queued element deletes exactly that
  element and keeps the order of the others; the iterator that comes back designates the
  element that followed it, or is \<open>ARRAY_QUEUE_ITER_END\<close> if it was the last one.
\<close>

theorem aq_iter_remove_deletes_element:
  assumes "aq_inv q" and "j < length (aq_list q)"
  shows "\<exists>q'. ARRAY_QUEUE_ITER_REMOVE q (Some (aq_pos q j)) =
           Some (if Suc j = length (aq_list q) then ARRAY_QUEUE_ITER_END else Some (aq_pos q' j), q') \<and>
         aq_inv q' \<and> aq_list q' = take j (aq_list q) @ drop (Suc j) (aq_list q)"
  using aq_iter_remove_list [OF assms] unfolding ARRAY_QUEUE_ITER_END_def by metis

theorem aq_iter_remove_deletes_element_witness:
  "\<exists>q'. ARRAY_QUEUE_ITER_REMOVE
         \<lparr>aq_item = [3, 1, 2 :: nat], aq_size = 3 :: 8 word, aq_front = 1, aq_back = 1, aq_len = 3\<rparr>
         (Some 2) = Some (Some (aq_pos q' 1), q') \<and> aq_list q' = [1, 3]"
proof -
  let ?q = "\<lparr>aq_item = [3, 1, 2 :: nat], aq_size = 3 :: 8 word, aq_front = 1, aq_back = 1, aq_len = 3\<rparr>"
  have "aq_inv ?q" by (simp add: aq_inv_def)
  moreover have "aq_list ?q = [1, 2, 3]" by (simp add: aq_list_def aq_pos_def upt_rec)
  moreover have "aq_pos ?q 1 = 2" by (simp add: aq_pos_def)
  ultimately show ?thesis using aq_iter_remove_deletes_element [of ?q 1] by auto
qed

text \<open>
  \<open>ARRAY_QUEUE_FRONT\<close> on a non-empty queue reads, without removing it, the element that the
  next dequeue returns.
\<close>

theorem aq_front_is_next_dequeue:
  assumes "aq_inv q" and "\<not> ARRAY_QUEUE_IS_EMPTY q"
  shows "\<exists>x q'. ARRAY_QUEUE_FRONT q = Some x \<and> ARRAY_QUEUE_DEQUEUE q d = Some (x, q') \<and>
           aq_list q = x # aq_list q'"
  using aq_front_hd [OF assms] aq_dequeue_not_empty(1) [OF assms, of d]
    aq_dequeue_not_empty(3) [OF assms] assms(2)
  by (simp add: ARRAY_QUEUE_DEQUEUE_def aq_empty_iff)

theorem aq_front_is_next_dequeue_witness:
  "\<exists>x q'. ARRAY_QUEUE_FRONT
       \<lparr>aq_item = [3, 1 :: nat], aq_size = 2 :: 32 word, aq_front = 1, aq_back = 0, aq_len = 1\<rparr> = Some x \<and>
     ARRAY_QUEUE_DEQUEUE
       \<lparr>aq_item = [3, 1 :: nat], aq_size = 2 :: 32 word, aq_front = 1, aq_back = 0, aq_len = 1\<rparr> 9 = Some (x, q')"
  using aq_front_is_next_dequeue
    [of "\<lparr>aq_item = [3, 1 :: nat], aq_size = 2 :: 32 word, aq_front = 1, aq_back = 0, aq_len = 1\<rparr>" 9]
  by (auto simp: aq_inv_def ARRAY_QUEUE_IS_EMPTY_def)

text \<open>
  C40. The size is stored in a field of \<open>size_type\<close>, modulo \<open>2 ^ w\<close>. A queue initialised with any \<open>siz\<close>
  up to the length of the buffer, also one that does not fit the field, has no undefined behaviour, but its capacity
  is \<open>siz mod 2 ^ w\<close>: every sequence of operations has the results of a bounded FIFO of that
  capacity, and of \<open>siz\<close> elements that a client enqueues exactly the first \<open>siz mod 2 ^ w\<close> are accepted; they
  are what iteration visits. For a buffer of \<open>2 ^ w\<close> elements there are none.
\<close>

theorem aq_init_size_truncated:
  fixes q :: "('a, 'w::len word) array_queue"
  assumes "siz \<le> length buf" and "length xs = siz"
  shows "(\<exists>q'. queue_run ARRAY_QUEUE_ENQUEUE_RET ARRAY_QUEUE_DEQUEUE_RET
        ARRAY_QUEUE_IS_EMPTY ARRAY_QUEUE_IS_FULL ARRAY_QUEUE_FRONT d (ARRAY_QUEUE_INIT q buf siz) ops =
        Some (fst (spec_run (siz mod 2 ^ LENGTH('w)) d [] ops), q') \<and>
      aq_list q' = snd (spec_run (siz mod 2 ^ LENGTH('w)) d [] ops)) \<and>
    (\<exists>q'. queue_run ARRAY_QUEUE_ENQUEUE_RET ARRAY_QUEUE_DEQUEUE_RET
        ARRAY_QUEUE_IS_EMPTY ARRAY_QUEUE_IS_FULL ARRAY_QUEUE_FRONT d (ARRAY_QUEUE_INIT q buf siz) (map Enq xs) =
        Some (replicate (siz mod 2 ^ LENGTH('w)) (EnqRet True) @
          replicate (siz - siz mod 2 ^ LENGTH('w)) (EnqRet False), q') \<and>
      aq_collect q' (ARRAY_QUEUE_ITER q') = Some (take (siz mod 2 ^ LENGTH('w)) xs))"
proof -
  let ?n = "siz mod 2 ^ LENGTH('w)"
  have n: "?n < 2 ^ LENGTH('w)" "?n \<le> length buf" "?n \<le> siz"
    using assms(1) mod_less_eq_dividend [of siz "2 ^ LENGTH('w)"] by (simp_all del: mod_less_eq_dividend)
  have "(word_of_nat siz :: 'w word) = word_of_nat ?n" by (simp add: word_of_nat_eq_iff take_bit_eq_mod)
  then have init: "ARRAY_QUEUE_INIT q buf siz = ARRAY_QUEUE_INIT q buf ?n" by (simp add: ARRAY_QUEUE_INIT_def)
  note run = ring.run_refines [OF aq_init_inv(1) [OF n(1,2)], of d q, folded init]
  have empty: "aq_list (ARRAY_QUEUE_INIT q buf siz) = []" "unat (aq_size (ARRAY_QUEUE_INIT q buf siz)) = ?n"
    unfolding init using aq_init_inv(2,3) [OF n(1,2), of q] by blast+
  show ?thesis
    using run [of ops] run [of "map Enq xs"] spec_run_enqueues [of "[]" ?n d xs] empty assms(2) n(3)
    by (auto simp: min_absorb1 aq_collect_all)
qed

theorem aq_init_size_truncated_witness:
  "\<exists>q'. queue_run ARRAY_QUEUE_ENQUEUE_RET ARRAY_QUEUE_DEQUEUE_RET
      ARRAY_QUEUE_IS_EMPTY ARRAY_QUEUE_IS_FULL ARRAY_QUEUE_FRONT 0
      (ARRAY_QUEUE_INIT (undefined :: nat array_queue_8) (replicate 300 0) 258) (map Enq [0..<258]) =
      Some ([EnqRet True, EnqRet True] @ replicate 256 (EnqRet False), q') \<and>
    aq_collect q' (ARRAY_QUEUE_ITER q') = Some [0, 1]"
proof -
  have "take 2 [0..<258] = [0, 1 :: nat]" by (simp add: take_upt upt_rec)
  moreover have "replicate 2 (EnqRet True :: nat qout) = [EnqRet True, EnqRet True]" by (simp add: numeral_2_eq_2)
  ultimately show ?thesis
    using aq_init_size_truncated [of 258 "replicate 300 (0 :: nat)" "[0..<258]" 0 "undefined :: nat array_queue_8" "[]"]
    by simp
qed

end
