(* ===== verification/Test_Outcome.thy ===== *)
theory Test_Outcome
  imports Embed_Prelude
begin

text \<open>
  The vocabulary of the unit tests: what a test does after an assertion of the framework, the
  assertions that the test files use, with the behaviour their documentation gives for them,
  the counting loops, and \<open>qsort\<close>.
\<close>

section \<open>Outcomes of a check\<close>

text \<open>A failed assertion ends the test; \<open>None\<close> stands for undefined behaviour, as before.\<close>

datatype 'a outcome = Passed 'a | Failed

definition passed :: "'a outcome option \<Rightarrow> ('a \<Rightarrow> 'b outcome option) \<Rightarrow> 'b outcome option" where
  "passed m f = do { r \<leftarrow> m; case r of Failed \<Rightarrow> Some Failed | Passed x \<Rightarrow> f x }"

lemma passed_simps [simp]: "passed (Some (Passed x)) f = f x" "passed (Some Failed) f = Some Failed" "passed None f = None"
  by (simp_all add: passed_def)

text \<open>A test may call itself after an assertion.\<close>

lemma passed_mono [partial_function_mono]:
  assumes "mono_option m" and "\<And>x. mono_option (\<lambda>h. f x h)"
  shows "mono_option (\<lambda>h. passed (m h) (\<lambda>x. f x h))"
proof -
  have "mono_option (\<lambda>h. case r of Failed \<Rightarrow> Some Failed | Passed x \<Rightarrow> f x h)" for r
    using assms(2) by (cases r) (simp_all add: option.const_mono)
  then show ?thesis unfolding passed_def by (intro bind_mono assms(1))
qed

definition assert_int_equal :: "'a \<Rightarrow> 'a \<Rightarrow> unit outcome" where
  "assert_int_equal x y = (if x = y then Passed () else Failed)"

definition assert_true :: "bool \<Rightarrow> unit outcome" where
  "assert_true b = (if b then Passed () else Failed)"

definition assert_false :: "bool \<Rightarrow> unit outcome" where
  "assert_false b = assert_true (\<not> b)"

text \<open>\<open>assert_in_range\<close> converts its arguments to the largest unsigned integer type, which has 64 bits.\<close>

definition to_largest_unsigned :: "int \<Rightarrow> int" where
  "to_largest_unsigned x = x mod 2 ^ 64"

definition assert_in_range :: "int \<Rightarrow> int \<Rightarrow> int \<Rightarrow> unit outcome" where
  "assert_in_range x minimum maximum =
    assert_true (to_largest_unsigned minimum \<le> to_largest_unsigned x \<and> to_largest_unsigned x \<le> to_largest_unsigned maximum)"

lemma to_largest_unsigned_id [simp]: "0 \<le> x \<Longrightarrow> x < 2 ^ 64 \<Longrightarrow> to_largest_unsigned x = x"
  by (simp add: to_largest_unsigned_def)

lemma assert_in_range_below: "0 \<le> x \<Longrightarrow> x \<le> maximum \<Longrightarrow> maximum < 2 ^ 64 \<Longrightarrow> assert_in_range x 0 maximum = Passed ()"
  by (simp add: assert_in_range_def assert_true_def)

lemma assert_in_range_above: "maximum < x \<Longrightarrow> 0 \<le> maximum \<Longrightarrow> x < 2 ^ 64 \<Longrightarrow> assert_in_range x 0 maximum = Failed"
  by (simp add: assert_in_range_def assert_true_def)

lemma to_largest_unsigned_uint [simp]: "to_largest_unsigned (uint (x :: 32 word)) = uint x"
  using unsigned_less [of x, where 'a = int] by (simp add: to_largest_unsigned_def)

lemmas assert_defs = assert_int_equal_def assert_true_def assert_false_def assert_in_range_def

section \<open>Loops\<close>

text \<open>\<open>for (i = 0; i < n; ++i)\<close> is \<open>for_each [0..<n]\<close>; the loop body changes the state \<open>'s\<close>.\<close>

fun for_each :: "'i list \<Rightarrow> ('i \<Rightarrow> 's \<Rightarrow> 's outcome option) \<Rightarrow> 's \<Rightarrow> 's outcome option" where
  "for_each [] body s = Some (Passed s)"
| "for_each (i # is) body s = passed (body i s) (for_each is body)"

lemma for_each_append: "for_each (xs @ ys) body s = passed (for_each xs body s) (for_each ys body)"
proof (induction xs arbitrary: s)
  case (Cons x xs)
  then show ?case by (simp add: passed_def split: option.split outcome.split bind_split)
qed simp

text \<open>
  The loops that compare the elements which an accessor \<open>get\<close> reads with an array: they pass if and
  only if the list \<open>xs\<close> behind the accessor starts with the first \<open>n\<close> elements of the array.
\<close>

definition compare_elements ::
    "nat \<Rightarrow> 'b list \<Rightarrow> (int \<Rightarrow> 'a outcome option) \<Rightarrow> ('a \<Rightarrow> 'b) \<Rightarrow> unit outcome option" where
  "compare_elements n expected get f =
    for_each [0..<n] (\<lambda>i _. passed (get (int i)) (\<lambda>x. do {
      y \<leftarrow> c_nth expected (int i);
      Some (assert_int_equal (f x) y)
    })) ()"

lemma compare_elements_decides:
  assumes "n \<le> length expected" and "\<And>i. i < n \<Longrightarrow> get (int i) = Some (if i < length xs then Passed (xs ! i) else Failed)"
  shows "compare_elements n expected get f = Some (if take n (map f xs) = take n expected then Passed () else Failed)"
  using assms
proof (induction n)
  case (Suc n)
  note IH = Suc.IH [OF Suc_leD [OF Suc.prems(1)] Suc.prems(2) [OF less_SucI], unfolded compare_elements_def]
  show ?case
  proof (cases "take n (map f xs) = take n expected")
    case True
    then have "length (take n (map f xs)) = n" using Suc.prems(1) by simp
    then have n: "n \<le> length xs" by simp
    show ?thesis
    proof (cases "n < length xs")
      case less: True
      then show ?thesis
        using IH True Suc.prems
        by (simp add: compare_elements_def for_each_append c_nth_of_nat assert_int_equal_def take_Suc_conv_app_nth)
    next
      case False
      then have "length (take (Suc n) (map f xs)) \<noteq> length (take (Suc n) expected)" using n Suc.prems(1) by simp
      then have "take (Suc n) (map f xs) \<noteq> take (Suc n) expected" by metis
      then show ?thesis using IH True False Suc.prems(2) [of n] by (simp add: compare_elements_def for_each_append)
    qed
  next
    case False
    then have "take (Suc n) (map f xs) \<noteq> take (Suc n) expected"
      by (metis lessI min.strict_order_iff min.commute take_take less_imp_le_nat min.absorb1)
    then show ?thesis using IH False by (simp add: compare_elements_def for_each_append)
  qed
qed (simp add: compare_elements_def)

section \<open>Sorting\<close>

text \<open>
  \<open>qsort\<close> with a comparator of the program: afterwards the array is in ascending order of the comparator. The order of
  elements that compare equal is unspecified; the arrays of the tests have none. A comparator is \<open>None\<close> where its
  arithmetic overflows.
\<close>

fun qsort_insert :: "('a \<Rightarrow> 'a \<Rightarrow> int option) \<Rightarrow> 'a \<Rightarrow> 'a list \<Rightarrow> 'a list option" where
  "qsort_insert cmp x [] = Some [x]"
| "qsort_insert cmp x (y # ys) = do {
     c \<leftarrow> cmp x y;
     if c \<le> 0 then Some (x # y # ys) else do { zs \<leftarrow> qsort_insert cmp x ys; Some (y # zs) } }"

fun qsort :: "('a \<Rightarrow> 'a \<Rightarrow> int option) \<Rightarrow> 'a list \<Rightarrow> 'a list option" where
  "qsort cmp [] = Some []"
| "qsort cmp (x # xs) = do { ys \<leftarrow> qsort cmp xs; qsort_insert cmp x ys }"

text \<open>With a comparator that decides an order of the keys \<open>f\<close>, the array is sorted by \<open>f\<close>.\<close>

lemma qsort_insert_key:
  assumes "\<forall>y\<in>set ys. \<exists>c. cmp x y = Some c \<and> (c \<le> 0 \<longleftrightarrow> f x \<le> (f y :: 'k::linorder))"
  shows "qsort_insert cmp x ys = Some (insort_key f x ys)"
  using assms by (induction ys) (fastforce split: bind_splits)+

lemma qsort_sort_key:
  assumes "\<forall>x\<in>set xs. \<forall>y\<in>set xs. \<exists>c. cmp x y = Some c \<and> (c \<le> 0 \<longleftrightarrow> f x \<le> (f y :: 'k::linorder))"
  shows "qsort cmp xs = Some (sort_key f xs)"
  using assms by (induction xs) (auto intro!: qsort_insert_key)

section \<open>Buffers\<close>

text \<open>The buffers of both array test programs have the same size.\<close>

definition ITEM_BUF_NUM :: nat where
  "ITEM_BUF_NUM = 4"

lemma item_buf_cases:
  assumes "length xs = ITEM_BUF_NUM"
  obtains a b c d where "xs = [a, b, c, d]"
  using assms by (auto simp: ITEM_BUF_NUM_def eval_nat_numeral length_Suc_conv)

end
