(* ===== verification/Array_Queue_Tests.thy ===== *)
theory Array_Queue_Tests
  imports Array_Queue Test_Outcome
begin

text \<open>
  The test program \<open>array_utils/test_array_queue.c\<close> of the ring-buffer queue: its three tests run
  on the operations of \<open>Array_Queue\<close>. The global queue and buffer are arguments, with arbitrary
  contents, and each test returns the queue it leaves.
\<close>

section \<open>The tests\<close>

type_synonym A_ITEM_QUEUE = "int array_queue_8"

definition item_queue_get_item_at :: "A_ITEM_QUEUE \<Rightarrow> int \<Rightarrow> int outcome option" where
  "item_queue_get_item_at queue index =
    passed (Some (assert_in_range index 0 (uint (aq_len queue) - 1))) (\<lambda>_. do {
      s \<leftarrow> c_int (uint (aq_front queue) + index);
      if aq_size queue = 0 then None
      else do {
        x \<leftarrow> c_nth (aq_item queue) (s smod uint (aq_size queue));
        Some (Passed x)
      }
    })"

text \<open>The loop that compares the queue with an array of the expected elements.\<close>

definition compare_items :: "nat \<Rightarrow> int list \<Rightarrow> A_ITEM_QUEUE \<Rightarrow> unit outcome option" where
  "compare_items n expected q = compare_elements n expected (item_queue_get_item_at q) (\<lambda>x. x)"

definition enqueue_checked :: "nat \<Rightarrow> A_ITEM_QUEUE \<Rightarrow> A_ITEM_QUEUE outcome option" where
  "enqueue_checked i q =
    passed (Some (assert_false (ARRAY_QUEUE_IS_FULL q))) (\<lambda>_. do {
      (ret, q) \<leftarrow> ARRAY_QUEUE_ENQUEUE_RET q (int i + 1);
      passed (Some (assert_true ret)) (\<lambda>_. Some (Passed q))
    })"

text \<open>\<open>item\<close> is the indeterminate value of the local variable of that name.\<close>

definition dequeue_checked :: "int \<Rightarrow> int list \<Rightarrow> nat \<Rightarrow> A_ITEM_QUEUE \<Rightarrow> A_ITEM_QUEUE outcome option" where
  "dequeue_checked item test_data i q =
    passed (Some (assert_false (ARRAY_QUEUE_IS_EMPTY q))) (\<lambda>_. do {
      (ret, x, q) \<leftarrow> ARRAY_QUEUE_DEQUEUE_RET q item;
      passed (Some (assert_true ret)) (\<lambda>_. do {
        y \<leftarrow> c_nth test_data (int i);
        passed (Some (assert_int_equal x y)) (\<lambda>_. Some (Passed q))
      })
    })"

definition test_array_queue :: "int \<Rightarrow> A_ITEM_QUEUE \<Rightarrow> int list \<Rightarrow> A_ITEM_QUEUE outcome option" where
  "test_array_queue item q item_buf =
    (let q = ARRAY_QUEUE_INIT q item_buf ITEM_BUF_NUM; test_data = [1, 2, 3, 4] in
     passed (for_each [0..<ITEM_BUF_NUM] enqueue_checked q) (\<lambda>q.
     passed (compare_items ITEM_BUF_NUM test_data q) (\<lambda>_.
     passed (Some (assert_true (ARRAY_QUEUE_IS_FULL q))) (\<lambda>_. do {
       (ret, q) \<leftarrow> ARRAY_QUEUE_ENQUEUE_RET q (int ITEM_BUF_NUM + 1);
       passed (Some (assert_false ret)) (\<lambda>_.
       passed (for_each [0..<ITEM_BUF_NUM div 2] (dequeue_checked item test_data) q) (\<lambda>q.
       passed (Some (assert_int_equal (uint (aq_front q)) (int ITEM_BUF_NUM div 2))) (\<lambda>_.
       passed (for_each [ITEM_BUF_NUM div 2..<ITEM_BUF_NUM] (dequeue_checked item test_data) q) (\<lambda>q.
       passed (Some (assert_true (ARRAY_QUEUE_IS_EMPTY q))) (\<lambda>_. do {
         (ret, _, q) \<leftarrow> ARRAY_QUEUE_DEQUEUE_RET q item;
         passed (Some (assert_false ret)) (\<lambda>_. Some (Passed q))
       })))))
     }))))"

text \<open>The loop of the iterator test; \<open>i\<close> counts the elements visited.\<close>

partial_function (option) iterate_compare :: "A_ITEM_QUEUE \<Rightarrow> int \<Rightarrow> aq_iter \<Rightarrow> int outcome option" where
  "iterate_compare q i iter =
    (if iter = ARRAY_QUEUE_ITER_END then Some (Passed i)
     else do {
       p \<leftarrow> iter;
       x \<leftarrow> c_nth (aq_item q) (int p);
       passed (item_queue_get_item_at q i) (\<lambda>y.
       passed (Some (assert_int_equal x y)) (\<lambda>_. do {
         i \<leftarrow> c_int (i + 1);
         iter \<leftarrow> ARRAY_QUEUE_ITER_NEXT q iter;
         iterate_compare q i iter
       }))
     })"

definition enqueue_plain :: "nat \<Rightarrow> A_ITEM_QUEUE \<Rightarrow> A_ITEM_QUEUE outcome option" where
  "enqueue_plain i q = map_option Passed (ARRAY_QUEUE_ENQUEUE q (int i + 1))"

definition iterate_count :: "nat \<Rightarrow> A_ITEM_QUEUE \<Rightarrow> unit outcome option" where
  "iterate_count n q =
    passed (iterate_compare q 0 (ARRAY_QUEUE_ITER q)) (\<lambda>i. Some (assert_int_equal i (int n)))"

definition test_array_queue_iterator :: "A_ITEM_QUEUE \<Rightarrow> int list \<Rightarrow> A_ITEM_QUEUE outcome option" where
  "test_array_queue_iterator q item_buf =
    (let q = ARRAY_QUEUE_INIT q item_buf ITEM_BUF_NUM in
     passed (Some (if ARRAY_QUEUE_ITER q \<noteq> ARRAY_QUEUE_ITER_END then assert_true False else Passed ())) (\<lambda>_.
     passed (for_each [0..<ITEM_BUF_NUM div 2] enqueue_plain q) (\<lambda>q.
     passed (Some (assert_false (ARRAY_QUEUE_IS_FULL q))) (\<lambda>_.
     passed (iterate_count (ITEM_BUF_NUM div 2) q) (\<lambda>_.
     passed (for_each [ITEM_BUF_NUM div 2..<ITEM_BUF_NUM] enqueue_plain q) (\<lambda>q.
     passed (Some (assert_true (ARRAY_QUEUE_IS_FULL q))) (\<lambda>_.
     passed (iterate_count ITEM_BUF_NUM q) (\<lambda>_. Some (Passed q)))))))))"

text \<open>
  \<open>TEST_DATA\<close>: the members \<open>n_data\<close> and \<open>data\<close> of the steps of a case, and \<open>n_step\<close>. The arrays are
  filled up with zeros.
\<close>

record TEST_DATA_STEP =
  n_data :: int
  data :: "int list"

record TEST_DATA =
  n_step :: int
  step :: "TEST_DATA_STEP list"

definition no_step :: TEST_DATA_STEP where
  "no_step = \<lparr>n_data = 0, data = [0, 0, 0, 0]\<rparr>"

definition remove_test_data :: "TEST_DATA list" where
  "remove_test_data =
    [\<lparr>n_step = 4, step =
       [\<lparr>n_data = 3, data = [2, 3, 4, 0]\<rparr>, \<lparr>n_data = 2, data = [3, 4, 0, 0]\<rparr>,
        \<lparr>n_data = 1, data = [4, 0, 0, 0]\<rparr>, \<lparr>n_data = 0, data = [0, 0, 0, 0]\<rparr>]\<rparr>,
     \<lparr>n_step = 3, step =
       [\<lparr>n_data = 3, data = [1, 3, 4, 0]\<rparr>, \<lparr>n_data = 2, data = [1, 4, 0, 0]\<rparr>,
        \<lparr>n_data = 1, data = [1, 0, 0, 0]\<rparr>, no_step]\<rparr>,
     \<lparr>n_step = 2, step =
       [\<lparr>n_data = 3, data = [1, 2, 4, 0]\<rparr>, \<lparr>n_data = 2, data = [1, 2, 0, 0]\<rparr>, no_step, no_step]\<rparr>,
     \<lparr>n_step = 1, step = [\<lparr>n_data = 3, data = [1, 2, 3, 0]\<rparr>, no_step, no_step, no_step]\<rparr>]"

text \<open>The loop that removes the elements from the iterator on; \<open>n_steps\<close> counts the removals.\<close>

partial_function (option) remove_rest ::
    "TEST_DATA_STEP list \<Rightarrow> int \<Rightarrow> aq_iter \<Rightarrow> A_ITEM_QUEUE \<Rightarrow> (int \<times> A_ITEM_QUEUE) outcome option" where
  "remove_rest sts n_steps iter q =
    (if iter = ARRAY_QUEUE_ITER_END then Some (Passed (n_steps, q))
     else do {
       (iter, q) \<leftarrow> ARRAY_QUEUE_ITER_REMOVE q iter;
       st \<leftarrow> c_nth sts n_steps;
       passed (Some (assert_int_equal (uint (aq_len q)) (n_data st))) (\<lambda>_.
       passed (compare_items (nat (n_data st)) (data st) q) (\<lambda>_. do {
         n_steps \<leftarrow> c_int (n_steps + 1);
         remove_rest sts n_steps iter q
       }))
     })"

definition remove_case :: "int list \<Rightarrow> nat \<Rightarrow> A_ITEM_QUEUE \<Rightarrow> A_ITEM_QUEUE outcome option" where
  "remove_case item_buf case_i q =
    passed (for_each [0..<ITEM_BUF_NUM] enqueue_plain (ARRAY_QUEUE_INIT q item_buf ITEM_BUF_NUM)) (\<lambda>q.
    passed (for_each [0..<case_i] (\<lambda>_ iter. map_option Passed (ARRAY_QUEUE_ITER_NEXT q iter)) (ARRAY_QUEUE_ITER q)) (\<lambda>iter. do {
      td \<leftarrow> c_nth remove_test_data (int case_i);
      passed (remove_rest (step td) 0 iter q) (\<lambda>(n_steps, q).
      passed (Some (assert_int_equal n_steps (n_step td))) (\<lambda>_. Some (Passed q)))
    }))"

text \<open>Each case starts on the buffer that the case before left in the queue.\<close>

definition test_array_queue_iterator_remove :: "A_ITEM_QUEUE \<Rightarrow> int list \<Rightarrow> A_ITEM_QUEUE outcome option" where
  "test_array_queue_iterator_remove q item_buf =
    for_each [0..<ITEM_BUF_NUM] (\<lambda>case_i q. remove_case (aq_item q) case_i q) (q\<lparr>aq_item := item_buf\<rparr>)"

section \<open>What the tests observe\<close>

text \<open>The accessor of the tests reads the list of queued elements.\<close>

lemma uint_len_byte: "uint (aq_len (q :: A_ITEM_QUEUE)) < 256"
  using unsigned_less [of "aq_len q", where 'a = int] by simp

lemma item_queue_get_item_at_list:
  assumes inv: "aq_inv q" and i: "i < length (aq_list q)"
  shows "item_queue_get_item_at q (int i) = Some (Passed (aq_list q ! i))"
proof -
  have siz: "aq_size q \<noteq> 0" by (rule aq_queued_size [OF inv i])
  have "unat (aq_len q) < 2 ^ LENGTH(8)" "unat (aq_front q) < 2 ^ LENGTH(8)" by (rule unsigned_less)+
  then have len: "unat (aq_len q) < 256" "unat (aq_front q) < 256" by simp_all
  have front: "uint (aq_front q) + int i = int (unat (aq_front q) + i)" by simp
  have small: "c_int (int n) = Some (int n)" if "n < 512" for n
    using that by (simp add: c_int_def INT_MIN_def INT_MAX_def)
  have smod: "int m smod int n = int (m mod n)" for m n
    by (simp add: signed_modulo_int_def zmod_int sgn_if)
  have "(uint (aq_front q) + int i) smod int (unat (aq_size q)) = int (aq_pos q i)"
    unfolding front aq_pos_def by (rule smod)
  then have "(uint (aq_front q) + int i) smod uint (aq_size q) = int (aq_pos q i)" by simp
  moreover have "c_int (uint (aq_front q) + int i) = Some (uint (aq_front q) + int i)"
    unfolding front by (rule small) (use len i in \<open>simp only: length_aq_list\<close>)
  moreover have "assert_in_range (int i) 0 (uint (aq_len q) - 1) = Passed ()"
    using i uint_len_byte [of q] by (intro assert_in_range_below) (simp_all flip: of_nat_less_iff [where 'a = int])
  ultimately show ?thesis
    using i siz aq_pos_less(2) [OF inv siz, of i]
    by (simp add: item_queue_get_item_at_def c_nth_of_nat)
qed

text \<open>Beyond the last element, the check of the index fails.\<close>

lemma item_queue_get_item_at_decides:
  assumes inv: "aq_inv q" and ne: "aq_list q \<noteq> []" and i: "int i \<le> INT_MAX"
  shows "item_queue_get_item_at q (int i) = Some (if i < length (aq_list q) then Passed (aq_list q ! i) else Failed)"
proof (cases "i < length (aq_list q)")
  case True
  then show ?thesis by (simp only: item_queue_get_item_at_list [OF inv True] if_True)
next
  case False
  have "0 < length (aq_list q)" using ne by blast
  then have "0 < uint (aq_len q)" by (simp flip: of_nat_less_iff [where 'a = int])
  moreover have "uint (aq_len q) \<le> int i" using False by (simp flip: of_nat_le_iff [where 'a = int] add: not_less)
  ultimately have "assert_in_range (int i) 0 (uint (aq_len q) - 1) = Failed"
    using i by (intro assert_in_range_above) (simp_all add: INT_MAX_def)
  with False show ?thesis by (simp add: item_queue_get_item_at_def)
qed

lemma compare_items_decides:
  assumes "aq_inv q" and "n = 0 \<or> aq_list q \<noteq> []" and "n \<le> length expected" and "int n \<le> INT_MAX"
  shows "compare_items n expected q = Some (if take n (aq_list q) = take n expected then Passed () else Failed)"
  unfolding compare_items_def
  using compare_elements_decides [OF assms(3), of "item_queue_get_item_at q" "aq_list q" "\<lambda>x. x"] assms(2,4)
    item_queue_get_item_at_decides [OF assms(1)] by (cases "n = 0") simp_all

text \<open>The loop of the iterator test never fails; it counts the elements.\<close>

lemma iterate_compare_from:
  assumes inv: "aq_inv q"
  shows "i < length (aq_list q) \<Longrightarrow>
    iterate_compare q (int i) (Some (aq_pos q i)) = Some (Passed (int (length (aq_list q))))"
proof (induction "length (aq_list q) - i" arbitrary: i)
  case (Suc n)
  have siz: "aq_size q \<noteq> 0" by (rule aq_queued_size [OF inv Suc.prems])
  have "unat (aq_len q) < 2 ^ LENGTH(8)" by (rule unsigned_less)
  then have inc: "c_int (int i + 1) = Some (int (Suc i))"
    using Suc.prems by (simp add: c_int_def INT_MIN_def INT_MAX_def)
  have rest: "iterate_compare q (int (Suc i)) (if Suc i = length (aq_list q) then None else Some (aq_pos q (Suc i))) =
      Some (Passed (int (length (aq_list q))))"
    using Suc.hyps(1) [of "Suc i"] Suc.hyps(2) Suc.prems
    by (simp add: iterate_compare.simps [of q _ None] ARRAY_QUEUE_ITER_END_def del: length_aq_list of_nat_Suc)
  show ?case
    using Suc.prems aq_iter_next [OF inv Suc.prems] rest inc item_queue_get_item_at_list [OF inv Suc.prems]
      aq_pos_less(2) [OF inv siz, of i]
    by (subst iterate_compare.simps) (simp add: c_nth_of_nat assert_int_equal_def ARRAY_QUEUE_ITER_END_def)
qed simp

lemma iterate_count_decides:
  assumes "aq_inv q"
  shows "iterate_count n q = Some (if length (aq_list q) = n then Passed () else Failed)"
proof (cases "aq_list q = []")
  case True
  then have "ARRAY_QUEUE_ITER q = None"
    by (simp add: ARRAY_QUEUE_ITER_def aq_empty_iff ARRAY_QUEUE_ITER_END_def)
  moreover have "unat (aq_len q) = 0" using True by (metis length_aq_list list.size(3))
  ultimately show ?thesis
    by (simp add: iterate_count_def iterate_compare.simps [of q _ None] ARRAY_QUEUE_ITER_END_def assert_int_equal_def)
next
  case False
  then have "ARRAY_QUEUE_ITER q = Some (aq_pos q 0)" using aq_iter_start [OF assms] by simp
  with iterate_compare_from [OF assms, of 0] False show ?thesis
    by (simp add: iterate_count_def assert_int_equal_def del: length_aq_list)
qed

lemmas aq_eval = ARRAY_QUEUE_INIT_def ARRAY_QUEUE_IS_EMPTY_def ARRAY_QUEUE_IS_FULL_def
  ARRAY_QUEUE_ENQUEUE_RET_def ARRAY_QUEUE_DEQUEUE_RET_def ARRAY_QUEUE_ENQUEUE_def
  ARRAY_QUEUE_ENQUEUE_IMPL_def ARRAY_QUEUE_DEQUEUE_IMPL_def c_inc_mod_def c_inc_def
  ARRAY_QUEUE_ITER_END_def ARRAY_QUEUE_ITER_def ARRAY_QUEUE_ITER_NEXT_def ARRAY_QUEUE_ITER_REMOVE_def
  c_nth_def c_upd_def c_int_def INT_MIN_def INT_MAX_def signed_modulo_int_def
  ITEM_BUF_NUM_def upt_rec assert_defs to_largest_unsigned_def compare_elements_def compare_items_def item_queue_get_item_at_def

lemma test_array_queue_passes: "\<exists>q'. test_array_queue item q [a, b, c, d] = Some (Passed q')"
  by (simp add: test_array_queue_def enqueue_checked_def dequeue_checked_def aq_eval)

lemma test_array_queue_iterator_passes: "\<exists>q'. test_array_queue_iterator q [a, b, c, d] = Some (Passed q')"
  by (simp add: test_array_queue_iterator_def enqueue_plain_def iterate_count_def iterate_compare.simps aq_eval)

lemma remove_case_passes:
  assumes "case_i < ITEM_BUF_NUM"
  shows "\<exists>q' a b c d. remove_case [a0, b0, c0, d0] case_i q = Some (Passed q') \<and> aq_item q' = [a, b, c, d]"
proof -
  consider "case_i = 0" | "case_i = 1" | "case_i = 2" | "case_i = 3"
    using assms unfolding ITEM_BUF_NUM_def by linarith
  then show ?thesis
    by cases (simp_all add: remove_case_def remove_test_data_def no_step_def enqueue_plain_def
        remove_rest.simps aq_remove_loop.simps aq_eval)
qed

lemma remove_cases_pass:
  assumes "set is \<subseteq> {0..<ITEM_BUF_NUM}" and "length (aq_item q) = ITEM_BUF_NUM"
  shows "\<exists>q'. for_each is (\<lambda>case_i q. remove_case (aq_item q) case_i q) q = Some (Passed q')"
  using assms
proof (induction "is" arbitrary: q)
  case (Cons i "is")
  obtain a0 b0 c0 d0 where "aq_item q = [a0, b0, c0, d0]" by (rule item_buf_cases [OF Cons.prems(2)])
  then obtain q' where q': "remove_case (aq_item q) i q = Some (Passed q')" "length (aq_item q') = ITEM_BUF_NUM"
    using remove_case_passes [of i a0 b0 c0 d0 q] Cons.prems(1) by (auto simp: ITEM_BUF_NUM_def)
  then show ?case using Cons.IH [OF _ q'(2)] Cons.prems(1) by simp
qed simp

section \<open>Properties\<close>

text \<open>
  The test program of the queue passes. From every state of the global queue and every
  contents of the buffer, the three tests \<open>test_array_queue\<close>, \<open>test_array_queue_iterator\<close> and
  \<open>test_array_queue_iterator_remove\<close> run to the end without undefined behaviour and none of their
  assertions fails.
\<close>

theorem array_queue_tests_pass:
  assumes "length item_buf = ITEM_BUF_NUM"
  shows "(\<exists>q'. test_array_queue item q item_buf = Some (Passed q')) \<and>
    (\<exists>q'. test_array_queue_iterator q item_buf = Some (Passed q')) \<and>
    (\<exists>q'. test_array_queue_iterator_remove q item_buf = Some (Passed q'))"
  using assms
proof (cases rule: item_buf_cases)
  case (1 a b c d)
  then show ?thesis
    using test_array_queue_passes test_array_queue_iterator_passes
      remove_cases_pass [of "[0..<ITEM_BUF_NUM]" "q\<lparr>aq_item := item_buf\<rparr>"] assms
    by (simp add: test_array_queue_iterator_remove_def atLeast_upt)
qed

theorem array_queue_tests_pass_witness:
  "\<exists>q'. test_array_queue_iterator_remove undefined [9, 8, 7, 6] = Some (Passed q')"
  using array_queue_tests_pass [of "[9, 8, 7, 6]"] by (simp add: ITEM_BUF_NUM_def)

end
