(* ===== verification/Key_Order.thy ===== *)
theory Key_Order
  imports Embed_Prelude
begin

text \<open>
  The contract of the comparators that a client passes to the generator macros. The macros
  only look at the sign of the result. \<open>K\<close> is the set of keys for which the comparator
  keeps the contract; for one that subtracts two \<open>int\<close>s it is a range in which the
  difference cannot overflow.
\<close>

section \<open>Comparators between a stored value and a key\<close>

locale key_order =
  fixes key_cmp :: "'a \<Rightarrow> 'k::linorder \<Rightarrow> int"
    and key_of :: "'a \<Rightarrow> 'k"
    and K :: "'k set"
  assumes cmp_neg: "key_of x \<in> K \<Longrightarrow> k \<in> K \<Longrightarrow> key_cmp x k < 0 \<longleftrightarrow> key_of x < k"
    and cmp_pos: "key_of x \<in> K \<Longrightarrow> k \<in> K \<Longrightarrow> 0 < key_cmp x k \<longleftrightarrow> k < key_of x"

section \<open>The comparators of the unit tests\<close>

text \<open>
  \<open>A_ITEM\<close> of \<open>array_utils/test_array_map.c\<close>. Its comparators subtract two \<open>int\<close>s. C leaves
  a difference that overflows undefined; here it is taken modulo \<open>2 ^ 32\<close>, as machines do, but no
  theorem depends on that: the theorems about clients with these comparators are for
  \<open>safe_keys\<close>, among which no difference overflows. The comparators of \<open>rbtree/test_rbtree.c\<close> are modelled in the same way.
\<close>

record A_ITEM =
  key :: int
  val :: int

definition c_sub_wrap :: "int \<Rightarrow> int \<Rightarrow> int" where
  "c_sub_wrap a b = sint (word_of_int (a - b) :: 32 word)"

definition A_ITEM_MAP_KEY_CMP :: "A_ITEM \<Rightarrow> int \<Rightarrow> int" where
  "A_ITEM_MAP_KEY_CMP item k = c_sub_wrap (key item) k"

text \<open>Keys of the two middle quarters of \<open>int\<close> never make the difference overflow.\<close>

definition safe_keys :: "int set" where
  "safe_keys = {- (2 ^ 30) ..< 2 ^ 30}"

lemma c_sub_wrap_exact:
  assumes "- (2 ^ 31) \<le> a - b" and "a - b < 2 ^ 31"
  shows "c_sub_wrap a b = a - b"
  using assms unfolding c_sub_wrap_def
  by (subst sint_sbintrunc') (simp add: signed_take_bit_int_eq_self)

interpretation item_order: key_order A_ITEM_MAP_KEY_CMP key safe_keys
  by unfold_locales (simp_all add: A_ITEM_MAP_KEY_CMP_def safe_keys_def c_sub_wrap_exact)

end
