(* ===== verification/Bounded_Map.thy ===== *)
theory Bounded_Map
  imports Embed_Prelude
begin

text \<open>
  The interface of a bounded associative container with unique keys, as documented for the
  array map: insertion fails on a duplicate key or when the container is full, removal of an
  absent key changes nothing, lookup writes its out parameter only when it finds the key, clearing
  makes every key absent.
  A client's program is a sequence of operations; it observes their results.
\<close>

section \<open>Specification\<close>

datatype ('k, 'v) mop = Ins 'k 'v | Rem 'k | Find 'k | Clr

datatype 'v mout = InsRet bool | RemRet | FindRet bool 'v | ClrRet

fun map_step :: "nat \<Rightarrow> 'v \<Rightarrow> ('k \<rightharpoonup> 'v) \<Rightarrow> ('k, 'v) mop \<Rightarrow> 'v mout \<times> ('k \<rightharpoonup> 'v)" where
  "map_step cap d f (Ins k v) =
     (if f k = None \<and> card (dom f) < cap then (InsRet True, f(k \<mapsto> v)) else (InsRet False, f))"
| "map_step cap d f (Rem k) = (RemRet, f(k := None))"
| "map_step cap d f (Find k) =
     (case f k of None \<Rightarrow> (FindRet False d, f) | Some v \<Rightarrow> (FindRet True v, f))"
| "map_step cap d f Clr = (ClrRet, Map.empty)"

fun map_run :: "nat \<Rightarrow> 'v \<Rightarrow> ('k \<rightharpoonup> 'v) \<Rightarrow> ('k, 'v) mop list \<Rightarrow> 'v mout list \<times> ('k \<rightharpoonup> 'v)" where
  "map_run cap d f [] = ([], f)"
| "map_run cap d f (a # as) =
     (let (out, f') = map_step cap d f a; (outs, f'') = map_run cap d f' as in (out # outs, f''))"

text \<open>The operations that the contract of the comparator covers.\<close>

fun mop_ok :: "('k \<Rightarrow> bool) \<Rightarrow> ('k \<Rightarrow> 'v \<Rightarrow> bool) \<Rightarrow> ('k, 'v) mop \<Rightarrow> bool" where
  "mop_ok okk okv (Ins k v) = (okk k \<and> okv k v)"
| "mop_ok okk okv (Rem k) = okk k"
| "mop_ok okk okv (Find k) = okk k"
| "mop_ok okk okv Clr = True"

fun impl_step :: "('m \<Rightarrow> 'k \<Rightarrow> 'v \<Rightarrow> (bool \<times> 'm) option) \<Rightarrow> ('m \<Rightarrow> 'k \<Rightarrow> 'm option) \<Rightarrow>
    ('m \<Rightarrow> 'k \<Rightarrow> 'v \<Rightarrow> (bool \<times> 'v) option) \<Rightarrow> ('m \<Rightarrow> 'm) \<Rightarrow> 'v \<Rightarrow> 'm \<Rightarrow> ('k, 'v) mop \<Rightarrow> ('v mout \<times> 'm) option" where
  "impl_step ins rem fnd clr d m (Ins k v) = do { (r, m) \<leftarrow> ins m k v; Some (InsRet r, m) }"
| "impl_step ins rem fnd clr d m (Rem k) = do { m \<leftarrow> rem m k; Some (RemRet, m) }"
| "impl_step ins rem fnd clr d m (Find k) = do { (r, v) \<leftarrow> fnd m k d; Some (FindRet r v, m) }"
| "impl_step ins rem fnd clr d m Clr = Some (ClrRet, clr m)"

fun impl_run :: "('m \<Rightarrow> 'k \<Rightarrow> 'v \<Rightarrow> (bool \<times> 'm) option) \<Rightarrow> ('m \<Rightarrow> 'k \<Rightarrow> 'm option) \<Rightarrow>
    ('m \<Rightarrow> 'k \<Rightarrow> 'v \<Rightarrow> (bool \<times> 'v) option) \<Rightarrow> ('m \<Rightarrow> 'm) \<Rightarrow> 'v \<Rightarrow> 'm \<Rightarrow> ('k, 'v) mop list \<Rightarrow>
    ('v mout list \<times> 'm) option" where
  "impl_run ins rem fnd clr d m [] = Some ([], m)"
| "impl_run ins rem fnd clr d m (a # as) = do {
     (out, m) \<leftarrow> impl_step ins rem fnd clr d m a;
     (outs, m) \<leftarrow> impl_run ins rem fnd clr d m as;
     Some (out # outs, m)
   }"

section \<open>Interface\<close>

locale bounded_map =
  fixes ins :: "'m \<Rightarrow> 'k \<Rightarrow> 'v \<Rightarrow> (bool \<times> 'm) option"
    and rem :: "'m \<Rightarrow> 'k \<Rightarrow> 'm option"
    and fnd :: "'m \<Rightarrow> 'k \<Rightarrow> 'v \<Rightarrow> (bool \<times> 'v) option"
    and clr :: "'m \<Rightarrow> 'm"
    and lookup :: "'m \<Rightarrow> 'k \<Rightarrow> 'v option"
    and capacity :: "'m \<Rightarrow> nat"
    and inv :: "'m \<Rightarrow> bool"
    and okk :: "'k \<Rightarrow> bool"
    and okv :: "'k \<Rightarrow> 'v \<Rightarrow> bool"
  assumes card_bounded: "inv m \<Longrightarrow> card (dom (lookup m)) \<le> capacity m"
    and ins_duplicate: "inv m \<Longrightarrow> okk k \<Longrightarrow> lookup m k \<noteq> None \<Longrightarrow> ins m k v = Some (False, m)"
    and ins_full: "inv m \<Longrightarrow> okk k \<Longrightarrow> lookup m k = None \<Longrightarrow> card (dom (lookup m)) = capacity m \<Longrightarrow>
      ins m k v = Some (False, m)"
    and ins_new: "inv m \<Longrightarrow> okk k \<Longrightarrow> okv k v \<Longrightarrow> lookup m k = None \<Longrightarrow>
      card (dom (lookup m)) < capacity m \<Longrightarrow>
      \<exists>m'. ins m k v = Some (True, m') \<and> inv m' \<and> lookup m' = (lookup m)(k \<mapsto> v) \<and>
           capacity m' = capacity m"
    and rem_any: "inv m \<Longrightarrow> okk k \<Longrightarrow>
      \<exists>m'. rem m k = Some m' \<and> inv m' \<and> lookup m' = (lookup m)(k := None) \<and> capacity m' = capacity m"
    and fnd_lookup: "inv m \<Longrightarrow> okk k \<Longrightarrow>
      fnd m k d = Some (case lookup m k of None \<Rightarrow> (False, d) | Some v \<Rightarrow> (True, v))"
    and clr_any: "inv m \<Longrightarrow> inv (clr m) \<and> lookup (clr m) = Map.empty \<and> capacity (clr m) = capacity m"
begin

lemma step_refines:
  assumes inv: "inv m" and ok: "mop_ok okk okv a"
  shows "\<exists>m'. impl_step ins rem fnd clr d m a = Some (fst (map_step (capacity m) d (lookup m) a), m') \<and>
           inv m' \<and> lookup m' = snd (map_step (capacity m) d (lookup m) a) \<and> capacity m' = capacity m"
proof (cases a)
  case (Ins k v)
  with ok have k: "okk k" "okv k v" by simp_all
  consider (dup) "lookup m k \<noteq> None"
    | (full) "lookup m k = None" "card (dom (lookup m)) = capacity m"
    | (new) "lookup m k = None" "card (dom (lookup m)) < capacity m"
    using card_bounded [OF inv] by linarith
  then show ?thesis
  proof cases
    case dup
    then show ?thesis using ins_duplicate [OF inv k(1) dup] inv Ins by auto
  next
    case full
    then show ?thesis using ins_full [OF inv k(1) full] inv Ins by simp
  next
    case new
    then show ?thesis using ins_new [OF inv k new] Ins by auto
  qed
next
  case (Rem k)
  then show ?thesis using rem_any [OF inv, of k] ok by auto
next
  case (Find k)
  then show ?thesis using fnd_lookup [OF inv, of k d] inv ok by (auto split: option.splits)
next
  case Clr
  then show ?thesis using clr_any [OF inv] by simp
qed

lemma run_refines:
  "inv m \<Longrightarrow> list_all (mop_ok okk okv) as \<Longrightarrow>
   \<exists>m'. impl_run ins rem fnd clr d m as = Some (fst (map_run (capacity m) d (lookup m) as), m') \<and>
     inv m' \<and> lookup m' = snd (map_run (capacity m) d (lookup m) as)"
proof (induction as arbitrary: m)
  case Nil
  then show ?case by simp
next
  case (Cons a as)
  then obtain m1 where m1: "impl_step ins rem fnd clr d m a =
      Some (fst (map_step (capacity m) d (lookup m) a), m1)" "inv m1"
      "lookup m1 = snd (map_step (capacity m) d (lookup m) a)" "capacity m1 = capacity m"
    using step_refines [of m a d] by auto
  then obtain m2 where "impl_run ins rem fnd clr d m1 as =
      Some (fst (map_run (capacity m1) d (lookup m1) as), m2)" "inv m2"
      "lookup m2 = snd (map_run (capacity m1) d (lookup m1) as)"
    using Cons.IH [OF m1(2)] Cons.prems(2) by auto
  with m1 show ?case by (simp add: case_prod_beta)
qed

text \<open>What was inserted is found, until its key is removed.\<close>

lemma find_after_insert:
  assumes "inv m" and "okk k" and "okv k v" and "lookup m k = None"
    and "card (dom (lookup m)) < capacity m"
  shows "\<exists>m'. ins m k v = Some (True, m') \<and> fnd m' k d = Some (True, v) \<and>
    (\<forall>k'. okk k' \<longrightarrow> k' \<noteq> k \<longrightarrow> fnd m' k' d = fnd m k' d)"
  using ins_new [OF assms] assms(1,2) by (fastforce simp: fnd_lookup)

end

end
