(* ===== verification/Array_Map.thy ===== *)
theory Array_Map
  imports Key_Order Bounded_Map
begin

text \<open>
  The sorted array map of \<open>array_utils/array_map.h\<close>: the record of \<open>ARRAY_MAP_TYPE\<close>,
  binary search, insertion, removal and lookup.
\<close>

section \<open>Loops shared by the two array maps\<close>

text \<open>
  The \<open>while\<close> loop of the generated binary search. \<open>cmp x\<close> is \<open>key_cmp(x, key)\<close>.
  The variables are C \<open>int\<close>s: the sum \<open>low + high\<close> is undefined behaviour when it
  overflows, and \<open>/\<close> truncates.
\<close>

function bsearch_loop :: "('a \<Rightarrow> int) \<Rightarrow> 'a list \<Rightarrow> int \<Rightarrow> int \<Rightarrow> (bool \<times> int) option" where
  "bsearch_loop cmp items low high =
     (if low \<le> high then do {
        s \<leftarrow> c_int (low + high);
        let med = s sdiv 2;
        x \<leftarrow> c_nth items med;
        let c = cmp x;
        (if c < 0 then do { low \<leftarrow> c_int (med + 1); bsearch_loop cmp items low high }
         else if 0 < c then do { high \<leftarrow> c_int (med - 1); bsearch_loop cmp items low high }
         else Some (True, med))
      }
      else Some (False, low))"
  by pat_completeness auto
termination
  by (relation "measure (\<lambda>(cmp, items, low, high). nat (high - low + 1))")
     (use midpoint in \<open>fastforce simp: c_int_eq_Some_iff\<close>)+

declare bsearch_loop.simps [simp del]

text \<open>\<open>for (i = len; i > index; --i) item[i] = item[i - 1];\<close> with an \<open>int\<close> counter.\<close>

function shift_up :: "'a list \<Rightarrow> int \<Rightarrow> int \<Rightarrow> 'a list option" where
  "shift_up items i index =
     (if index < i then do {
        x \<leftarrow> c_nth items (i - 1);
        items \<leftarrow> c_upd items i x;
        shift_up items (i - 1) index
      }
      else Some items)"
  by pat_completeness auto
termination
  by (relation "measure (\<lambda>(items, i, index). nat (i - index))") auto

declare shift_up.simps [simp del]

text \<open>\<open>for (i = index; i < len - 1; ++i) item[i] = item[i + 1];\<close> with a \<open>uint32_t\<close> counter.\<close>

function shift_down :: "'a list \<Rightarrow> 32 word \<Rightarrow> 32 word \<Rightarrow> 'a list option" where
  "shift_down items i end_i =
     (if i < end_i then do {
        x \<leftarrow> c_nth items (uint (i + 1));
        items \<leftarrow> c_upd items (uint i) x;
        shift_down items (i + 1) end_i
      }
      else Some items)"
  by pat_completeness auto
termination
  by (relation "measure (\<lambda>(items, i, end_i). unat end_i - unat i)")
     (auto simp: word_less_nat_alt unat_succ)

declare shift_down.simps [simp del]

section \<open>State and operations\<close>

record 'a array_map =
  am_item :: "'a list"
  am_size :: "32 word"
  am_len :: "32 word"

definition ARRAY_MAP_INIT :: "'a array_map \<Rightarrow> 'a list \<Rightarrow> 32 word \<Rightarrow> 'a array_map" where
  "ARRAY_MAP_INIT m buf siz = m\<lparr>am_item := buf, am_size := siz, am_len := 0\<rparr>"

definition ARRAY_MAP_CLEAR :: "'a array_map \<Rightarrow> 'a array_map" where
  "ARRAY_MAP_CLEAR m = m\<lparr>am_len := 0\<rparr>"

text \<open>\<open>int high = map->am_len - 1\<close>: the difference wraps in \<open>uint32_t\<close>, then converts to \<open>int\<close>.\<close>

definition array_map_bsearch :: "('a \<Rightarrow> 'k \<Rightarrow> int) \<Rightarrow> 'a array_map \<Rightarrow> 'k \<Rightarrow> (bool \<times> int) option" where
  "array_map_bsearch key_cmp m k =
     bsearch_loop (\<lambda>x. key_cmp x k) (am_item m) 0 (sint (am_len m - 1))"

definition array_map_insert ::
    "('a \<Rightarrow> 'k \<Rightarrow> int) \<Rightarrow> 'a array_map \<Rightarrow> 'k \<Rightarrow> 'a \<Rightarrow> (bool \<times> 'a array_map) option" where
  "array_map_insert key_cmp m k value = do {
     (found, index) \<leftarrow> array_map_bsearch key_cmp m k;
     if \<not> found then
       if am_size m \<le> am_len m then Some (False, m)
       else do {
         items \<leftarrow> shift_up (am_item m) (sint (am_len m)) index;
         items \<leftarrow> c_upd items index value;
         Some (True, m\<lparr>am_item := items, am_len := am_len m + 1\<rparr>)
       }
     else Some (False, m)
   }"

definition array_map_remove ::
    "('a \<Rightarrow> 'k \<Rightarrow> int) \<Rightarrow> 'a array_map \<Rightarrow> 'k \<Rightarrow> 'a array_map option" where
  "array_map_remove key_cmp m k = do {
     (found, index) \<leftarrow> array_map_bsearch key_cmp m k;
     if found then do {
       items \<leftarrow> shift_down (am_item m) (word_of_int index) (am_len m - 1);
       Some (m\<lparr>am_item := items, am_len := am_len m - 1\<rparr>)
     }
     else Some m
   }"

text \<open>\<open>value\<close> is the object that the out parameter designates before the call.\<close>

definition array_map_find ::
    "('a \<Rightarrow> 'k \<Rightarrow> int) \<Rightarrow> 'a array_map \<Rightarrow> 'k \<Rightarrow> 'a \<Rightarrow> (bool \<times> 'a) option" where
  "array_map_find key_cmp m k value = do {
     (found, index) \<leftarrow> array_map_bsearch key_cmp m k;
     if found then do { x \<leftarrow> c_nth (am_item m) index; Some (True, x) }
     else Some (False, value)
   }"

section \<open>Binary search\<close>

text \<open>
  What a search over the first \<open>n\<close> elements returns: a matching position, or the insertion
  point that separates the smaller from the greater ones.
\<close>

definition search_result :: "('a \<Rightarrow> int) \<Rightarrow> 'a list \<Rightarrow> nat \<Rightarrow> bool \<times> int \<Rightarrow> bool" where
  "search_result cmp items n r \<longleftrightarrow>
     (if fst r then 0 \<le> snd r \<and> snd r < int n \<and> cmp (items ! nat (snd r)) = 0
      else 0 \<le> snd r \<and> snd r \<le> int n \<and> (\<forall>i < n. if int i < snd r then cmp (items ! i) < 0
                                                  else 0 < cmp (items ! i)))"

text \<open>The signs of the comparator along a sorted array: negative, at most one zero, positive.\<close>

definition sign_sorted :: "('a \<Rightarrow> int) \<Rightarrow> 'a list \<Rightarrow> nat \<Rightarrow> bool" where
  "sign_sorted cmp items n \<longleftrightarrow>
     (\<forall>j < n. \<forall>i < j. cmp (items ! j) \<le> 0 \<longrightarrow> cmp (items ! i) < 0)"

lemma sign_sortedD:
  "sign_sorted cmp items n \<Longrightarrow> i < j \<Longrightarrow> j < n \<Longrightarrow> cmp (items ! j) \<le> 0 \<Longrightarrow> cmp (items ! i) < 0"
  by (auto simp: sign_sorted_def)

lemma sdiv_two_nonneg: "0 \<le> s \<Longrightarrow> s sdiv 2 = s div (2 :: int)"
  by (simp add: signed_divide_int_def sgn_if)

lemma bsearch_loop_finds:
  assumes "sign_sorted cmp items n" and "n \<le> length items" and "int n \<le> 2 ^ 30"
    and "0 \<le> low" and "low \<le> high + 1" and "high < int n"
    and "\<forall>i < n. int i < low \<longrightarrow> cmp (items ! i) < 0"
    and "\<forall>i < n. high < int i \<longrightarrow> 0 < cmp (items ! i)"
  shows "\<exists>r. bsearch_loop cmp items low high = Some r \<and> search_result cmp items n r"
  using assms
proof (induction cmp items low high rule: bsearch_loop.induct)
  case (1 cmp items low high)
  show ?case
  proof (cases "low \<le> high")
    case False
    then show ?thesis using "1.prems" by (subst bsearch_loop.simps) (auto simp: search_result_def)
  next
    case True
    let ?m = "(low + high) div 2"
    have m: "low \<le> ?m" "?m \<le> high" using True by auto
    have s: "c_int (low + high) = Some (low + high)"
      using "1.prems" True by (simp add: c_int_def INT_MIN_def INT_MAX_def)
    have d: "(low + high) sdiv 2 = ?m" using "1.prems" True by (simp add: sdiv_two_nonneg)
    have x: "c_nth items ?m = Some (items ! nat ?m)" using "1.prems" m by (simp add: c_nth_def)
    have c: "c_int (?m + 1) = Some (?m + 1)" "c_int (?m - 1) = Some (?m - 1)"
      using "1.prems" m by (simp_all add: c_int_def INT_MIN_def INT_MAX_def)
    have unf: "bsearch_loop cmp items low high =
        (if cmp (items ! nat ?m) < 0 then bsearch_loop cmp items (?m + 1) high
         else if 0 < cmp (items ! nat ?m) then bsearch_loop cmp items low (?m - 1)
         else Some (True, ?m))"
      by (subst bsearch_loop.simps) (simp add: True s d x c)
    have mn: "nat ?m < n" using m "1.prems" by auto
    consider (less) "cmp (items ! nat ?m) < 0" | (greater) "0 < cmp (items ! nat ?m)"
      | (equal) "cmp (items ! nat ?m) = 0" by linarith
    then show ?thesis
    proof cases
      case less
      have "cmp (items ! i) < 0" if "i < n" "int i < ?m + 1" for i
        using that less sign_sortedD [OF "1.prems"(1), of i "nat ?m"] mn by (cases "i = nat ?m") auto
      then show ?thesis
        using "1.IH"(1) [OF True s refl] less "1.prems" m unf by (simp add: d x c)
    next
      case greater
      then have ng: "\<not> cmp (items ! nat ?m) < 0" by linarith
      have "0 < cmp (items ! i)" if "i < n" "?m - 1 < int i" for i
        using that greater sign_sortedD [OF "1.prems"(1), of "nat ?m" i] by (cases "i = nat ?m") force+
      then show ?thesis
        using "1.IH"(2) [OF True s refl] greater "1.prems" m unf ng
        by (simp add: d x c)
    next
      case equal
      then show ?thesis using unf mn m "1.prems" by (auto simp: search_result_def)
    qed
  qed
qed

section \<open>The shifting loops\<close>

lemma shift_up_opens_gap:
  "index \<le> n \<Longrightarrow> n < length items \<Longrightarrow>
   shift_up items (int n) (int index) =
     Some (take (Suc index) items @ drop index (take n items) @ drop (Suc n) items)"
proof (induction "n - index" arbitrary: n items)
  case 0
  then show ?case by (subst shift_up.simps) simp
next
  case (Suc d)
  then obtain n' where n: "n = Suc n'" by (cases n) auto
  have idx: "index \<le> n'" using Suc.hyps(2) n by simp
  have "shift_up items (int n) (int index) = shift_up (items[n := items ! n']) (int n') (int index)"
    using Suc.prems idx n c_upd_of_nat [of n items] by (subst shift_up.simps) (simp add: c_nth_def)
  also have "\<dots> = Some (take (Suc index) (items[n := items ! n']) @
      drop index (take n' (items[n := items ! n'])) @ drop (Suc n') (items[n := items ! n']))"
    using Suc.hyps(1) [of n' "items[n := items ! n']"] Suc.hyps(2) Suc.prems n idx by simp
  also have "\<dots> = Some (take (Suc index) items @ drop index (take n items) @ drop (Suc n) items)"
    using Suc.prems idx n by (simp add: drop_update_same drop_take_snoc)
  finally show ?case .
qed

lemma shift_down_closes_gap:
  "i \<le> n \<Longrightarrow> Suc n < 2 ^ 32 \<Longrightarrow> n < length items \<Longrightarrow>
   shift_down items (word_of_nat i) (word_of_nat n) =
     Some (take i items @ drop (Suc i) (take (Suc n) items) @ drop n items)"
proof (induction "n - i" arbitrary: i items)
  case 0
  then show ?case by (subst shift_down.simps) simp
next
  case (Suc d)
  then have i: "i < n" by simp
  have w: "unat (word_of_nat i :: 32 word) = i" "unat (word_of_nat n :: 32 word) = n"
    "unat (word_of_nat (Suc i) :: 32 word) = Suc i"
    using i Suc.prems by (simp_all add: unat_word_of_nat del: of_nat_Suc)
  have "word_of_nat i < (word_of_nat n :: 32 word)" using i w by (simp add: word_less_nat_alt)
  then have "shift_down items (word_of_nat i) (word_of_nat n) =
      shift_down (items[i := items ! Suc i]) (word_of_nat (Suc i)) (word_of_nat n)"
    using Suc.prems i w by (subst shift_down.simps) (simp add: c_nth_uint c_upd_uint add.commute)
  also have "\<dots> = Some (take (Suc i) (items[i := items ! Suc i]) @
      drop (Suc (Suc i)) (take (Suc n) (items[i := items ! Suc i])) @ drop n (items[i := items ! Suc i]))"
    using Suc.hyps(1) [of "Suc i" "items[i := items ! Suc i]"] Suc.hyps(2) Suc.prems i by simp
  also have "\<dots> = Some (take i items @ drop (Suc i) (take (Suc n) items) @ drop n items)"
    using Suc.prems i drop_take_Cons [of "Suc i" "Suc n" items]
      take_update_swap [of "Suc n" items i "items ! Suc i"]
    by (simp add: take_Suc_update del: take_Suc)
  finally show ?case .
qed

section \<open>Invariant and abstraction\<close>

definition am_entries :: "'a array_map \<Rightarrow> 'a list" where
  "am_entries m = take (unat (am_len m)) (am_item m)"

definition am_lookup :: "('a \<Rightarrow> 'k) \<Rightarrow> 'a array_map \<Rightarrow> 'k \<Rightarrow> 'a option" where
  "am_lookup key_of m k = find (\<lambda>x. key_of x = k) (am_entries m)"

text \<open>
  The entries are strictly sorted by key. The bound \<open>2 ^ 30\<close> on the size is the largest for
  which \<open>low + high\<close> never overflows.
\<close>

definition am_inv :: "('a \<Rightarrow> 'k::linorder) \<Rightarrow> 'k set \<Rightarrow> 'a array_map \<Rightarrow> bool" where
  "am_inv key_of K m \<longleftrightarrow>
     unat (am_len m) \<le> unat (am_size m) \<and> unat (am_size m) \<le> length (am_item m) \<and>
     unat (am_size m) \<le> 2 ^ 30 \<and>
     sorted_wrt (<) (map key_of (am_entries m)) \<and> (\<forall>x \<in> set (am_entries m). key_of x \<in> K)"

lemma length_am_entries: "am_inv key_of K m \<Longrightarrow> length (am_entries m) = unat (am_len m)"
  by (auto simp: am_inv_def am_entries_def)

lemma sint_small: "unat w < 2 ^ 31 \<Longrightarrow> sint (w :: 32 word) = int (unat w)"
proof -
  assume "unat w < 2 ^ 31"
  then have "uint w < 2 ^ 31" using uint_less_int_iff [of w "2 ^ 31"] by simp
  moreover have "- (2 ^ 31) \<le> uint w" by (rule order_trans [of _ 0]) simp_all
  ultimately show ?thesis by (simp add: sint_uint signed_take_bit_int_eq_self)
qed

lemma sint_pred_small: "unat w \<le> 2 ^ 30 \<Longrightarrow> sint (w - 1 :: 32 word) = int (unat w) - 1"
proof (cases "w = 0")
  case False
  assume "unat w \<le> 2 ^ 30"
  moreover have "0 < unat w" using False by (simp add: unat_pos_iff)
  ultimately show ?thesis using sint_small [of "w - 1"] False by (simp add: unat_pred)
qed simp

section \<open>Searching and editing a sorted prefix\<close>

lemma insert_at_index:
  assumes "i \<le> n" and "n < length items"
  shows "do { items \<leftarrow> shift_up items (int n) (int i); c_upd items (int i) v } =
    Some (take i items @ v # drop i (take n items) @ drop (Suc n) items)"
  using assms
  by (simp add: shift_up_opens_gap c_upd_of_nat take_Suc_conv_app_nth list_update_append)

lemma take_insert_at:
  "i \<le> n \<Longrightarrow> n < length items \<Longrightarrow>
   take (Suc n) (take i items @ v # drop i (take n items) @ drop (Suc n) items) =
     take i (take n items) @ v # drop i (take n items)"
  by (simp add: min_def Suc_diff_le)

lemma remove_at_index:
  assumes "i < n" and "n \<le> length items" and "n < 2 ^ 32"
  shows "shift_down items (word_of_int (int i)) (word_of_nat n - 1) =
    Some (take i items @ drop (Suc i) (take n items) @ drop (n - 1) items)"
proof -
  obtain n' where n: "n = Suc n'" using assms(1) by (cases n) auto
  have "word_of_nat n - 1 = (word_of_nat n' :: 32 word)" by (simp add: n)
  then show ?thesis using shift_down_closes_gap [of i n' items] assms n by simp
qed

lemma take_remove_at:
  "i < n \<Longrightarrow> n \<le> length items \<Longrightarrow>
   take (n - 1) (take i items @ drop (Suc i) (take n items) @ drop (n - 1) items) =
     take i (take n items) @ drop (Suc i) (take n items)"
  by (cases n) (auto simp: min_def dest: le_antisym)

context key_order
begin

lemma sign_sorted_keys:
  assumes sorted: "sorted_wrt (<) (map key_of (take n items))" and n: "n \<le> length items"
    and K: "\<forall>x \<in> set (take n items). key_of x \<in> K" "k \<in> K"
  shows "sign_sorted (\<lambda>x. key_cmp x k) items n"
proof -
  have "key_cmp (items ! i) k < 0" if "i < j" "j < n" "key_cmp (items ! j) k \<le> 0" for i j
  proof -
    have in_K: "key_of (items ! l) \<in> K" if "l < n" for l
      using K n that by (simp add: nth_in_set_take)
    have "key_of (items ! i) < key_of (items ! j)"
      using sorted n that by (auto simp: sorted_wrt_iff_nth_less)
    moreover have "\<not> k < key_of (items ! j)" using that cmp_pos [OF in_K K(2), of j] by auto
    ultimately show ?thesis using that cmp_neg [OF in_K K(2), of i] by auto
  qed
  then show ?thesis by (simp add: sign_sorted_def)
qed

lemma bsearch_sorted_prefix:
  assumes sorted: "sorted_wrt (<) (map key_of (take n items))" and n: "n \<le> length items" "int n \<le> 2 ^ 30"
    and K: "\<forall>x \<in> set (take n items). key_of x \<in> K" "k \<in> K"
  obtains (found) i where "bsearch_loop (\<lambda>x. key_cmp x k) items 0 (int n - 1) = Some (True, int i)"
      "i < n" "key_of (items ! i) = k"
    | (absent) i where "bsearch_loop (\<lambda>x. key_cmp x k) items 0 (int n - 1) = Some (False, int i)"
      "i \<le> n" "\<forall>x \<in> set (take i (take n items)). key_of x < k"
      "\<forall>x \<in> set (drop i (take n items)). k < key_of x"
proof -
  obtain r where r: "bsearch_loop (\<lambda>x. key_cmp x k) items 0 (int n - 1) = Some r"
      "search_result (\<lambda>x. key_cmp x k) items n r"
    using bsearch_loop_finds [OF sign_sorted_keys [OF sorted n(1) K] n, of 0 "int n - 1"] by auto
  obtain b z where bz: "r = (b, z)" by (cases r)
  have z: "0 \<le> z" using r bz by (auto simp: search_result_def split: if_splits)
  have in_K: "key_of (items ! l) \<in> K" if "l < n" for l
    using K n that by (simp add: nth_in_set_take)
  show thesis
  proof (cases b)
    case True
    have m: "nat z < n" "key_cmp (items ! nat z) k = 0"
      using r True bz by (auto simp: search_result_def)
    then have "key_of (items ! nat z) = k"
      using cmp_neg [OF in_K K(2), of "nat z"] cmp_pos [OF in_K K(2), of "nat z"] by auto
    then show thesis using found [of "nat z"] r(1) True m z bz by simp
  next
    case False
    have le: "nat z \<le> n" using r False bz by (auto simp: search_result_def)
    have neg: "key_of (items ! i) < k" if "i < n" "i < nat z" for i
      using r False bz z that cmp_neg [OF in_K K(2), of i] by (simp add: search_result_def zless_nat_eq_int_zless)
    have pos: "k < key_of (items ! i)" if "i < n" "nat z \<le> i" for i
      using r False bz z that cmp_pos [OF in_K K(2), of i] by (simp add: search_result_def nat_le_iff)
    have "key_of x < k" if "x \<in> set (take (nat z) (take n items))" for x
      using that le n neg by (auto simp: in_set_conv_nth)
    moreover have "k < key_of x" if "x \<in> set (drop (nat z) (take n items))" for x
      using that le n pos by (auto simp: in_set_conv_nth)
    ultimately show thesis using absent [of "nat z"] r(1) False le z bz by simp
  qed
qed

lemma sorted_insert:
  assumes "sorted_wrt (<) (map key_of xs)" and "\<forall>x \<in> set (take i xs). key_of x < key_of v"
    and "\<forall>x \<in> set (drop i xs). key_of v < key_of x"
  shows "sorted_wrt (<) (map key_of (take i xs @ v # drop i xs))"
proof -
  have "sorted_wrt (<) (map key_of (take i xs) @ map key_of (drop i xs))"
    using assms(1) by (simp flip: map_append)
  then show ?thesis using assms(2,3) by (simp add: sorted_wrt_append)
qed

lemma sorted_delete:
  assumes "sorted_wrt (<) (map key_of xs)" and "i < length xs"
  shows "sorted_wrt (<) (map key_of (take i xs @ drop (Suc i) xs))"
proof -
  have "map key_of xs = map key_of (take i xs @ xs ! i # drop (Suc i) xs)"
    using assms(2) by (simp flip: id_take_nth_drop)
  then show ?thesis using assms(1) by (simp add: sorted_wrt_append)
qed

end

section \<open>The operations on the sorted entries\<close>

lemma int_le_2p30: "n \<le> 2 ^ 30 \<Longrightarrow> int n \<le> 2 ^ 30"
  by simp

context key_order
begin

abbreviation inv :: "'a array_map \<Rightarrow> bool" where
  "inv \<equiv> am_inv key_of K"

lemma am_bsearch_cases:
  assumes inv: "inv m" and k: "k \<in> K"
  obtains (found) i where "array_map_bsearch key_cmp m k = Some (True, int i)"
      "i < unat (am_len m)" "key_of (am_entries m ! i) = k"
    | (absent) i where "array_map_bsearch key_cmp m k = Some (False, int i)" "i \<le> unat (am_len m)"
      "\<forall>x \<in> set (take i (am_entries m)). key_of x < k"
      "\<forall>x \<in> set (drop i (am_entries m)). k < key_of x"
proof -
  let ?n = "unat (am_len m)"
  have n': "?n \<le> length (am_item m)" "?n \<le> 2 ^ 30" using inv by (auto simp: am_inv_def)
  note n = n'(1) int_le_2p30 [OF n'(2)] n'(2)
  have run: "array_map_bsearch key_cmp m k = bsearch_loop (\<lambda>x. key_cmp x k) (am_item m) 0 (int ?n - 1)"
    using sint_pred_small [OF n(3)] by (simp only: array_map_bsearch_def)
  have s: "sorted_wrt (<) (map key_of (take ?n (am_item m)))" "\<forall>x \<in> set (take ?n (am_item m)). key_of x \<in> K"
    using inv by (auto simp: am_inv_def am_entries_def)
  show thesis
    by (rule bsearch_sorted_prefix [OF s(1) n(1,2) s(2) k])
       (use found absent run n(1) in \<open>auto simp: am_entries_def\<close>)
qed

lemma am_distinct: "inv m \<Longrightarrow> distinct (map key_of (am_entries m))"
  by (simp add: am_inv_def strict_sorted_distinct)

lemma am_lookup_Some_iff:
  "inv m \<Longrightarrow> am_lookup key_of m k = Some v \<longleftrightarrow> v \<in> set (am_entries m) \<and> key_of v = k"
  by (simp add: am_lookup_def find_key_eq_Some_iff am_distinct)

lemma am_lookup_absent:
  assumes "\<forall>x \<in> set (take i (am_entries m)). key_of x < k"
    and "\<forall>x \<in> set (drop i (am_entries m)). k < key_of x"
  shows "am_lookup key_of m k = None"
proof -
  have "key_of x \<noteq> k" if "x \<in> set (am_entries m)" for x
    using assms that set_append [of "take i (am_entries m)" "drop i (am_entries m)"] by auto
  then show ?thesis by (auto simp: am_lookup_def find_None_iff)
qed

lemma am_card: "inv m \<Longrightarrow> card (dom (am_lookup key_of m)) = unat (am_len m)"
  using card_dom_find_key [OF am_distinct] length_am_entries
  by (metis (no_types, lifting) am_lookup_def ext)

lemma am_bsearch_index:
  assumes "inv m" and "k \<in> K"
  shows "array_map_bsearch key_cmp m k =
    Some (case am_lookup key_of m k of
            Some v \<Rightarrow> (True, int (length (takeWhile (\<lambda>x. x \<noteq> v) (am_entries m))))
          | None \<Rightarrow> (False, int (length (filter (\<lambda>x. key_of x < k) (am_entries m)))))"
  using assms
proof (cases rule: am_bsearch_cases)
  case (found i)
  have len: "length (am_entries m) = unat (am_len m)" using assms(1) by (rule length_am_entries)
  have "am_lookup key_of m k = Some (am_entries m ! i)"
    using found(2,3) am_lookup_Some_iff [OF assms(1)] len by simp
  moreover have "distinct (am_entries m)"
    using am_distinct [OF assms(1)] by (simp add: distinct_map)
  then have "length (takeWhile (\<lambda>x. x \<noteq> am_entries m ! i) (am_entries m)) = i"
    using found(2) len by (subst takeWhile_eq_take_P_nth [of i]) (auto simp: nth_eq_iff_index_eq)
  ultimately show ?thesis using found(1) by simp
next
  case (absent i)
  have "filter (\<lambda>x. key_of x < k) (am_entries m) =
      filter (\<lambda>x. key_of x < k) (take i (am_entries m) @ drop i (am_entries m))"
    by simp
  also have "\<dots> = take i (am_entries m)"
    unfolding filter_append using absent(3,4)
    by (subst filter_True, simp, subst filter_False) (auto dest: order.asym)
  finally have "length (filter (\<lambda>x. key_of x < k) (am_entries m)) = i"
    using absent(2) length_am_entries [OF assms(1)] by simp
  then show ?thesis
    using absent(1) am_lookup_absent [OF absent(3,4)] by simp
qed

lemma am_find_correct:
  assumes inv: "inv m" and k: "k \<in> K"
  shows "array_map_find key_cmp m k d =
    Some (case am_lookup key_of m k of None \<Rightarrow> (False, d) | Some v \<Rightarrow> (True, v))"
  using inv k
proof (cases rule: am_bsearch_cases)
  case (found i)
  have "am_entries m ! i \<in> set (am_entries m)"
    using found(2) length_am_entries [OF inv] by simp
  then have "am_lookup key_of m k = Some (am_entries m ! i)"
    using found(3) am_lookup_Some_iff [OF inv] by simp
  moreover have "c_nth (am_item m) (int i) = Some (am_entries m ! i)"
    using inv found(2) by (simp add: c_nth_def am_entries_def am_inv_def)
  ultimately show ?thesis using found(1) by (simp add: array_map_find_def)
next
  case (absent i)
  then show ?thesis using am_lookup_absent [OF absent(3,4)] by (simp add: array_map_find_def)
qed

lemma am_insert_rejects:
  assumes "inv m" and "k \<in> K"
    and "am_lookup key_of m k \<noteq> None \<or> unat (am_len m) = unat (am_size m)"
  shows "array_map_insert key_cmp m k v = Some (False, m)"
  using assms(1,2)
proof (cases rule: am_bsearch_cases)
  case (found i)
  then show ?thesis by (simp add: array_map_insert_def)
next
  case (absent i)
  then have "am_len m = am_size m" using am_lookup_absent [OF absent(3,4)] assms(3) by simp
  then show ?thesis using absent(1) by (simp add: array_map_insert_def)
qed

lemma am_insert_new:
  assumes inv: "inv m" and k: "key_of v = k" "k \<in> K" and new: "am_lookup key_of m k = None"
    and room: "unat (am_len m) < unat (am_size m)"
  shows "\<exists>m'. array_map_insert key_cmp m k v = Some (True, m') \<and> inv m' \<and>
    am_lookup key_of m' = (am_lookup key_of m)(k \<mapsto> v) \<and> am_size m' = am_size m"
  using inv k(2)
proof (cases rule: am_bsearch_cases)
  case (found i)
  then have "am_lookup key_of m k = Some (am_entries m ! i)"
    using am_lookup_Some_iff [OF inv] length_am_entries [OF inv] by simp
  then show ?thesis using new by simp
next
  case (absent i)
  let ?n = "unat (am_len m)"
  have n: "?n < length (am_item m)" "?n < 2 ^ 31" using inv room by (auto simp: am_inv_def)
  define items where "items = take i (am_item m) @ v # drop i (take ?n (am_item m)) @ drop (Suc ?n) (am_item m)"
  define m' where "m' = m\<lparr>am_item := items, am_len := am_len m + 1\<rparr>"
  obtain gap where "shift_up (am_item m) (sint (am_len m)) (int i) = Some gap"
      "c_upd gap (int i) v = Some items"
    using insert_at_index [OF absent(2) n(1), of v] sint_small [OF n(2)]
    by (auto simp: items_def bind_eq_Some_conv)
  then have run: "array_map_insert key_cmp m k v = Some (True, m')"
    using absent(1) room by (simp add: array_map_insert_def m'_def word_le_nat_alt)
  have ents: "am_entries m' = take i (am_entries m) @ v # drop i (am_entries m)"
    using take_insert_at [OF absent(2) n(1), of v] unat_succ [OF room]
    by (simp add: am_entries_def m'_def items_def)
  have sorted: "sorted_wrt (<) (map key_of (am_entries m'))"
    unfolding ents using inv absent(3,4) k(1) by (intro sorted_insert) (auto simp: am_inv_def)
  have set: "set (am_entries m') = insert v (set (am_entries m))"
    unfolding ents by (metis Un_insert_right append_take_drop_id list.set(2) set_append)
  have "inv m'"
    using inv sorted room k unat_succ [OF room] n(1) absent(2)
    by (simp add: am_inv_def set) (auto simp: m'_def items_def)
  moreover have "am_lookup key_of m' = (am_lookup key_of m)(k \<mapsto> v)"
    using find_key_insert [of key_of "take i (am_entries m)" v "drop i (am_entries m)"]
      strict_sorted_distinct [OF sorted] k(1)
    by (simp add: am_lookup_def [abs_def] ents)
  ultimately show ?thesis using run by (auto simp: m'_def)
qed

lemma am_remove_absent:
  assumes "inv m" and "k \<in> K" and "am_lookup key_of m k = None"
  shows "array_map_remove key_cmp m k = Some m"
  using am_bsearch_index [OF assms(1,2)] assms(3) by (simp add: array_map_remove_def)

lemma am_remove_correct:
  assumes inv: "inv m" and k: "k \<in> K"
  shows "\<exists>m'. array_map_remove key_cmp m k = Some m' \<and> inv m' \<and>
    am_lookup key_of m' = (am_lookup key_of m)(k := None) \<and> am_size m' = am_size m"
  using inv k
proof (cases rule: am_bsearch_cases)
  case (absent i)
  then have "(am_lookup key_of m)(k := None) = am_lookup key_of m"
    using am_lookup_absent [OF absent(3,4)] by (simp add: fun_upd_idem)
  then show ?thesis using absent(1) inv by (simp add: array_map_remove_def)
next
  case (found i)
  let ?n = "unat (am_len m)"
  have n: "?n \<le> length (am_item m)" "?n < 2 ^ 32" using inv by (auto simp: am_inv_def)
  define items where "items = take i (am_item m) @ drop (Suc i) (take ?n (am_item m)) @ drop (?n - 1) (am_item m)"
  define m' where "m' = m\<lparr>am_item := items, am_len := am_len m - 1\<rparr>"
  have run: "array_map_remove key_cmp m k = Some m'"
    using found(1) remove_at_index [OF found(2) n]
    by (simp add: array_map_remove_def m'_def items_def)
  have len: "unat (am_len m - 1) = ?n - 1" using found(2) by (intro unat_pred) auto
  have ents: "am_entries m' = take i (am_entries m) @ drop (Suc i) (am_entries m)"
    using take_remove_at [OF found(2) n(1)] len by (simp add: am_entries_def m'_def items_def)
  have split: "am_entries m = take i (am_entries m) @ am_entries m ! i # drop (Suc i) (am_entries m)"
    using found(2) length_am_entries [OF inv] by (simp flip: id_take_nth_drop)
  have sorted: "sorted_wrt (<) (map key_of (am_entries m'))"
    unfolding ents using inv found(2) length_am_entries [OF inv]
    by (intro sorted_delete) (auto simp: am_inv_def)
  have "set (am_entries m') \<subseteq> set (am_entries m)"
    unfolding ents by (auto dest: in_set_takeD in_set_dropD)
  then have "inv m'"
    using inv sorted len n(1) found(2) by (auto simp: am_inv_def) (auto simp: m'_def items_def)
  moreover have "am_lookup key_of m' = (am_lookup key_of m)(k := None)"
    using find_key_delete [of key_of "take i (am_entries m)" "am_entries m ! i" "drop (Suc i) (am_entries m)"]
      am_distinct [OF inv] found(3) split
    by (simp add: am_lookup_def [abs_def] ents)
  ultimately show ?thesis using run by (auto simp: m'_def)
qed

end

section \<open>The array map implements the map interface\<close>

lemma am_empty_inv:
  assumes "unat (am_size m) \<le> length (am_item m)" and "unat (am_size m) \<le> 2 ^ 30" and "am_len m = 0"
  shows "am_inv key_of K m" and "am_lookup key_of m = Map.empty"
  using assms by (auto simp: am_inv_def am_lookup_def am_entries_def)

lemma am_clear:
  assumes "am_inv key_of K m"
  shows "am_inv key_of K (ARRAY_MAP_CLEAR m) \<and> am_lookup key_of (ARRAY_MAP_CLEAR m) = Map.empty \<and>
    am_size (ARRAY_MAP_CLEAR m) = am_size m"
  using assms am_empty_inv(1) [of "ARRAY_MAP_CLEAR m" key_of K] am_empty_inv(2) [of "ARRAY_MAP_CLEAR m" key_of]
  by (simp add: ARRAY_MAP_CLEAR_def am_inv_def)

sublocale key_order \<subseteq> am: bounded_map "array_map_insert key_cmp" "array_map_remove key_cmp"
  "array_map_find key_cmp" ARRAY_MAP_CLEAR "am_lookup key_of" "\<lambda>m. unat (am_size m)" "am_inv key_of K"
  "\<lambda>k. k \<in> K" "\<lambda>k v. key_of v = k"
proof unfold_locales
  fix m k v d
  assume inv: "am_inv key_of K m"
  show "card (dom (am_lookup key_of m)) \<le> unat (am_size m)"
    using inv am_card [OF inv] by (simp add: am_inv_def)
  show "am_inv key_of K (ARRAY_MAP_CLEAR m) \<and> am_lookup key_of (ARRAY_MAP_CLEAR m) = Map.empty \<and>
      unat (am_size (ARRAY_MAP_CLEAR m)) = unat (am_size m)"
    using am_clear [OF inv] by simp
  assume k: "k \<in> K"
  show "array_map_find key_cmp m k d =
      Some (case am_lookup key_of m k of None \<Rightarrow> (False, d) | Some v \<Rightarrow> (True, v))"
    by (rule am_find_correct [OF inv k])
  show "\<exists>m'. array_map_remove key_cmp m k = Some m' \<and> am_inv key_of K m' \<and>
      am_lookup key_of m' = (am_lookup key_of m)(k := None) \<and> unat (am_size m') = unat (am_size m)"
    using am_remove_correct [OF inv k] by auto
  show "array_map_insert key_cmp m k v = Some (False, m)" if "am_lookup key_of m k \<noteq> None"
    using am_insert_rejects [OF inv k] that by blast
  show "array_map_insert key_cmp m k v = Some (False, m)"
    if "card (dom (am_lookup key_of m)) = unat (am_size m)"
    using am_insert_rejects [OF inv k] am_card [OF inv] that by simp
  show "\<exists>m'. array_map_insert key_cmp m k v = Some (True, m') \<and> am_inv key_of K m' \<and>
      am_lookup key_of m' = (am_lookup key_of m)(k \<mapsto> v) \<and> unat (am_size m') = unat (am_size m)"
    if "key_of v = k" "am_lookup key_of m k = None" "card (dom (am_lookup key_of m)) < unat (am_size m)"
    using am_insert_new [OF inv that(1) k that(2)] am_card [OF inv] that(3) by auto
qed

context key_order
begin

lemmas am_run_refines = am.run_refines
lemmas am_find_inserted = am.find_after_insert

end

lemma bsearch_loop_overflows:
  assumes "INT_MAX < 2 * high" and "0 \<le> low" and "low \<le> high" and "high < int (length items)"
    and "\<forall>x \<in> set items. cmp x < 0"
  shows "bsearch_loop cmp items low high = None"
  using assms
proof (induction cmp items low high rule: bsearch_loop.induct)
  case (1 cmp items low high)
  let ?m = "(low + high) div 2"
  show ?case
  proof (cases "INT_MAX < low + high")
    case True
    then show ?thesis using "1.prems" by (subst bsearch_loop.simps) (simp add: c_int_overflow)
  next
    case False
    then have s: "c_int (low + high) = Some (low + high)"
      using "1.prems" by (simp add: c_int_def INT_MIN_def)
    have lh: "low < high" using False "1.prems" by auto
    then have m: "0 \<le> ?m" "?m < high" using "1.prems" by auto
    have x: "c_nth items ?m = Some (items ! nat ?m)" "cmp (items ! nat ?m) < 0"
      using "1.prems" m by (auto simp: c_nth_def)
    have d: "(low + high) sdiv 2 = ?m" using "1.prems" by (simp add: sdiv_two_nonneg)
    have c: "c_int (?m + 1) = Some (?m + 1)"
      using m False "1.prems" by (simp add: c_int_def INT_MIN_def)
    have "bsearch_loop cmp items low high = bsearch_loop cmp items (?m + 1) high"
      using lh by (subst bsearch_loop.simps) (simp add: s d x c)
    also have "\<dots> = None"
      using "1.IH"(1) [of "low + high" ?m "items ! nat ?m" _ "?m + 1"] lh s d x c m "1.prems" by simp
    finally show ?thesis .
  qed
qed

section \<open>Properties\<close>

text \<open>
  C24. A map initialised with a size of at most \<open>2 ^ 30\<close> behaves as a bounded map with unique keys, for every
  comparator that keeps its contract: whatever sequence of insertions, removals, lookups
  and clearings runs, no step has undefined behaviour, every result is the one that the specification on
  finite maps gives (a duplicate or a full map is refused, an absent key is not found) and
  the entries stay strictly sorted.
\<close>

theorem am_run_is_bounded_map:
  assumes "key_order key_cmp key_of K" and "unat siz \<le> length buf" and "unat siz \<le> 2 ^ 30"
    and "list_all (mop_ok (\<lambda>k. k \<in> K) (\<lambda>k v. key_of v = k)) ops"
  shows "\<exists>m'. impl_run (array_map_insert key_cmp) (array_map_remove key_cmp) (array_map_find key_cmp) ARRAY_MAP_CLEAR d
                (ARRAY_MAP_INIT m buf siz) ops =
              Some (fst (map_run (unat siz) d Map.empty ops), m') \<and>
            am_lookup key_of m' = snd (map_run (unat siz) d Map.empty ops) \<and>
            sorted_wrt (<) (map key_of (am_entries m'))"
proof -
  have e: "am_inv key_of K (ARRAY_MAP_INIT m buf siz)"
      "am_lookup key_of (ARRAY_MAP_INIT m buf siz) = Map.empty"
    using assms(2,3) am_empty_inv [of "ARRAY_MAP_INIT m buf siz"] by (simp_all add: ARRAY_MAP_INIT_def)
  have "am_size (ARRAY_MAP_INIT m buf siz) = siz" by (simp add: ARRAY_MAP_INIT_def)
  then show ?thesis
    using key_order.am_run_refines [OF assms(1) e(1) assms(4), of d] e(2) by (auto simp: am_inv_def)
qed

theorem am_run_is_bounded_map_witness:
  "\<exists>m'. impl_run (array_map_insert A_ITEM_MAP_KEY_CMP) (array_map_remove A_ITEM_MAP_KEY_CMP)
          (array_map_find A_ITEM_MAP_KEY_CMP) ARRAY_MAP_CLEAR \<lparr>key = 0, val = 0\<rparr>
          (ARRAY_MAP_INIT undefined (replicate 4 \<lparr>key = 0, val = 0\<rparr>) 2)
          [Ins 3 \<lparr>key = 3, val = 1\<rparr>, Ins 1 \<lparr>key = 1, val = 2\<rparr>, Ins 3 \<lparr>key = 3, val = 9\<rparr>,
           Ins 4 \<lparr>key = 4, val = 9\<rparr>, Find 3, Rem 3, Find 3, Ins 4 \<lparr>key = 4, val = 9\<rparr>, Clr, Find 1] =
        Some ([InsRet True, InsRet True, InsRet False, InsRet False, FindRet True \<lparr>key = 3, val = 1\<rparr>,
               RemRet, FindRet False \<lparr>key = 0, val = 0\<rparr>, InsRet True, ClrRet, FindRet False \<lparr>key = 0, val = 0\<rparr>], m') \<and>
        sorted_wrt (<) (map key (am_entries m'))"
  using am_run_is_bounded_map [OF item_order.key_order_axioms, of 2
      "replicate 4 \<lparr>key = 0, val = 0\<rparr>"
      "[Ins 3 \<lparr>key = 3, val = 1\<rparr>, Ins 1 \<lparr>key = 1, val = 2\<rparr>, Ins 3 \<lparr>key = 3, val = 9\<rparr>,
        Ins 4 \<lparr>key = 4, val = 9\<rparr>, Find 3, Rem 3, Find 3, Ins 4 \<lparr>key = 4, val = 9\<rparr>, Clr, Find 1]"
      "\<lparr>key = 0, val = 0\<rparr>" undefined]
  by (auto simp: safe_keys_def)

text \<open>
  C33. Binary search over at most \<open>2 ^ 30\<close> entries returns, without undefined behaviour,
  either the index of the entry with the key, or the number of entries with a smaller key.
\<close>

theorem am_bsearch_correct:
  assumes "key_order key_cmp key_of K" and "am_inv key_of K m" and "k \<in> K"
  shows "array_map_bsearch key_cmp m k =
    Some (case am_lookup key_of m k of
            Some v \<Rightarrow> (True, int (length (takeWhile (\<lambda>x. x \<noteq> v) (am_entries m))))
          | None \<Rightarrow> (False, int (length (filter (\<lambda>x. key_of x < k) (am_entries m)))))"
  using assms by (rule key_order.am_bsearch_index)

theorem am_bsearch_correct_witness:
  "array_map_bsearch A_ITEM_MAP_KEY_CMP
     \<lparr>am_item = map (\<lambda>k. \<lparr>key = k, val = 0\<rparr>) [2, 4, 6, 8], am_size = 4, am_len = 4\<rparr> 5 = Some (False, 2)"
proof -
  let ?m = "\<lparr>am_item = map (\<lambda>k. \<lparr>key = k, val = 0\<rparr>) [2, 4, 6, 8], am_size = 4, am_len = 4\<rparr>"
  have "am_inv key safe_keys ?m" by (simp add: am_inv_def am_entries_def safe_keys_def)
  moreover have "5 \<in> safe_keys" by (simp add: safe_keys_def)
  ultimately show ?thesis
    using am_bsearch_correct [OF item_order.key_order_axioms, of ?m 5]
    by (simp add: am_lookup_def am_entries_def)
qed

text \<open>
  C34. The bound is sharp. With one entry more than \<open>2 ^ 30\<close>, which the \<open>uint32_t\<close> fields
  allow, the search for a key greater than all others overflows the \<open>int\<close> sum
  \<open>low + high\<close>: the behaviour is undefined.
\<close>

theorem am_bsearch_overflow:
  assumes "am_len m = 2 ^ 30 + 1" and "length (am_item m) = 2 ^ 30 + 1"
    and "\<forall>x \<in> set (am_item m). key_cmp x k < 0"
  shows "array_map_bsearch key_cmp m k = None"
  unfolding array_map_bsearch_def
  by (rule bsearch_loop_overflows) (use assms in \<open>simp_all add: INT_MAX_def\<close>)

theorem am_bsearch_overflow_witness:
  "array_map_bsearch A_ITEM_MAP_KEY_CMP
     \<lparr>am_item = replicate (2 ^ 30 + 1) \<lparr>key = 1, val = 0\<rparr>, am_size = 2 ^ 30 + 1, am_len = 2 ^ 30 + 1\<rparr> 2 = None"
  by (rule am_bsearch_overflow) (simp_all add: A_ITEM_MAP_KEY_CMP_def c_sub_wrap_exact)

text \<open>
  Insert, then look up: a value inserted under a new key in a map with room is found
  under that key, and the lookup of every other key gives what it gave before.
\<close>

theorem am_find_after_insert:
  assumes "key_order key_cmp key_of K" and "am_inv key_of K m" and "k \<in> K" and "key_of v = k"
    and "am_lookup key_of m k = None" and "am_len m < am_size m"
  shows "\<exists>m'. array_map_insert key_cmp m k v = Some (True, m') \<and>
    array_map_find key_cmp m' k d = Some (True, v) \<and>
    (\<forall>k'. k' \<in> K \<longrightarrow> k' \<noteq> k \<longrightarrow> array_map_find key_cmp m' k' d = array_map_find key_cmp m k' d)"
  using key_order.am_find_inserted [OF assms(1-5)] key_order.am_card [OF assms(1,2)] assms(6)
  by (simp add: word_less_nat_alt)

theorem am_find_after_insert_witness:
  "\<exists>m'. array_map_insert A_ITEM_MAP_KEY_CMP
          \<lparr>am_item = map (\<lambda>k. \<lparr>key = k, val = 0\<rparr>) [2, 4, 0], am_size = 3, am_len = 2\<rparr> 3 \<lparr>key = 3, val = 7\<rparr> =
          Some (True, m') \<and>
        array_map_find A_ITEM_MAP_KEY_CMP m' 3 \<lparr>key = 0, val = 0\<rparr> = Some (True, \<lparr>key = 3, val = 7\<rparr>)"
proof -
  let ?m = "\<lparr>am_item = map (\<lambda>k. \<lparr>key = k, val = 0\<rparr>) [2, 4, 0], am_size = 3, am_len = 2\<rparr>"
  have "am_inv key safe_keys ?m" "3 \<in> safe_keys" "am_lookup key ?m 3 = None" "am_len ?m < am_size ?m"
    by (simp_all add: am_inv_def am_lookup_def am_entries_def safe_keys_def)
  then show ?thesis
    using am_find_after_insert [OF item_order.key_order_axioms, of ?m 3 "\<lparr>key = 3, val = 7\<rparr>"] by auto
qed

text \<open>
  C35. What the map refuses, as documented: insertion returns \<open>false\<close>, and then changes nothing, exactly if the key is already
  there or the map is full; removing an absent key changes nothing, and its lookup returns \<open>false\<close> and leaves the
  caller's variable as it is.
\<close>

theorem am_refusals:
  assumes "key_order key_cmp key_of K" and "am_inv key_of K m" and "k \<in> K" and "key_of v = k"
  shows "(\<exists>r m'. array_map_insert key_cmp m k v = Some (r, m') \<and> (r \<longleftrightarrow> am_lookup key_of m k = None \<and> am_len m \<noteq> am_size m) \<and>
      (\<not> r \<longrightarrow> m' = m)) \<and>
    (am_lookup key_of m k = None \<longrightarrow>
      array_map_remove key_cmp m k = Some m \<and> array_map_find key_cmp m k d = Some (False, d))"
proof -
  have "unat (am_len m) \<le> unat (am_size m)" using assms(2) by (simp add: am_inv_def)
  then have len: "unat (am_len m) < unat (am_size m) \<longleftrightarrow> am_len m \<noteq> am_size m" by (auto simp: le_less)
  show ?thesis
    using key_order.am_insert_rejects [OF assms(1-3), of v] key_order.am_insert_new [OF assms(1,2,4,3)] len
      key_order.am_remove_absent [OF assms(1-3)] key_order.am_find_correct [OF assms(1-3), of d]
    by (cases "am_lookup key_of m k = None \<and> am_len m \<noteq> am_size m") auto
qed

theorem am_refusals_witness:
  "array_map_insert A_ITEM_MAP_KEY_CMP
      \<lparr>am_item = map (\<lambda>k. \<lparr>key = k, val = 0\<rparr>) [2, 4], am_size = 2, am_len = 2\<rparr> 3 \<lparr>key = 3, val = 7\<rparr> =
    Some (False, \<lparr>am_item = map (\<lambda>k. \<lparr>key = k, val = 0\<rparr>) [2, 4], am_size = 2, am_len = 2\<rparr>)"
proof -
  let ?m = "\<lparr>am_item = map (\<lambda>k. \<lparr>key = k, val = 0\<rparr>) [2, 4], am_size = 2, am_len = 2\<rparr>"
  have "am_inv key safe_keys ?m" "3 \<in> safe_keys" "am_lookup key ?m 3 = None"
    by (simp_all add: am_inv_def am_lookup_def am_entries_def safe_keys_def)
  then show ?thesis
    using am_refusals [OF item_order.key_order_axioms, of ?m 3 "\<lparr>key = 3, val = 7\<rparr>" "\<lparr>key = 0, val = 0\<rparr>"] by auto
qed

text \<open>
  Clearing a map empties it and keeps it usable: every key is absent and the whole
  capacity is available again.
\<close>

theorem am_clear_empties:
  assumes "am_inv key_of K m"
  shows "am_inv key_of K (ARRAY_MAP_CLEAR m) \<and> am_lookup key_of (ARRAY_MAP_CLEAR m) = Map.empty \<and>
    am_size (ARRAY_MAP_CLEAR m) = am_size m"
  using assms by (rule am_clear)

theorem am_clear_empties_witness:
  "am_lookup key (ARRAY_MAP_CLEAR \<lparr>am_item = [\<lparr>key = 2, val = 0\<rparr>], am_size = 1, am_len = 1\<rparr>) = Map.empty"
  using am_clear_empties [of key safe_keys "\<lparr>am_item = [\<lparr>key = 2, val = 0\<rparr>], am_size = 1, am_len = 1\<rparr>"]
  by (simp add: am_inv_def am_entries_def safe_keys_def)

end
