(* ===== verification/Array_Map_Pool.thy ===== *)
theory Array_Map_Pool
  imports Array_Map "HOL-Library.Multiset"
begin

text \<open>
  The object pool of \<open>array_utils/array_map.h\<close>: a buffer of pointers whose first
  \<open>amp_len\<close> elements are the allocated objects, sorted by key, and whose remaining elements
  are free. \<open>ARRAY_MAP_POOL_GET\<close> looks a key up and allocates an object for it when there is
  none, \<open>ARRAY_MAP_POOL_FREE\<close> releases the object of a key.
\<close>

section \<open>State and operations\<close>

text \<open>
  The contained type is a pointer type \<open>'p\<close>, as the header recommends; \<open>(type) 0\<close> is its
  null pointer \<open>0\<close>. The objects live in a memory \<open>'p \<Rightarrow> 'o\<close>. The comparator, the
  initializer and the finalizer that the client passes act on the object that a pointer
  designates.
\<close>

record 'p array_map_pool =
  amp_item :: "'p list"
  amp_size :: "32 word"
  amp_len :: "32 word"

definition ARRAY_MAP_POOL_INIT :: "'p array_map_pool \<Rightarrow> 'p list \<Rightarrow> 32 word \<Rightarrow> 'p array_map_pool" where
  "ARRAY_MAP_POOL_INIT m buf siz = m\<lparr>amp_item := buf, amp_size := siz, amp_len := 0\<rparr>"

definition ARRAY_MAP_POOL_CLEAR :: "'p array_map_pool \<Rightarrow> 'p array_map_pool" where
  "ARRAY_MAP_POOL_CLEAR m = m\<lparr>amp_len := 0\<rparr>"

definition array_map_pool_bsearch ::
    "('o \<Rightarrow> 'k \<Rightarrow> int) \<Rightarrow> ('p \<Rightarrow> 'o) \<Rightarrow> 'p array_map_pool \<Rightarrow> 'k \<Rightarrow> (bool \<times> int) option" where
  "array_map_pool_bsearch key_cmp mem m k =
     bsearch_loop (\<lambda>p. key_cmp (mem p) k) (amp_item m) 0 (sint (amp_len m - 1))"

definition array_map_pool_get ::
    "('o \<Rightarrow> 'k \<Rightarrow> int) \<Rightarrow> ('o \<Rightarrow> 'k \<Rightarrow> 'o) \<Rightarrow> ('p::zero \<Rightarrow> 'o) \<Rightarrow> 'p array_map_pool \<Rightarrow> 'k \<Rightarrow>
     ('p \<times> ('p \<Rightarrow> 'o) \<times> 'p array_map_pool) option" where
  "array_map_pool_get key_cmp initializer mem m k = do {
     (found, index) \<leftarrow> array_map_pool_bsearch key_cmp mem m k;
     if \<not> found then
       if amp_size m \<le> amp_len m then Some (0, mem, m)
       else do {
         new_item \<leftarrow> c_nth (amp_item m) (uint (amp_len m));
         let mem = mem(new_item := initializer (mem new_item) k);
         items \<leftarrow> shift_up (amp_item m) (sint (amp_len m)) index;
         items \<leftarrow> c_upd items index new_item;
         p \<leftarrow> c_nth items index;
         Some (p, mem, m\<lparr>amp_item := items, amp_len := amp_len m + 1\<rparr>)
       }
     else do {
       p \<leftarrow> c_nth (amp_item m) index;
       Some (p, mem, m)
     }
   }"

definition array_map_pool_free ::
    "('o \<Rightarrow> 'k \<Rightarrow> int) \<Rightarrow> ('o \<Rightarrow> 'o) \<Rightarrow> ('p \<Rightarrow> 'o) \<Rightarrow> 'p array_map_pool \<Rightarrow> 'k \<Rightarrow>
     (('p \<Rightarrow> 'o) \<times> 'p array_map_pool) option" where
  "array_map_pool_free key_cmp finalizer mem m k = do {
     (found, index) \<leftarrow> array_map_pool_bsearch key_cmp mem m k;
     if found then do {
       free_item \<leftarrow> c_nth (amp_item m) index;
       let mem = mem(free_item := finalizer (mem free_item));
       items \<leftarrow> shift_down (amp_item m) (word_of_int index) (amp_len m - 1);
       items \<leftarrow> c_upd items (uint (amp_len m - 1)) free_item;
       Some (mem, m\<lparr>amp_item := items, amp_len := amp_len m - 1\<rparr>)
     }
     else Some (mem, m)
   }"

definition array_map_pool_find ::
    "('o \<Rightarrow> 'k \<Rightarrow> int) \<Rightarrow> ('p::zero \<Rightarrow> 'o) \<Rightarrow> 'p array_map_pool \<Rightarrow> 'k \<Rightarrow> 'p option" where
  "array_map_pool_find key_cmp mem m k = do {
     (found, index) \<leftarrow> array_map_pool_bsearch key_cmp mem m k;
     if found then c_nth (amp_item m) index else Some 0
   }"

section \<open>Invariant and abstraction\<close>

definition amp_entries :: "'p array_map_pool \<Rightarrow> 'p list" where
  "amp_entries m = take (unat (amp_len m)) (amp_item m)"

definition amp_lookup :: "('o \<Rightarrow> 'k) \<Rightarrow> ('p \<Rightarrow> 'o) \<Rightarrow> 'p array_map_pool \<Rightarrow> 'k \<Rightarrow> 'p option" where
  "amp_lookup key_of mem m k = find (\<lambda>p. key_of (mem p) = k) (amp_entries m)"

text \<open>The pointers of the buffer are distinct and not null; the allocated ones are sorted by key.\<close>

definition amp_inv ::
    "('o \<Rightarrow> 'k::linorder) \<Rightarrow> 'k set \<Rightarrow> ('p::zero \<Rightarrow> 'o) \<Rightarrow> 'p array_map_pool \<Rightarrow> bool" where
  "amp_inv key_of K mem m \<longleftrightarrow>
     unat (amp_len m) \<le> unat (amp_size m) \<and> unat (amp_size m) = length (amp_item m) \<and>
     unat (amp_size m) \<le> 2 ^ 30 \<and> distinct (amp_item m) \<and> 0 \<notin> set (amp_item m) \<and>
     sorted_wrt (<) (map (\<lambda>p. key_of (mem p)) (amp_entries m)) \<and>
     (\<forall>p \<in> set (amp_entries m). key_of (mem p) \<in> K)"

text \<open>The contract of the initializer: the object it leaves carries the key.\<close>

locale pool_contract = key_order key_cmp key_of K
  for key_cmp :: "'o \<Rightarrow> 'k::linorder \<Rightarrow> int" and key_of :: "'o \<Rightarrow> 'k" and K :: "'k set" +
  fixes initializer :: "'o \<Rightarrow> 'k \<Rightarrow> 'o"
    and finalizer :: "'o \<Rightarrow> 'o"
  assumes init_key: "k \<in> K \<Longrightarrow> key_of (initializer x k) = k"

section \<open>The comparators of the unit tests\<close>

definition A_ITEM_MAP_POOL_KEY_CMP :: "A_ITEM \<Rightarrow> int \<Rightarrow> int" where
  "A_ITEM_MAP_POOL_KEY_CMP item k = c_sub_wrap (key item) k"

definition A_ITEM_MAP_POOL_INITIALIZER :: "A_ITEM \<Rightarrow> int \<Rightarrow> A_ITEM" where
  "A_ITEM_MAP_POOL_INITIALIZER item k = item\<lparr>key := k\<rparr>"

definition A_ITEM_MAP_POOL_FINALIZER :: "A_ITEM \<Rightarrow> A_ITEM" where
  "A_ITEM_MAP_POOL_FINALIZER item = item"

interpretation item_pool: pool_contract A_ITEM_MAP_POOL_KEY_CMP key safe_keys
  A_ITEM_MAP_POOL_INITIALIZER A_ITEM_MAP_POOL_FINALIZER
  by unfold_locales
     (simp_all add: A_ITEM_MAP_POOL_KEY_CMP_def A_ITEM_MAP_POOL_INITIALIZER_def safe_keys_def
       c_sub_wrap_exact)

section \<open>The operations on the sorted prefix\<close>

lemma mset_take_drop: "mset (take i xs) + mset (drop i xs) = mset xs"
  by (metis append_take_drop_id mset_append)

lemma amp_insert_items:
  assumes "i \<le> n" and "n < length items"
  shows "mset (take i items @ items ! n # drop i (take n items) @ drop (Suc n) items) = mset items"
proof -
  have "mset items = mset (take n items) + mset (items ! n # drop (Suc n) items)"
    using mset_take_drop [of n items] assms(2) by (simp add: Cons_nth_drop_Suc)
  moreover have "mset (take i items) + mset (drop i (take n items)) = mset (take n items)"
    using mset_take_drop [of i "take n items"] assms(1) by (simp add: min_def)
  ultimately show ?thesis by (simp add: ac_simps)
qed

lemma amp_remove_items:
  assumes "i < n" and "n \<le> length items"
  shows "c_upd (take i items @ drop (Suc i) (take n items) @ drop (n - 1) items) (int (n - 1)) (items ! i) =
      Some (take i items @ drop (Suc i) (take n items) @ items ! i # drop n items)"
    and "mset (take i items @ drop (Suc i) (take n items) @ items ! i # drop n items) = mset items"
proof -
  obtain n' where n: "n = Suc n'" using assms(1) by (cases n) auto
  have "drop n' items = items ! n' # drop (Suc n') items"
    using assms(2) n by (simp add: Cons_nth_drop_Suc)
  then show "c_upd (take i items @ drop (Suc i) (take n items) @ drop (n - 1) items) (int (n - 1)) (items ! i) =
      Some (take i items @ drop (Suc i) (take n items) @ items ! i # drop n items)"
    using assms n by (simp add: c_upd_of_nat list_update_append)
  have "mset items = mset (take n items) + mset (drop n items)" by (simp only: mset_take_drop)
  moreover have "mset (take i items) + mset (items ! i # drop (Suc i) (take n items)) = mset (take n items)"
    using mset_take_drop [of i "take n items"] assms drop_take_Cons [of i n items] by (simp add: min_def)
  ultimately show "mset (take i items @ drop (Suc i) (take n items) @ items ! i # drop n items) = mset items"
    by (simp add: ac_simps)
qed

lemma length_amp_entries: "amp_inv key_of K mem m \<Longrightarrow> length (amp_entries m) = unat (amp_len m)"
  by (auto simp: amp_inv_def amp_entries_def)

lemma amp_room:
  assumes "amp_inv key_of K mem m" and "amp_len m \<noteq> amp_size m"
  shows "unat (amp_len m) < unat (amp_size m)"
proof -
  have "unat (amp_len m) \<le> unat (amp_size m)" using assms(1) unfolding amp_inv_def by blast
  then show ?thesis using assms(2) by (simp add: le_less)
qed

lemma amp_entries_subset: "set (amp_entries m) \<subseteq> set (amp_item m)"
  by (simp add: amp_entries_def set_take_subset)

context pool_contract
begin

abbreviation pinv :: "('p::zero \<Rightarrow> 'o) \<Rightarrow> 'p array_map_pool \<Rightarrow> bool" where
  "pinv \<equiv> amp_inv key_of K"

lemma order_in_memory: "key_order (\<lambda>p. key_cmp (mem p)) (\<lambda>p. key_of (mem p)) K"
  by unfold_locales (simp_all add: cmp_neg cmp_pos)

lemma amp_bsearch_cases:
  fixes mem :: "'p::zero \<Rightarrow> 'o"
  assumes inv: "pinv mem m" and k: "k \<in> K"
  obtains (found) i where "array_map_pool_bsearch key_cmp mem m k = Some (True, int i)"
      "i < unat (amp_len m)" "key_of (mem (amp_item m ! i)) = k"
    | (absent) i where "array_map_pool_bsearch key_cmp mem m k = Some (False, int i)" "i \<le> unat (amp_len m)"
      "\<forall>p \<in> set (take i (amp_entries m)). key_of (mem p) < k"
      "\<forall>p \<in> set (drop i (amp_entries m)). k < key_of (mem p)"
proof -
  let ?n = "unat (amp_len m)"
  have n: "?n \<le> length (amp_item m)" "?n \<le> 2 ^ 30" using inv by (auto simp: amp_inv_def)
  have run: "array_map_pool_bsearch key_cmp mem m k =
      bsearch_loop (\<lambda>p. key_cmp (mem p) k) (amp_item m) 0 (int ?n - 1)"
    using sint_pred_small [OF n(2)] by (simp only: array_map_pool_bsearch_def)
  have s: "sorted_wrt (<) (map (\<lambda>p. key_of (mem p)) (take ?n (amp_item m)))"
    "\<forall>p \<in> set (take ?n (amp_item m)). key_of (mem p) \<in> K"
    using inv by (auto simp: amp_inv_def amp_entries_def)
  show thesis
    by (rule key_order.bsearch_sorted_prefix [OF order_in_memory s(1) n(1) int_le_2p30 [OF n(2)] s(2) k])
       (use found absent run n(1) in \<open>auto simp: amp_entries_def\<close>)
qed

lemma amp_distinct_keys: "pinv mem m \<Longrightarrow> distinct (map (\<lambda>p. key_of (mem p)) (amp_entries m))"
  by (simp add: amp_inv_def strict_sorted_distinct)

lemma amp_lookup_Some_iff:
  "pinv mem m \<Longrightarrow> amp_lookup key_of mem m k = Some p \<longleftrightarrow> p \<in> set (amp_entries m) \<and> key_of (mem p) = k"
  by (simp add: amp_lookup_def find_key_eq_Some_iff amp_distinct_keys)

lemma amp_lookup_found:
  assumes "pinv mem m" and "i < unat (amp_len m)" and "key_of (mem (amp_item m ! i)) = k"
  shows "amp_lookup key_of mem m k = Some (amp_item m ! i)"
proof -
  have "amp_item m ! i \<in> set (amp_entries m)"
    using assms(1,2) nth_in_set_take [of i "unat (amp_len m)" "amp_item m"]
    by (auto simp: amp_entries_def amp_inv_def)
  then show ?thesis using assms amp_lookup_Some_iff by blast
qed

lemma amp_lookup_absent:
  assumes "\<forall>p \<in> set (take i (amp_entries m)). key_of (mem p) < k"
    and "\<forall>p \<in> set (drop i (amp_entries m)). k < key_of (mem p)"
  shows "amp_lookup key_of mem m k = None"
proof -
  have "key_of (mem p) \<noteq> k" if "p \<in> set (amp_entries m)" for p
    using assms that set_append [of "take i (amp_entries m)" "drop i (amp_entries m)"] by auto
  then show ?thesis by (auto simp: amp_lookup_def find_None_iff)
qed

lemma amp_nth: "pinv mem m \<Longrightarrow> i < unat (amp_len m) \<Longrightarrow> c_nth (amp_item m) (int i) = Some (amp_item m ! i)"
  by (simp add: c_nth_def amp_inv_def)

lemma amp_find_correct:
  assumes inv: "pinv mem m" and k: "k \<in> K"
  shows "array_map_pool_find key_cmp mem m k =
    Some (case amp_lookup key_of mem m k of None \<Rightarrow> 0 | Some p \<Rightarrow> p)"
  using inv k
proof (cases rule: amp_bsearch_cases)
  case (found i)
  then show ?thesis
    using amp_lookup_found [OF inv found(2,3)] amp_nth [OF inv found(2)]
    by (simp add: array_map_pool_find_def)
next
  case (absent i)
  then show ?thesis using amp_lookup_absent [OF absent(3,4)] by (simp add: array_map_pool_find_def)
qed

lemma amp_get_existing:
  assumes inv: "pinv mem m" and k: "k \<in> K" and p: "amp_lookup key_of mem m k = Some p"
  shows "array_map_pool_get key_cmp initializer mem m k = Some (p, mem, m)"
  using inv k
proof (cases rule: amp_bsearch_cases)
  case (found i)
  then show ?thesis
    using amp_lookup_found [OF inv found(2,3)] amp_nth [OF inv found(2)] p
    by (simp add: array_map_pool_get_def)
next
  case (absent i)
  then show ?thesis using amp_lookup_absent [OF absent(3,4)] p by simp
qed

lemma amp_get_full:
  assumes inv: "pinv mem m" and k: "k \<in> K" and p: "amp_lookup key_of mem m k = None"
    and full: "amp_len m = amp_size m"
  shows "array_map_pool_get key_cmp initializer mem m k = Some (0, mem, m)"
  using inv k
proof (cases rule: amp_bsearch_cases)
  case (found i)
  then show ?thesis using amp_lookup_found [OF inv found(2,3)] p by simp
next
  case (absent i)
  then show ?thesis using full by (simp add: array_map_pool_get_def)
qed

lemma amp_get_run:
  assumes inv: "pinv mem m" and k: "k \<in> K" and new: "amp_lookup key_of mem m k = None"
    and room: "unat (amp_len m) < unat (amp_size m)"
  defines "p \<equiv> amp_item m ! unat (amp_len m)"
  obtains i where "i \<le> unat (amp_len m)"
    "\<forall>q \<in> set (take i (amp_entries m)). key_of (mem q) < k"
    "\<forall>q \<in> set (drop i (amp_entries m)). k < key_of (mem q)"
    "array_map_pool_get key_cmp initializer mem m k =
       Some (p, mem(p := initializer (mem p) k),
         m\<lparr>amp_item := take i (amp_item m) @ p # drop i (take (unat (amp_len m)) (amp_item m)) @
                      drop (Suc (unat (amp_len m))) (amp_item m),
           amp_len := amp_len m + 1\<rparr>)"
  using inv k
proof (cases rule: amp_bsearch_cases)
  case (found i)
  then show ?thesis using amp_lookup_found [OF inv found(2,3)] new by simp
next
  case (absent i)
  let ?n = "unat (amp_len m)"
  let ?items = "take i (amp_item m) @ p # drop i (take ?n (amp_item m)) @ drop (Suc ?n) (amp_item m)"
  have n: "?n < length (amp_item m)" "?n < 2 ^ 31" using inv room by (auto simp: amp_inv_def)
  obtain gap where gap: "shift_up (amp_item m) (sint (amp_len m)) (int i) = Some gap"
      "c_upd gap (int i) p = Some ?items"
    using insert_at_index [OF absent(2) n(1), of p] sint_small [OF n(2)]
    by (auto simp: bind_eq_Some_conv)
  have "c_nth ?items (int i) = Some p" using absent(2) n(1) by (simp add: c_nth_def nth_append)
  then have "array_map_pool_get key_cmp initializer mem m k =
      Some (p, mem(p := initializer (mem p) k), m\<lparr>amp_item := ?items, amp_len := amp_len m + 1\<rparr>)"
    using absent(1) room gap c_nth_uint [OF n(1)]
    by (simp add: array_map_pool_get_def p_def word_le_nat_alt)
  then show ?thesis using that absent(2-4) by blast
qed

lemma amp_fresh:
  assumes "pinv mem m" and "unat (amp_len m) < unat (amp_size m)"
  shows "amp_item m ! unat (amp_len m) \<notin> set (amp_entries m)"
    and "amp_item m ! unat (amp_len m) \<in> set (amp_item m)"
proof -
  let ?n = "unat (amp_len m)"
  have "distinct (take ?n (amp_item m) @ amp_item m ! ?n # drop (Suc ?n) (amp_item m))"
    using assms by (simp add: amp_inv_def flip: id_take_nth_drop)
  then show "amp_item m ! ?n \<notin> set (amp_entries m)" by (simp add: amp_entries_def)
  show "amp_item m ! ?n \<in> set (amp_item m)" using assms by (simp add: amp_inv_def)
qed

lemma amp_get_new:
  assumes inv: "pinv mem m" and k: "k \<in> K" and new: "amp_lookup key_of mem m k = None"
    and room: "unat (amp_len m) < unat (amp_size m)"
  defines "p \<equiv> amp_item m ! unat (amp_len m)"
  defines "mem' \<equiv> mem(p := initializer (mem p) k)"
  shows "\<exists>m'. array_map_pool_get key_cmp initializer mem m k = Some (p, mem', m') \<and> pinv mem' m' \<and>
    amp_lookup key_of mem' m' = (amp_lookup key_of mem m)(k \<mapsto> p) \<and>
    mset (amp_item m') = mset (amp_item m) \<and> amp_size m' = amp_size m"
proof -
  let ?n = "unat (amp_len m)"
  obtain i where i: "i \<le> ?n" "\<forall>q \<in> set (take i (amp_entries m)). key_of (mem q) < k"
    "\<forall>q \<in> set (drop i (amp_entries m)). k < key_of (mem q)"
    and run: "array_map_pool_get key_cmp initializer mem m k = Some (p, mem',
      m\<lparr>amp_item := take i (amp_item m) @ p # drop i (take ?n (amp_item m)) @ drop (Suc ?n) (amp_item m),
        amp_len := amp_len m + 1\<rparr>)"
    using amp_get_run [OF inv k new room] unfolding p_def mem'_def by blast
  define m' where "m' = m\<lparr>amp_item := take i (amp_item m) @ p # drop i (take ?n (amp_item m)) @
    drop (Suc ?n) (amp_item m), amp_len := amp_len m + 1\<rparr>"
  have n: "?n < length (amp_item m)" using inv room by (simp add: amp_inv_def)
  have items: "mset (amp_item m') = mset (amp_item m)"
    using amp_insert_items [OF i(1) n] by (simp add: m'_def p_def)
  have old: "mem' q = mem q" if "q \<in> set (amp_entries m)" for q
    using that amp_fresh(1) [OF inv room] by (auto simp: mem'_def p_def)
  have key: "key_of (mem' p) = k" using init_key [OF k] by (simp add: mem'_def)
  have ents: "amp_entries m' = take i (amp_entries m) @ p # drop i (amp_entries m)"
    using take_insert_at [OF i(1) n, of p] unat_succ [OF room] by (simp add: amp_entries_def m'_def)
  have set: "set (amp_entries m') = insert p (set (amp_entries m))"
    unfolding ents by (metis Un_insert_right append_take_drop_id list.set(2) set_append)
  have "sorted_wrt (<) (map (\<lambda>q. key_of (mem' q)) (amp_entries m))"
    using inv old by (simp add: amp_inv_def cong: map_cong)
  then have sorted: "sorted_wrt (<) (map (\<lambda>q. key_of (mem' q)) (amp_entries m'))"
    unfolding ents using i(2,3) key old [OF in_set_takeD] old [OF in_set_dropD]
    by (intro key_order.sorted_insert [OF order_in_memory]) simp_all
  have "\<forall>q \<in> set (amp_entries m'). key_of (mem' q) \<in> K"
    using inv set old key k by (auto simp: amp_inv_def)
  then have inv': "pinv mem' m'"
    using inv sorted room unat_succ [OF room] mset_eq_setD [OF items] mset_eq_length [OF items]
      mset_eq_imp_distinct_iff [OF items]
    by (simp add: amp_inv_def) (simp add: m'_def)
  have "amp_lookup key_of mem' m' j = Some w \<longleftrightarrow> ((amp_lookup key_of mem m)(k \<mapsto> p)) j = Some w" for j w
    using amp_lookup_Some_iff [OF inv', of j w] amp_lookup_Some_iff [OF inv, of j w]
      amp_lookup_Some_iff [OF inv, of k w] set old key new amp_fresh(1) [OF inv room]
    by (cases "w = p") (auto simp: p_def)
  then have "amp_lookup key_of mem' m' = (amp_lookup key_of mem m)(k \<mapsto> p)" by (rule map_eqI_Some)
  then show ?thesis using run inv' items by (auto simp: m'_def)
qed

lemma amp_free_absent:
  assumes inv: "pinv mem m" and k: "k \<in> K" and p: "amp_lookup key_of mem m k = None"
  shows "array_map_pool_free key_cmp finalizer mem m k = Some (mem, m)"
  using inv k
proof (cases rule: amp_bsearch_cases)
  case (found i)
  then show ?thesis using amp_lookup_found [OF inv found(2,3)] p by simp
next
  case (absent i)
  then show ?thesis by (simp add: array_map_pool_free_def)
qed

lemma amp_free_run:
  assumes inv: "pinv mem m" and k: "k \<in> K" and p: "amp_lookup key_of mem m k = Some p"
  obtains i where "i < unat (amp_len m)" "amp_item m ! i = p"
    "array_map_pool_free key_cmp finalizer mem m k =
       Some (mem(p := finalizer (mem p)),
         m\<lparr>amp_item := take i (amp_item m) @ drop (Suc i) (take (unat (amp_len m)) (amp_item m)) @
                      p # drop (unat (amp_len m)) (amp_item m),
           amp_len := amp_len m - 1\<rparr>)"
  using inv k
proof (cases rule: amp_bsearch_cases)
  case (found i)
  let ?n = "unat (amp_len m)"
  have n: "?n \<le> length (amp_item m)" "?n < 2 ^ 32" using inv by (auto simp: amp_inv_def)
  have i: "amp_item m ! i = p" using amp_lookup_found [OF inv found(2,3)] p by simp
  have "unat (amp_len m - 1) = ?n - 1" using found(2) by (intro unat_pred) auto
  then have "uint (amp_len m - 1) = int (?n - 1)" by (simp only: uint_nat)
  then have "array_map_pool_free key_cmp finalizer mem m k =
       Some (mem(p := finalizer (mem p)),
         m\<lparr>amp_item := take i (amp_item m) @ drop (Suc i) (take ?n (amp_item m)) @ p # drop ?n (amp_item m),
           amp_len := amp_len m - 1\<rparr>)"
    using found(1) i amp_nth [OF inv found(2)] remove_at_index [OF found(2) n]
      amp_remove_items(1) [OF found(2) n(1)]
    by (simp add: array_map_pool_free_def)
  then show ?thesis using that found(2) i by blast
next
  case (absent i)
  then show ?thesis using amp_lookup_absent [OF absent(3,4)] p by simp
qed

lemma amp_free_present:
  assumes inv: "pinv mem m" and k: "k \<in> K" and p: "amp_lookup key_of mem m k = Some p"
  defines "mem' \<equiv> mem(p := finalizer (mem p))"
  shows "\<exists>m'. array_map_pool_free key_cmp finalizer mem m k = Some (mem', m') \<and> pinv mem' m' \<and>
    amp_lookup key_of mem' m' = (amp_lookup key_of mem m)(k := None) \<and>
    mset (amp_item m') = mset (amp_item m) \<and> amp_size m' = amp_size m"
proof -
  let ?n = "unat (amp_len m)"
  obtain i where i: "i < ?n" "amp_item m ! i = p"
    and run: "array_map_pool_free key_cmp finalizer mem m k = Some (mem',
      m\<lparr>amp_item := take i (amp_item m) @ drop (Suc i) (take ?n (amp_item m)) @ p # drop ?n (amp_item m),
        amp_len := amp_len m - 1\<rparr>)"
    using amp_free_run [OF inv k p] unfolding mem'_def by blast
  define m' where "m' = m\<lparr>amp_item := take i (amp_item m) @ drop (Suc i) (take ?n (amp_item m)) @
    p # drop ?n (amp_item m), amp_len := amp_len m - 1\<rparr>"
  have n: "?n \<le> length (amp_item m)" using inv by (simp add: amp_inv_def)
  have len: "unat (amp_len m - 1) = ?n - 1" using i(1) by (intro unat_pred) auto
  have items: "mset (amp_item m') = mset (amp_item m)"
    using amp_remove_items(2) [OF i(1) n] i(2) by (simp add: m'_def)
  have nth: "i < length (amp_entries m)" "amp_entries m ! i = p"
    using i length_amp_entries [OF inv] by (simp_all add: amp_entries_def)
  have split: "amp_entries m = take i (amp_entries m) @ p # drop (Suc i) (amp_entries m)"
    using id_take_nth_drop [OF nth(1)] by (simp only: nth(2))
  have ents: "amp_entries m' = take i (amp_entries m) @ drop (Suc i) (amp_entries m)"
    using i n len by (auto simp: amp_entries_def m'_def min_def intro!: arg_cong2 [where f = take])
  have "distinct (amp_entries m)" using inv by (simp add: amp_inv_def amp_entries_def)
  then have "distinct (take i (amp_entries m) @ p # drop (Suc i) (amp_entries m))"
    by (subst (asm) split)
  moreover have "set (amp_entries m) = set (take i (amp_entries m) @ p # drop (Suc i) (amp_entries m))"
    by (rule arg_cong [OF split])
  ultimately have set: "set (amp_entries m') = set (amp_entries m) - {p}"
    unfolding ents by auto
  have old: "mem' q = mem q" if "q \<in> set (amp_entries m')" for q
    using that set by (simp add: mem'_def)
  have "sorted_wrt (<) (map (\<lambda>q. key_of (mem q)) (amp_entries m'))"
    unfolding ents using inv i(1) length_amp_entries [OF inv]
    by (intro key_order.sorted_delete [OF order_in_memory]) (auto simp: amp_inv_def)
  then have sorted: "sorted_wrt (<) (map (\<lambda>q. key_of (mem' q)) (amp_entries m'))"
    using old by (simp cong: map_cong)
  have "\<forall>q \<in> set (amp_entries m'). key_of (mem' q) \<in> K"
    using inv set old by (auto simp: amp_inv_def)
  then have inv': "pinv mem' m'"
    using inv sorted len mset_eq_setD [OF items] mset_eq_length [OF items] mset_eq_imp_distinct_iff [OF items]
    by (simp add: amp_inv_def) (auto simp: m'_def)
  have "amp_lookup key_of mem' m' j = Some w \<longleftrightarrow> ((amp_lookup key_of mem m)(k := None)) j = Some w" for j w
    using amp_lookup_Some_iff [OF inv', of j w] amp_lookup_Some_iff [OF inv, of j w]
      amp_lookup_Some_iff [OF inv, of k w] amp_lookup_Some_iff [OF inv, of k p] set old p
    by (cases "w = p") auto
  then have "amp_lookup key_of mem' m' = (amp_lookup key_of mem m)(k := None)" by (rule map_eqI_Some)
  then show ?thesis using run inv' items by (auto simp: m'_def)
qed

end

section \<open>Reachable states\<close>

text \<open>
  The states of a pool on the buffer \<open>buf\<close>: initialisation, allocation, release, clearing, and
  writes of the client to the objects that leave their keys alone.
\<close>

inductive amp_reachable ::
    "('o \<Rightarrow> 'k::linorder \<Rightarrow> int) \<Rightarrow> ('o \<Rightarrow> 'k) \<Rightarrow> 'k set \<Rightarrow> ('o \<Rightarrow> 'k \<Rightarrow> 'o) \<Rightarrow> ('o \<Rightarrow> 'o) \<Rightarrow>
     'p::zero list \<Rightarrow> ('p \<Rightarrow> 'o) \<Rightarrow> 'p array_map_pool \<Rightarrow> bool"
  for key_cmp key_of K initializer finalizer buf where
  pool_init: "unat siz = length buf \<Longrightarrow>
    amp_reachable key_cmp key_of K initializer finalizer buf mem (ARRAY_MAP_POOL_INIT m buf siz)"
| pool_get: "amp_reachable key_cmp key_of K initializer finalizer buf mem m \<Longrightarrow> k \<in> K \<Longrightarrow>
    array_map_pool_get key_cmp initializer mem m k = Some (p, mem', m') \<Longrightarrow>
    amp_reachable key_cmp key_of K initializer finalizer buf mem' m'"
| pool_free: "amp_reachable key_cmp key_of K initializer finalizer buf mem m \<Longrightarrow> k \<in> K \<Longrightarrow>
    array_map_pool_free key_cmp finalizer mem m k = Some (mem', m') \<Longrightarrow>
    amp_reachable key_cmp key_of K initializer finalizer buf mem' m'"
| pool_clear: "amp_reachable key_cmp key_of K initializer finalizer buf mem m \<Longrightarrow>
    amp_reachable key_cmp key_of K initializer finalizer buf mem (ARRAY_MAP_POOL_CLEAR m)"
| pool_write: "amp_reachable key_cmp key_of K initializer finalizer buf mem m \<Longrightarrow>
    (\<And>q. key_of (mem' q) = key_of (mem q)) \<Longrightarrow>
    amp_reachable key_cmp key_of K initializer finalizer buf mem' m"

context pool_contract
begin

lemma amp_get_total:
  assumes inv: "pinv mem m" and k: "k \<in> K"
  obtains p mem' m' where "array_map_pool_get key_cmp initializer mem m k = Some (p, mem', m')"
    "pinv mem' m'" "mset (amp_item m') = mset (amp_item m)"
proof (cases "amp_lookup key_of mem m k")
  case None
  show ?thesis
  proof (cases "amp_len m = amp_size m")
    case True
    then show ?thesis using that amp_get_full [OF inv k None True] inv by blast
  next
    case False
    then show ?thesis using that amp_get_new [OF inv k None amp_room [OF inv False]] by blast
  qed
next
  case (Some p)
  then show ?thesis using that amp_get_existing [OF inv k Some] inv by blast
qed

lemma amp_free_total:
  assumes inv: "pinv mem m" and k: "k \<in> K"
  obtains mem' m' where "array_map_pool_free key_cmp finalizer mem m k = Some (mem', m')"
    "pinv mem' m'" "mset (amp_item m') = mset (amp_item m)"
  using that amp_free_absent [OF inv k] amp_free_present [OF inv k] inv
  by (cases "amp_lookup key_of mem m k") blast+

lemma amp_reachable_pinv:
  assumes "amp_reachable key_cmp key_of K initializer finalizer buf mem m"
    and "distinct buf" and "0 \<notin> set buf" and "length buf \<le> 2 ^ 30"
  shows "pinv mem m \<and> mset (amp_item m) = mset buf"
  using assms
proof (induction rule: amp_reachable.induct)
  case (pool_init siz mem m)
  then show ?case by (simp add: amp_inv_def amp_entries_def ARRAY_MAP_POOL_INIT_def)
next
  case (pool_get mem m k p mem' m')
  then show ?case using amp_get_total [of mem m k] by (metis Pair_inject option.inject)
next
  case (pool_free mem m k mem' m')
  then show ?case using amp_free_total [of mem m k] by (metis Pair_inject option.inject)
next
  case (pool_clear mem m)
  then show ?case by (simp add: amp_inv_def amp_entries_def ARRAY_MAP_POOL_CLEAR_def)
next
  case (pool_write mem m mem')
  then show ?case by (simp add: amp_inv_def)
qed

end

section \<open>Properties\<close>

text \<open>
  C31. \<open>ARRAY_MAP_POOL_GET\<close> on every branch. A key that is in the pool gives its object and
  changes nothing; an absent key in a full pool gives the null pointer and changes nothing;
  otherwise the first free object is initialised with the key and becomes the object of that
  key, the other allocations and the buffer's set of objects staying as they were.
\<close>

theorem amp_get_spec:
  assumes "pool_contract key_cmp key_of K initializer" and "amp_inv key_of K mem m" and "k \<in> K"
  shows "case amp_lookup key_of mem m k of
      Some p \<Rightarrow> array_map_pool_get key_cmp initializer mem m k = Some (p, mem, m)
    | None \<Rightarrow>
        if amp_len m = amp_size m
        then array_map_pool_get key_cmp initializer mem m k = Some (0, mem, m)
        else \<exists>p m'. p = amp_item m ! unat (amp_len m) \<and> p \<notin> set (amp_entries m) \<and>
          array_map_pool_get key_cmp initializer mem m k =
            Some (p, mem(p := initializer (mem p) k), m') \<and>
          amp_inv key_of K (mem(p := initializer (mem p) k)) m' \<and>
          amp_lookup key_of (mem(p := initializer (mem p) k)) m' =
            (amp_lookup key_of mem m)(k \<mapsto> p) \<and>
          mset (amp_item m') = mset (amp_item m)"
proof -
  note room = amp_room [OF assms(2)]
  show ?thesis
    using pool_contract.amp_get_existing [OF assms] pool_contract.amp_get_full [OF assms]
      pool_contract.amp_get_new [OF assms _ room] pool_contract.amp_fresh(1) [OF assms(1,2) room]
    by (auto split: option.splits)
qed

theorem amp_get_spec_witness:
  "\<exists>p mem' m'. array_map_pool_get A_ITEM_MAP_POOL_KEY_CMP A_ITEM_MAP_POOL_INITIALIZER
       (\<lambda>_ :: nat. \<lparr>key = 1, val = 0\<rparr>) \<lparr>amp_item = [10, 20, 30], amp_size = 3, amp_len = 1\<rparr> 5 =
       Some (p, mem', m') \<and>
     p = 20 \<and> amp_lookup key mem' m' 5 = Some 20 \<and> mset (amp_item m') = mset [10, 20, 30]"
proof -
  let ?m = "\<lparr>amp_item = [10, 20, 30 :: nat], amp_size = 3, amp_len = 1\<rparr>"
  let ?mem = "\<lambda>_ :: nat. \<lparr>key = 1, val = 0\<rparr>"
  have inv: "amp_inv key safe_keys ?mem ?m" and l: "amp_lookup key ?mem ?m 5 = None"
    and k: "5 \<in> safe_keys"
    by (simp_all add: amp_inv_def amp_lookup_def amp_entries_def safe_keys_def)
  show ?thesis
    using amp_get_spec [OF item_pool.pool_contract_axioms inv k] l by auto
qed

text \<open>
  C32. \<open>ARRAY_MAP_POOL_FREE\<close> on every branch. An absent key changes nothing; otherwise the
  object of the key is finalized and returned to the free part of the buffer, the key becomes
  absent, the other allocations stay, and no object is lost or duplicated.
\<close>

theorem amp_free_spec:
  assumes "pool_contract key_cmp key_of K initializer" and "amp_inv key_of K mem m" and "k \<in> K"
  shows "case amp_lookup key_of mem m k of
      None \<Rightarrow> array_map_pool_free key_cmp finalizer mem m k = Some (mem, m)
    | Some p \<Rightarrow> \<exists>m'. array_map_pool_free key_cmp finalizer mem m k =
          Some (mem(p := finalizer (mem p)), m') \<and>
        amp_inv key_of K (mem(p := finalizer (mem p))) m' \<and>
        amp_lookup key_of (mem(p := finalizer (mem p))) m' = (amp_lookup key_of mem m)(k := None) \<and>
        mset (amp_item m') = mset (amp_item m)"
  using pool_contract.amp_free_absent [OF assms, of finalizer]
    pool_contract.amp_free_present [OF assms, of _ finalizer]
  by (auto split: option.splits)

theorem amp_free_spec_witness:
  "\<exists>mem' m'. array_map_pool_free A_ITEM_MAP_POOL_KEY_CMP A_ITEM_MAP_POOL_FINALIZER
       (\<lambda>p :: nat. \<lparr>key = int p, val = 0\<rparr>) \<lparr>amp_item = [10, 20, 30], amp_size = 3, amp_len = 2\<rparr> 10 =
       Some (mem', m') \<and>
     amp_lookup key mem' m' 10 = None \<and> mset (amp_item m') = mset [10, 20, 30]"
proof -
  let ?m = "\<lparr>amp_item = [10, 20, 30 :: nat], amp_size = 3, amp_len = 2\<rparr>"
  let ?mem = "\<lambda>p :: nat. \<lparr>key = int p, val = 0\<rparr>"
  have inv: "amp_inv key safe_keys ?mem ?m" and l: "amp_lookup key ?mem ?m 10 = Some 10"
    and k: "10 \<in> safe_keys"
    by (simp_all add: amp_inv_def amp_lookup_def amp_entries_def safe_keys_def)
  show ?thesis
    using amp_free_spec [OF item_pool.pool_contract_axioms inv k, of A_ITEM_MAP_POOL_FINALIZER] l by auto
qed

text \<open>
  C29. Over every history of allocations, releases, clearings and client writes, the buffer
  remains a permutation of the objects, at most \<open>2 ^ 30\<close>, it was initialised with, so that none is lost or
  handed out twice, and no further operation has undefined behaviour.
\<close>

theorem amp_reachable_conserves_objects:
  assumes "pool_contract key_cmp key_of K initializer"
    and "amp_reachable key_cmp key_of K initializer finalizer buf mem m"
    and "distinct buf" and "0 \<notin> set buf" and "length buf \<le> 2 ^ 30"
  shows "mset (amp_item m) = mset buf \<and> distinct (amp_item m) \<and>
    (\<forall>k. k \<in> K \<longrightarrow> array_map_pool_get key_cmp initializer mem m k \<noteq> None \<and>
      array_map_pool_free key_cmp finalizer mem m k \<noteq> None \<and> array_map_pool_find key_cmp mem m k \<noteq> None)"
proof -
  have inv: "amp_inv key_of K mem m" and buf: "mset (amp_item m) = mset buf"
    using pool_contract.amp_reachable_pinv [OF assms] by auto
  have "array_map_pool_get key_cmp initializer mem m k \<noteq> None \<and>
      array_map_pool_free key_cmp finalizer mem m k \<noteq> None \<and> array_map_pool_find key_cmp mem m k \<noteq> None"
    if "k \<in> K" for k
    using pool_contract.amp_get_total [OF assms(1) inv that]
      pool_contract.amp_free_total [OF assms(1) inv that, of finalizer]
      pool_contract.amp_find_correct [OF assms(1) inv that]
    by (metis option.distinct(1))
  then show ?thesis using inv buf by (simp add: amp_inv_def)
qed

theorem amp_reachable_conserves_objects_witness:
  "\<exists>mem' m'. amp_reachable A_ITEM_MAP_POOL_KEY_CMP key safe_keys A_ITEM_MAP_POOL_INITIALIZER
      A_ITEM_MAP_POOL_FINALIZER [10, 20 :: nat] mem' m' \<and> amp_lookup key mem' m' 5 = Some 10 \<and>
     mset (amp_item m') = mset [10, 20]"
proof -
  let ?m = "ARRAY_MAP_POOL_INIT undefined [10, 20 :: nat] 2"
  let ?mem = "\<lambda>p :: nat. \<lparr>key = int p, val = 0\<rparr>"
  have r: "amp_reachable A_ITEM_MAP_POOL_KEY_CMP key safe_keys A_ITEM_MAP_POOL_INITIALIZER
      A_ITEM_MAP_POOL_FINALIZER [10, 20 :: nat] ?mem ?m"
    by (rule pool_init) simp
  have inv: "amp_inv key safe_keys ?mem ?m" and l: "amp_lookup key ?mem ?m = Map.empty"
    and k: "5 \<in> safe_keys" and n: "amp_item ?m ! 0 = 10" "amp_len ?m = 0" "amp_size ?m = 2"
    by (auto simp: amp_inv_def amp_lookup_def amp_entries_def safe_keys_def ARRAY_MAP_POOL_INIT_def)
  obtain mem' m' where g: "array_map_pool_get A_ITEM_MAP_POOL_KEY_CMP A_ITEM_MAP_POOL_INITIALIZER ?mem ?m 5 =
      Some (10, mem', m')" "amp_lookup key mem' m' 5 = Some 10"
    using item_pool.amp_get_new [OF inv k] l n by auto
  have "amp_reachable A_ITEM_MAP_POOL_KEY_CMP key safe_keys A_ITEM_MAP_POOL_INITIALIZER
      A_ITEM_MAP_POOL_FINALIZER [10, 20] mem' m'"
    by (rule pool_get [OF r k g(1)])
  then show ?thesis
    using amp_reachable_conserves_objects [OF item_pool.pool_contract_axioms] g(2) by fastforce
qed

text \<open>
  \<open>ARRAY_MAP_POOL_FIND\<close> is the lookup: it returns the object allocated for the key and
  the null pointer for an absent key; in particular two keys never share an object.
\<close>

theorem amp_find_spec:
  assumes "pool_contract key_cmp key_of K initializer" and "amp_inv key_of K mem m"
    and "k \<in> K" and "k' \<in> K"
  shows "array_map_pool_find key_cmp mem m k =
      Some (case amp_lookup key_of mem m k of None \<Rightarrow> 0 | Some p \<Rightarrow> p) \<and>
    (array_map_pool_find key_cmp mem m k = Some 0 \<longleftrightarrow> amp_lookup key_of mem m k = None) \<and>
    (array_map_pool_find key_cmp mem m k = array_map_pool_find key_cmp mem m k' \<and>
     array_map_pool_find key_cmp mem m k \<noteq> Some 0 \<longrightarrow> k = k')"
proof -
  note find = pool_contract.amp_find_correct [OF assms(1,2)]
  note iff = pool_contract.amp_lookup_Some_iff [OF assms(1,2)]
  have nz: "p \<noteq> 0" if "amp_lookup key_of mem m j = Some p" for j p
    using that iff [of j p] amp_entries_subset [of m] assms(2) by (auto simp: amp_inv_def)
  show ?thesis
  proof (cases "amp_lookup key_of mem m k")
    case None
    then show ?thesis using find [OF assms(3)] by simp
  next
    case (Some p)
    have "k = k'" if "array_map_pool_find key_cmp mem m k' = Some p"
      using that find [OF assms(4)] nz [OF Some] Some iff [of k p] iff [of k' p]
      by (cases "amp_lookup key_of mem m k'") auto
    then show ?thesis using find [OF assms(3)] Some nz [OF Some] by auto
  qed
qed

theorem amp_find_spec_witness:
  "array_map_pool_find A_ITEM_MAP_POOL_KEY_CMP (\<lambda>p :: nat. \<lparr>key = int p, val = 0\<rparr>)
     \<lparr>amp_item = [10, 20, 30], amp_size = 3, amp_len = 2\<rparr> 30 = Some 0"
proof -
  let ?m = "\<lparr>amp_item = [10, 20, 30 :: nat], amp_size = 3, amp_len = 2\<rparr>"
  let ?mem = "\<lambda>p :: nat. \<lparr>key = int p, val = 0\<rparr>"
  have inv: "amp_inv key safe_keys ?mem ?m" and l: "amp_lookup key ?mem ?m 30 = None"
    and k: "30 \<in> safe_keys"
    by (simp_all add: amp_inv_def amp_lookup_def amp_entries_def safe_keys_def)
  show ?thesis using amp_find_spec [OF item_pool.pool_contract_axioms inv k k] l by simp
qed

end
