(* ===== verification/Array_Map_Tests.thy ===== *)
theory Array_Map_Tests
  imports Array_Map_Pool Test_Outcome
begin

text \<open>
  The test program \<open>array_utils/test_array_map.c\<close>: three tests of the object pool and three of the
  map, on the operations of \<open>Array_Map_Pool\<close> and \<open>Array_Map\<close> with the client macros of the file.
  The global variables are arguments, with arbitrary contents, and a test returns what it leaves
  in them.
\<close>

section \<open>The tests of the pool\<close>

text \<open>
  A pool test runs on the addresses \<open>item_buf i\<close> of the elements of the array \<open>item_buf\<close>, on the
  memory and on the pool.
\<close>

type_synonym 'p A_ITEM_POOL = "'p array_map_pool"

abbreviation item_pool_bsearch where
  "item_pool_bsearch \<equiv> array_map_pool_bsearch A_ITEM_MAP_POOL_KEY_CMP"

abbreviation item_pool_get where
  "item_pool_get \<equiv> array_map_pool_get A_ITEM_MAP_POOL_KEY_CMP A_ITEM_MAP_POOL_INITIALIZER"

abbreviation item_pool_free where
  "item_pool_free \<equiv> array_map_pool_free A_ITEM_MAP_POOL_KEY_CMP A_ITEM_MAP_POOL_FINALIZER"

definition item_pool_get_item_at :: "'p A_ITEM_POOL \<Rightarrow> int \<Rightarrow> 'p outcome option" where
  "item_pool_get_item_at pool index =
    passed (Some (assert_in_range index 0 (uint (amp_len pool - 1)))) (\<lambda>_.
      map_option Passed (c_nth (amp_item pool) index))"

definition item_pool_init :: "(nat \<Rightarrow> 'p) \<Rightarrow> 'p A_ITEM_POOL \<Rightarrow> 'p A_ITEM_POOL" where
  "item_pool_init item_buf pool = ARRAY_MAP_POOL_INIT pool (map item_buf [0..<ITEM_BUF_NUM]) (word_of_nat ITEM_BUF_NUM)"

text \<open>One search of the tests, with the result and the index it expects.\<close>

definition expect_search :: "(bool \<times> int) option \<Rightarrow> bool \<Rightarrow> int \<Rightarrow> unit outcome option" where
  "expect_search search found expected = do {
    (f, index) \<leftarrow> search;
    passed (Some (if found then assert_true f else assert_false f)) (\<lambda>_. Some (assert_int_equal index expected))
  }"

definition test_array_map_pool_bsearch ::
    "(nat \<Rightarrow> 'p) \<Rightarrow> ('p \<Rightarrow> A_ITEM) \<Rightarrow> 'p A_ITEM_POOL \<Rightarrow> unit outcome option" where
  "test_array_map_pool_bsearch test_buf mem test_pool =
    (let mem = mem(test_buf 0 := \<lparr>key = 2, val = 0\<rparr>, test_buf 1 := \<lparr>key = 4, val = 0\<rparr>,
           test_buf 2 := \<lparr>key = 6, val = 0\<rparr>, test_buf 3 := \<lparr>key = 8, val = 0\<rparr>);
         test_item = map test_buf [0..<4];
         test_pool = ARRAY_MAP_POOL_INIT test_pool test_item 4 in
     passed (expect_search (item_pool_bsearch mem test_pool 2) False 0) (\<lambda>_.
     let test_pool = test_pool\<lparr>amp_len := 4\<rparr> in
     passed (for_each [0..<4] (\<lambda>i _.
       expect_search (item_pool_bsearch mem test_pool ((int i + 1) * 2)) True (int i)) ()) (\<lambda>_.
     for_each (zip [1, 3, 5, 7, 9] [0, 1, 2, 3, 4]) (\<lambda>(k, index) _.
       expect_search (item_pool_bsearch mem test_pool k) False index) ())))"

text \<open>The loop over \<open>td[i].data\<close> that compares the keys of the first \<open>len\<close> objects.\<close>

definition compare_pool_keys :: "nat \<Rightarrow> int list \<Rightarrow> ('p \<Rightarrow> A_ITEM) \<Rightarrow> 'p A_ITEM_POOL \<Rightarrow> unit outcome option" where
  "compare_pool_keys len expected mem pool = compare_elements len expected (item_pool_get_item_at pool) (\<lambda>p. key (mem p))"

text \<open>The array \<open>td\<close> of a test has the members \<open>insert\<close> or \<open>remove\<close>, \<open>len\<close> and \<open>data\<close>.\<close>

definition get_test_data :: "(int \<times> nat \<times> int list) list" where
  "get_test_data = [(3, 1, [3, 0, 0, 0]), (1, 2, [1, 3, 0, 0]), (4, 3, [1, 3, 4, 0]), (2, 4, [1, 2, 3, 4])]"

definition test_array_map_pool_get ::
    "(nat \<Rightarrow> 'p::zero) \<Rightarrow> ('p \<Rightarrow> A_ITEM) \<Rightarrow> 'p A_ITEM_POOL \<Rightarrow> (('p \<Rightarrow> A_ITEM) \<times> 'p A_ITEM_POOL) outcome option" where
  "test_array_map_pool_get item_buf mem pool =
    passed (for_each [0..<ITEM_BUF_NUM] (\<lambda>i (mem, pool). do {
      (k, len, expected) \<leftarrow> c_nth get_test_data (int i);
      (item, mem, pool) \<leftarrow> item_pool_get mem pool k;
      passed (Some (assert_true (item \<noteq> 0))) (\<lambda>_.
      passed (Some (assert_int_equal (int len) (int i + 1))) (\<lambda>_.
      passed (compare_pool_keys len expected mem pool) (\<lambda>_. Some (Passed (mem, pool)))))
    }) (mem, item_pool_init item_buf pool)) (\<lambda>(mem, pool). do {
    (item, mem, pool) \<leftarrow> item_pool_get mem pool 1;
    passed (Some (assert_true (item \<noteq> 0))) (\<lambda>_. do {
      (item, mem, pool) \<leftarrow> item_pool_get mem pool 5;
      passed (Some (assert_true (item = 0))) (\<lambda>_. Some (Passed (mem, pool)))
    })
  })"

text \<open>
  The comparator of \<open>qsort\<close> subtracts two addresses as \<open>intptr_t\<close> and converts the difference to
  \<open>int\<close>; \<open>intptr\<close> is the conversion of a pointer to \<open>intptr_t\<close>.
\<close>

definition item_ptr_cmp :: "('p \<Rightarrow> int) \<Rightarrow> 'p \<Rightarrow> 'p \<Rightarrow> int option" where
  "item_ptr_cmp intptr a b = Some (sint (word_of_int (intptr a - intptr b) :: 32 word))"

definition free_test_data :: "(int \<times> nat \<times> int list) list" where
  "free_test_data = [(5, 4, [1, 2, 3, 4]), (3, 3, [1, 2, 4, 0]), (1, 2, [2, 4, 0, 0]), (4, 1, [2, 0, 0, 0]),
    (2, 0, [0, 0, 0, 0])]"

definition test_array_map_pool_free ::
    "('p::zero \<Rightarrow> int) \<Rightarrow> (nat \<Rightarrow> 'p) \<Rightarrow> ('p \<Rightarrow> A_ITEM) \<Rightarrow> 'p A_ITEM_POOL \<Rightarrow>
     (('p \<Rightarrow> A_ITEM) \<times> 'p A_ITEM_POOL) outcome option" where
  "test_array_map_pool_free intptr item_buf mem pool =
    passed (for_each [0..<ITEM_BUF_NUM] (\<lambda>i (mem, pool). do {
      (_, mem, pool) \<leftarrow> item_pool_get mem pool (int i + 1);
      Some (Passed (mem, pool))
    }) (mem, item_pool_init item_buf pool)) (\<lambda>(mem, pool).
    passed (for_each free_test_data (\<lambda>(remove, len, expected) (mem, pool). do {
      (mem, pool) \<leftarrow> item_pool_free mem pool remove;
      passed (Some (assert_int_equal (uint (amp_len pool)) (int len))) (\<lambda>_.
      passed (compare_pool_keys len expected mem pool) (\<lambda>_. Some (Passed (mem, pool))))
    }) (mem, pool)) (\<lambda>(mem, pool). do {
    item_ptr \<leftarrow> those (map (\<lambda>i. c_nth (amp_item pool) (int i)) [0..<ITEM_BUF_NUM]);
    item_ptr \<leftarrow> qsort (item_ptr_cmp intptr) item_ptr;
    passed (for_each [0..<ITEM_BUF_NUM] (\<lambda>i _. do {
      p \<leftarrow> c_nth item_ptr (int i);
      Some (assert_true (p = item_buf i))
    }) ()) (\<lambda>_. Some (Passed (mem, pool)))
  }))"

section \<open>The tests of the map\<close>

type_synonym A_ITEM_MAP = "A_ITEM array_map"

abbreviation item_map_bsearch where "item_map_bsearch \<equiv> array_map_bsearch A_ITEM_MAP_KEY_CMP"
abbreviation item_map_insert where "item_map_insert \<equiv> array_map_insert A_ITEM_MAP_KEY_CMP"
abbreviation item_map_remove where "item_map_remove \<equiv> array_map_remove A_ITEM_MAP_KEY_CMP"
abbreviation item_map_find where "item_map_find \<equiv> array_map_find A_ITEM_MAP_KEY_CMP"

definition item_map_get_item_at :: "A_ITEM_MAP \<Rightarrow> int \<Rightarrow> A_ITEM outcome option" where
  "item_map_get_item_at m index =
    passed (Some (assert_in_range index 0 (uint (am_len m - 1)))) (\<lambda>_.
      map_option Passed (c_nth (am_item m) index))"

definition item_map_init :: "A_ITEM list \<Rightarrow> A_ITEM_MAP \<Rightarrow> A_ITEM_MAP" where
  "item_map_init item_map_buf m = ARRAY_MAP_INIT m item_map_buf (word_of_nat ITEM_BUF_NUM)"

definition test_array_map_bsearch :: "A_ITEM_MAP \<Rightarrow> unit outcome option" where
  "test_array_map_bsearch test_map =
    (let test_buf = [\<lparr>key = 2, val = 0\<rparr>, \<lparr>key = 4, val = 0\<rparr>, \<lparr>key = 6, val = 0\<rparr>, \<lparr>key = 8, val = 0\<rparr>];
         test_map = ARRAY_MAP_INIT test_map test_buf 4 in
     passed (expect_search (item_map_bsearch test_map 2) False 0) (\<lambda>_.
     let test_map = test_map\<lparr>am_len := 4\<rparr> in
     passed (for_each [0..<4] (\<lambda>i _.
       expect_search (item_map_bsearch test_map ((int i + 1) * 2)) True (int i)) ()) (\<lambda>_.
     for_each (zip [1, 3, 5, 7, 9] [0, 1, 2, 3, 4]) (\<lambda>(k, index) _.
       expect_search (item_map_bsearch test_map k) False index) ())))"

definition compare_map_keys :: "nat \<Rightarrow> int list \<Rightarrow> A_ITEM_MAP \<Rightarrow> unit outcome option" where
  "compare_map_keys len expected m = compare_elements len expected (item_map_get_item_at m) key"

definition insert_test_data :: "(A_ITEM \<times> nat \<times> int list) list" where
  "insert_test_data = [(\<lparr>key = 3, val = 1\<rparr>, 1, [3, 0, 0, 0]), (\<lparr>key = 1, val = 2\<rparr>, 2, [1, 3, 0, 0]),
    (\<lparr>key = 4, val = 3\<rparr>, 3, [1, 3, 4, 0]), (\<lparr>key = 2, val = 4\<rparr>, 4, [1, 2, 3, 4])]"

text \<open>\<open>item2\<close> is the indeterminate value of the local variable that the lookup fills in.\<close>

definition test_array_map_insert :: "A_ITEM \<Rightarrow> A_ITEM list \<Rightarrow> A_ITEM_MAP \<Rightarrow> A_ITEM_MAP outcome option" where
  "test_array_map_insert item2 item_map_buf m =
    passed (for_each [0..<ITEM_BUF_NUM] (\<lambda>i m. do {
      (item, len, expected) \<leftarrow> c_nth insert_test_data (int i);
      (inserted, m) \<leftarrow> item_map_insert m (key item) item;
      passed (Some (assert_true inserted)) (\<lambda>_.
      passed (Some (assert_int_equal (int len) (int i + 1))) (\<lambda>_.
      passed (compare_map_keys len expected m) (\<lambda>_. Some (Passed m))))
    }) (item_map_init item_map_buf m)) (\<lambda>m. do {
    let item = \<lparr>key = 1, val = 5\<rparr>;
    (inserted, m) \<leftarrow> item_map_insert m (key item) item;
    passed (Some (assert_false inserted)) (\<lambda>_. do {
      (found, item2) \<leftarrow> item_map_find m (key item) item2;
      passed (Some (assert_true found)) (\<lambda>_.
      passed (Some (assert_true (val item \<noteq> val item2))) (\<lambda>_. do {
        let item = \<lparr>key = 5, val = 5\<rparr>;
        (inserted, m) \<leftarrow> item_map_insert m (key item) item;
        passed (Some (assert_false inserted)) (\<lambda>_. Some (Passed m))
      }))
    })
  })"

definition test_array_map_remove :: "A_ITEM list \<Rightarrow> A_ITEM_MAP \<Rightarrow> A_ITEM_MAP outcome option" where
  "test_array_map_remove item_map_buf m =
    passed (for_each [0..<ITEM_BUF_NUM] (\<lambda>i m. do {
      let item = \<lparr>key = int i + 1, val = int i + 1\<rparr>;
      (inserted, m) \<leftarrow> item_map_insert m (key item) item;
      passed (Some (assert_true inserted)) (\<lambda>_. Some (Passed m))
    }) (item_map_init item_map_buf m)) (\<lambda>m.
    for_each free_test_data (\<lambda>(remove, len, expected) m. do {
      m \<leftarrow> item_map_remove m remove;
      passed (Some (assert_int_equal (uint (am_len m)) (int len))) (\<lambda>_.
      passed (compare_map_keys len expected m) (\<lambda>_. Some (Passed m)))
    }) m)"

section \<open>Evaluation\<close>

lemma test_loops:
  "[0..<0] = []" "[0..<1] = [0]" "[0..<2] = [0, 1]" "[0..<3] = [0, 1, 2]" "[0..<4] = [0, 1, 2, 3 :: nat]"
  by (simp_all add: upt_rec)

lemma four_not_le_one: "\<not> 4 \<le> (1 :: 32 word)"
  by (simp add: word_le_nat_alt)

lemma item_ptr_cmp_sub: "item_ptr_cmp intptr a b = Some (c_sub_wrap (intptr a) (intptr b))"
  by (simp add: item_ptr_cmp_def c_sub_wrap_def)

lemmas test_eval = expect_search_def c_nth_def c_upd_def c_int_def INT_MIN_def INT_MAX_def ITEM_BUF_NUM_def
  test_loops test_loops [unfolded One_nat_def] compare_elements_def assert_defs to_largest_unsigned_def c_sub_wrap_exact sdiv_two_nonneg four_not_le_one
  bsearch_loop.simps shift_up.simps shift_down.simps

lemmas map_eval = array_map_bsearch_def array_map_insert_def array_map_remove_def array_map_find_def
  ARRAY_MAP_INIT_def A_ITEM_MAP_KEY_CMP_def item_map_get_item_at_def item_map_init_def compare_map_keys_def
  test_eval

lemmas pool_eval = array_map_pool_bsearch_def array_map_pool_get_def array_map_pool_free_def
  ARRAY_MAP_POOL_INIT_def A_ITEM_MAP_POOL_KEY_CMP_def A_ITEM_MAP_POOL_INITIALIZER_def
  A_ITEM_MAP_POOL_FINALIZER_def item_pool_get_item_at_def item_pool_init_def compare_pool_keys_def test_eval

lemma test_array_map_bsearch_passes: "test_array_map_bsearch m = Some (Passed ())"
  by (simp add: test_array_map_bsearch_def map_eval)

lemma test_array_map_insert_passes: "\<exists>m'. test_array_map_insert item [a, b, c, d] m = Some (Passed m')"
  by (simp add: test_array_map_insert_def insert_test_data_def map_eval)

lemma test_array_map_remove_passes: "\<exists>m'. test_array_map_remove [a, b, c, d] m = Some (Passed m')"
  by (simp add: test_array_map_remove_def free_test_data_def map_eval)

text \<open>The four objects of the pool tests.\<close>

definition objects :: "(nat \<Rightarrow> 'p::zero) \<Rightarrow> 'p \<Rightarrow> 'p \<Rightarrow> 'p \<Rightarrow> 'p \<Rightarrow> bool" where
  "objects item_buf a b c d \<longleftrightarrow> item_buf 0 = a \<and> item_buf 1 = b \<and> item_buf 2 = c \<and> item_buf 3 = d \<and>
    distinct [a, b, c, d, 0]"

lemma objects_exist:
  assumes "distinct (map item_buf [0..<ITEM_BUF_NUM])" and "0 \<notin> set (map item_buf [0..<ITEM_BUF_NUM])"
  shows "objects item_buf (item_buf 0) (item_buf 1) (item_buf 2) (item_buf 3)"
  using assms by (auto simp: objects_def test_loops ITEM_BUF_NUM_def)

lemma objects_distinct: "objects item_buf a b c d \<Longrightarrow> distinct [d, c, b, a]"
  by (auto simp: objects_def)

lemma test_array_map_pool_bsearch_passes:
  assumes "objects test_buf a b c d"
  shows "test_array_map_pool_bsearch test_buf mem pool = Some (Passed ())"
  using assms by (simp add: objects_def test_array_map_pool_bsearch_def pool_eval)

lemma test_array_map_pool_get_passes:
  assumes "objects item_buf a b c d"
  shows "\<exists>s. test_array_map_pool_get item_buf mem pool = Some (Passed s)"
  using assms by (simp add: objects_def test_array_map_pool_get_def get_test_data_def pool_eval)

lemma test_array_map_pool_free_passes:
  assumes "objects item_buf a b c d"
    and "intptr b = intptr a + 8" and "intptr c = intptr a + 16" and "intptr d = intptr a + 24"
  shows "\<exists>s. test_array_map_pool_free intptr item_buf mem pool = Some (Passed s)"
  using assms objects_distinct [OF assms(1)]
  by (simp add: objects_def test_array_map_pool_free_def free_test_data_def item_ptr_cmp_sub pool_eval)

section \<open>What the checks decide\<close>

text \<open>Accessors of an array of which the first \<open>len\<close> elements are in use.\<close>

lemma range_check_decides:
  fixes len :: "32 word"
  assumes "len \<noteq> 0" and "unat len \<le> length xs" and "int i \<le> INT_MAX"
  shows "passed (Some (assert_in_range (int i) 0 (uint (len - 1)))) (\<lambda>_. map_option Passed (c_nth xs (int i))) =
    Some (if i < length (take (unat len) xs) then Passed (take (unat len) xs ! i) else Failed)"
proof -
  have "unat (len - 1) = unat len - 1" using assms(1) by (intro unat_pred) auto
  moreover have "0 < unat len" using assms(1) by (simp add: unat_pos_iff)
  ultimately have "int (unat (len - 1)) = int (unat len) - 1" by linarith
  then have len: "uint (len - 1) = int (unat len) - 1" unfolding uint_nat .
  have "unat len < 2 ^ 32" using unsigned_less [of len, where 'a = nat] by simp
  then have big: "int (unat len) - 1 < 2 ^ 64" by (simp del: of_nat_unat)
  show ?thesis
  proof (cases "i < unat len")
    case True
    then have "assert_in_range (int i) 0 (int (unat len) - 1) = Passed ()"
      using big by (intro assert_in_range_below) (simp_all del: of_nat_unat)
    then show ?thesis using True assms(2) by (simp add: len c_nth_of_nat del: of_nat_unat)
  next
    case False
    then have "assert_in_range (int i) 0 (int (unat len) - 1) = Failed"
      using \<open>0 < unat len\<close> assms(3) by (intro assert_in_range_above) (simp_all add: INT_MAX_def del: of_nat_unat)
    then show ?thesis using False by (simp add: len del: of_nat_unat)
  qed
qed

lemma compare_map_keys_decides:
  assumes "am_inv key K m" and "n = 0 \<or> am_entries m \<noteq> []" and "n \<le> length expected" and "int n \<le> INT_MAX"
  shows "compare_map_keys n expected m =
    Some (if take n (map key (am_entries m)) = take n expected then Passed () else Failed)"
  unfolding compare_map_keys_def
proof (rule compare_elements_decides [OF assms(3)])
  fix i assume "i < n"
  then have "am_len m \<noteq> 0" "int i \<le> INT_MAX" using assms(2,4) by (auto simp: am_entries_def)
  then show "item_map_get_item_at m (int i) = Some (if i < length (am_entries m) then Passed (am_entries m ! i) else Failed)"
    using range_check_decides [of "am_len m" "am_item m" i] assms(1)
    by (simp add: item_map_get_item_at_def am_entries_def am_inv_def)
qed

lemma compare_pool_keys_decides:
  assumes "amp_inv key K mem pool" and "n = 0 \<or> amp_entries pool \<noteq> []" and "n \<le> length expected" and "int n \<le> INT_MAX"
  shows "compare_pool_keys n expected mem pool =
    Some (if take n (map (\<lambda>p. key (mem p)) (amp_entries pool)) = take n expected then Passed () else Failed)"
  unfolding compare_pool_keys_def
proof (rule compare_elements_decides [OF assms(3)])
  fix i assume "i < n"
  then have "amp_len pool \<noteq> 0" "int i \<le> INT_MAX" using assms(2,4) by (auto simp: amp_entries_def)
  then show "item_pool_get_item_at pool (int i) =
      Some (if i < length (amp_entries pool) then Passed (amp_entries pool ! i) else Failed)"
    using range_check_decides [of "amp_len pool" "amp_item pool" i] assms(1)
    by (simp add: item_pool_get_item_at_def amp_entries_def amp_inv_def)
qed

text \<open>The index of a search is the number of the smaller keys, whether the key is there or not.\<close>

lemma rank_at:
  assumes "\<forall>x\<in>set (take i ks). x < k" and "\<forall>x\<in>set (drop i ks). k \<le> (x :: int)" and "i \<le> length ks"
  shows "length (filter (\<lambda>x. x < k) ks) = i"
proof -
  have "filter (\<lambda>x. x < k) (take i ks @ drop i ks) = take i ks"
    unfolding filter_append using assms(1,2) by (simp add: filter_id_conv filter_empty_conv not_less)
  then show ?thesis using assms(3) by (metis append_take_drop_id length_take min.absorb2)
qed

lemma rank_of_member:
  fixes ks :: "int list"
  assumes "sorted_wrt (<) ks" and "i < length ks"
  shows "length (filter (\<lambda>x. x < ks ! i) ks) = i"
proof (rule rank_at)
  show "\<forall>x\<in>set (take i ks). x < ks ! i"
    using assms by (auto simp: in_set_conv_nth sorted_wrt_iff_nth_less)
  show "\<forall>x\<in>set (drop i ks). ks ! i \<le> x"
  proof
    fix x assume "x \<in> set (drop i ks)"
    then obtain j where "x = ks ! (i + j)" "i + j < length ks" by (auto simp: in_set_conv_nth)
    then show "ks ! i \<le> x" using assms by (cases j) (auto simp: sorted_wrt_iff_nth_less less_imp_le)
  qed
qed (use assms(2) in simp)

lemma expect_search_decides:
  assumes "search = Some (f, index)"
  shows "expect_search search found expected = Some (if found = f \<and> expected = index then Passed () else Failed)"
  using assms by (auto simp: expect_search_def assert_defs)

lemma map_search_rank:
  assumes "am_inv key safe_keys m" and "k \<in> safe_keys"
  shows "item_map_bsearch m k =
    Some (k \<in> key ` set (am_entries m), int (length (filter (\<lambda>j. j < k) (map key (am_entries m)))))"
  using assms
proof (cases rule: item_order.am_bsearch_cases)
  case (found i)
  moreover have i: "i < length (am_entries m)" using found(2) length_am_entries [OF assms(1)] by simp
  moreover have "k \<in> key ` set (am_entries m)" using i found(3) by (metis image_eqI nth_mem)
  moreover have "length (filter (\<lambda>j. j < map key (am_entries m) ! i) (map key (am_entries m))) = i"
    using assms(1) i by (intro rank_of_member) (simp_all add: am_inv_def)
  ultimately show ?thesis by simp
next
  case (absent i)
  have "length (filter (\<lambda>j. j < k) (map key (am_entries m))) = i"
    using absent(2-4) length_am_entries [OF assms(1)]
    by (intro rank_at) (auto simp: take_map drop_map)
  moreover have "k \<notin> key ` set (am_entries m)"
    using absent(3,4) by (subst append_take_drop_id [of i, symmetric], unfold set_append) auto
  ultimately show ?thesis using absent(1) by simp
qed

lemma pool_search_rank:
  assumes "amp_inv key safe_keys mem pool" and "k \<in> safe_keys"
  shows "item_pool_bsearch mem pool k = Some (k \<in> (\<lambda>p. key (mem p)) ` set (amp_entries pool),
    int (length (filter (\<lambda>j. j < k) (map (\<lambda>p. key (mem p)) (amp_entries pool)))))"
  using assms
proof (cases rule: item_pool.amp_bsearch_cases)
  case (found i)
  have len: "i < length (amp_entries pool)" "amp_entries pool ! i = amp_item pool ! i"
    using found(2) assms(1) by (auto simp: amp_entries_def amp_inv_def)
  have "length (filter (\<lambda>j. j < map (\<lambda>p. key (mem p)) (amp_entries pool) ! i) (map (\<lambda>p. key (mem p)) (amp_entries pool))) = i"
    using assms(1) len by (intro rank_of_member) (simp_all add: amp_inv_def)
  moreover have "k \<in> (\<lambda>p. key (mem p)) ` set (amp_entries pool)" using len found(3) by (metis image_eqI nth_mem)
  ultimately show ?thesis using found len by simp
next
  case (absent i)
  have "length (filter (\<lambda>j. j < k) (map (\<lambda>p. key (mem p)) (amp_entries pool))) = i"
    using absent(2-4) assms(1) by (intro rank_at) (auto simp: take_map drop_map amp_entries_def amp_inv_def)
  moreover have "k \<notin> (\<lambda>p. key (mem p)) ` set (amp_entries pool)"
    using absent(3,4) by (subst append_take_drop_id [of i, symmetric], unfold set_append) auto
  ultimately show ?thesis using absent(1) by simp
qed

section \<open>Properties\<close>

text \<open>
  The test program of the pool and the map passes. For every contents of the memory, of the
  buffers and of the global variables, with the objects at distinct addresses that are not null,
  the six tests run to the end without undefined behaviour and none of their assertions fails;
  the test of \<open>ARRAY_MAP_POOL_FREE\<close> relies on the addresses of an array growing by
  \<open>sizeof (A_ITEM)\<close>.
\<close>

theorem array_map_tests_pass:
  assumes "distinct (map item_buf [0..<ITEM_BUF_NUM])" and "0 \<notin> set (map item_buf [0..<ITEM_BUF_NUM])"
    and "\<forall>i<ITEM_BUF_NUM. intptr (item_buf i) = intptr (item_buf 0) + 8 * int i"
    and "length item_map_buf = ITEM_BUF_NUM"
  shows "test_array_map_pool_bsearch item_buf mem pool = Some (Passed ()) \<and>
    (\<exists>s. test_array_map_pool_get item_buf mem pool = Some (Passed s)) \<and>
    (\<exists>s. test_array_map_pool_free intptr item_buf mem pool = Some (Passed s)) \<and>
    test_array_map_bsearch m = Some (Passed ()) \<and>
    (\<exists>m'. test_array_map_insert item2 item_map_buf m = Some (Passed m')) \<and>
    (\<exists>m'. test_array_map_remove item_map_buf m = Some (Passed m'))"
proof -
  note objs = objects_exist [OF assms(1,2)]
  have "intptr (item_buf 1) = intptr (item_buf 0) + 8" "intptr (item_buf 2) = intptr (item_buf 0) + 16"
    "intptr (item_buf 3) = intptr (item_buf 0) + 24"
    using assms(3) [rule_format, of 1] assms(3) [rule_format, of 2] assms(3) [rule_format, of 3]
    by (simp_all add: ITEM_BUF_NUM_def)
  note free = test_array_map_pool_free_passes [of item_buf, OF objs this]
  obtain a b c d where "item_map_buf = [a, b, c, d]" by (rule item_buf_cases [OF assms(4)])
  then show ?thesis
    by (simp only:) (intro conjI test_array_map_pool_bsearch_passes [OF objs]
        test_array_map_pool_get_passes [OF objs] free test_array_map_bsearch_passes
        test_array_map_insert_passes test_array_map_remove_passes)
qed

theorem array_map_tests_pass_witness:
  "\<exists>s. test_array_map_pool_free int (\<lambda>i. 1000 + 8 * i) (\<lambda>_. \<lparr>key = 0, val = 0\<rparr>) undefined = Some (Passed s)"
  using array_map_tests_pass [of "\<lambda>i. 1000 + 8 * i" int "replicate 4 \<lparr>key = 0, val = 0\<rparr>"]
  by (simp add: ITEM_BUF_NUM_def test_loops)

end
