(* ===== verification/Object_Pool.thy ===== *)
theory Object_Pool
  imports Embed_Prelude
begin

text \<open>
  The interface of a keyed allocator over a fixed set of objects, as documented for the array
  map pool. The specification is a step relation, since the documentation leaves open which of
  the free objects an allocation returns. A client's program is a sequence of operations; it
  observes the pointers and the objects they designate.
\<close>

section \<open>Specification\<close>

text \<open>\<open>Edit k g\<close> looks up the object of \<open>k\<close> and, if there is one, rewrites it with \<open>g\<close>.\<close>

datatype ('k, 'o) pop = Get 'k | Free 'k | Lookup 'k | Edit 'k "'o \<Rightarrow> 'o" | Clear

datatype ('p, 'o) pout = Ptr 'p | Done | Obj 'p "'o option"

type_synonym ('k, 'p, 'o) pool_state = "('k \<rightharpoonup> 'p) \<times> ('p \<Rightarrow> 'o)"

text \<open>
  The state is the object of each key and the memory. \<open>objs\<close> are the objects of the pool. The
  documentation has the finalizer applied to every object that is deallocated, by a release of
  its key or by clearing the pool.
\<close>

inductive pool_step ::
    "('o \<Rightarrow> 'k \<Rightarrow> 'o) \<Rightarrow> ('o \<Rightarrow> 'o) \<Rightarrow> 'p::zero set \<Rightarrow> ('k, 'p, 'o) pool_state \<Rightarrow> ('k, 'o) pop \<Rightarrow>
     ('p, 'o) pout \<Rightarrow> ('k, 'p, 'o) pool_state \<Rightarrow> bool"
  for initializer finalizer objs where
  step_get_hit: "f k = Some p \<Longrightarrow> pool_step initializer finalizer objs (f, mem) (Get k) (Ptr p) (f, mem)"
| step_get_new: "f k = None \<Longrightarrow> p \<in> objs \<Longrightarrow> p \<notin> ran f \<Longrightarrow>
    pool_step initializer finalizer objs (f, mem) (Get k) (Ptr p) (f(k \<mapsto> p), mem(p := initializer (mem p) k))"
| step_get_none: "f k = None \<Longrightarrow> objs \<subseteq> ran f \<Longrightarrow>
    pool_step initializer finalizer objs (f, mem) (Get k) (Ptr 0) (f, mem)"
| step_free_hit: "f k = Some p \<Longrightarrow>
    pool_step initializer finalizer objs (f, mem) (Free k) Done (f(k := None), mem(p := finalizer (mem p)))"
| step_free_miss: "f k = None \<Longrightarrow> pool_step initializer finalizer objs (f, mem) (Free k) Done (f, mem)"
| step_find_hit: "f k = Some p \<Longrightarrow>
    pool_step initializer finalizer objs (f, mem) (Lookup k) (Obj p (Some (mem p))) (f, mem)"
| step_find_miss: "f k = None \<Longrightarrow> pool_step initializer finalizer objs (f, mem) (Lookup k) (Obj 0 None) (f, mem)"
| step_edit_hit: "f k = Some p \<Longrightarrow>
    pool_step initializer finalizer objs (f, mem) (Edit k g) Done (f, mem(p := g (mem p)))"
| step_edit_miss: "f k = None \<Longrightarrow> pool_step initializer finalizer objs (f, mem) (Edit k g) Done (f, mem)"
| step_clear: "pool_step initializer finalizer objs (f, mem) Clear Done
    (Map.empty, \<lambda>p. if p \<in> ran f then finalizer (mem p) else mem p)"

inductive_simps pool_clear_iff:
  "pool_step initializer finalizer objs (f, mem) Clear out s'"

inductive pool_run ::
    "('o \<Rightarrow> 'k \<Rightarrow> 'o) \<Rightarrow> ('o \<Rightarrow> 'o) \<Rightarrow> 'p::zero set \<Rightarrow> ('k, 'p, 'o) pool_state \<Rightarrow> ('k, 'o) pop list \<Rightarrow>
     ('p, 'o) pout list \<Rightarrow> ('k, 'p, 'o) pool_state \<Rightarrow> bool"
  for initializer finalizer objs where
  run_Nil: "pool_run initializer finalizer objs s [] [] s"
| run_Cons: "pool_step initializer finalizer objs s a out s' \<Longrightarrow>
    pool_run initializer finalizer objs s' as outs s'' \<Longrightarrow>
    pool_run initializer finalizer objs s (a # as) (out # outs) s''"

text \<open>Operations that the contracts of the comparator and of the client cover: an edit keeps the key.\<close>

fun pop_ok :: "('o \<Rightarrow> 'k) \<Rightarrow> 'k set \<Rightarrow> ('k, 'o) pop \<Rightarrow> bool" where
  "pop_ok key_of K (Get k) = (k \<in> K)"
| "pop_ok key_of K (Free k) = (k \<in> K)"
| "pop_ok key_of K (Lookup k) = (k \<in> K)"
| "pop_ok key_of K (Edit k g) = (k \<in> K \<and> (\<forall>x. key_of (g x) = key_of x))"
| "pop_ok key_of K Clear = True"

section \<open>What the specification guarantees\<close>

text \<open>No object belongs to two keys, and every object of a key is one of the pool's and carries the key.\<close>

definition pool_ok :: "('o \<Rightarrow> 'k) \<Rightarrow> 'p set \<Rightarrow> ('k \<rightharpoonup> 'p) \<Rightarrow> ('p \<Rightarrow> 'o) \<Rightarrow> bool" where
  "pool_ok key_of objs f mem \<longleftrightarrow> ran f \<subseteq> objs \<and> (\<forall>k p. f k = Some p \<longrightarrow> key_of (mem p) = k)"

lemma pool_ok_inj:
  assumes "pool_ok key_of objs f mem"
  shows "inj_on f (dom f)"
  using assms unfolding pool_ok_def inj_on_def dom_def by (metis (mono_tags, lifting) mem_Collect_eq not_None_eq)

lemma pool_ok_card:
  assumes "pool_ok key_of objs f mem" and "finite objs"
  shows "card (dom f) \<le> card objs"
proof -
  have sub: "ran f \<subseteq> objs" using assms(1) by (simp add: pool_ok_def)
  have inj: "inj_on (\<lambda>k. the (f k)) (dom f)"
    using pool_ok_inj [OF assms(1)] by (auto simp: inj_on_def dom_def)
  have "ran f = (\<lambda>k. the (f k)) ` dom f" by (force simp: ran_def dom_def)
  then have "card (ran f) = card (dom f)" using card_image [OF inj] by simp
  then show ?thesis using card_mono [OF assms(2) sub] by simp
qed

lemma pool_step_ok:
  assumes "pool_step initializer finalizer objs s a out s'" and "pop_ok key_of K a"
    and init: "\<And>x k. k \<in> K \<Longrightarrow> key_of (initializer x k) = k"
    and "pool_ok key_of objs (fst s) (snd s)"
  shows "pool_ok key_of objs (fst s') (snd s')"
  using assms(1,2,4)
proof (cases rule: pool_step.cases)
  case (step_get_new f k p mem)
  then show ?thesis using assms(2,4) init by (auto simp: pool_ok_def ran_def split: if_splits)
next
  case (step_free_hit f k p mem)
  then have "q \<noteq> p" if "j \<noteq> k" "f j = Some q" for j q
    using assms(4) that unfolding pool_ok_def by (metis fst_conv snd_conv)
  then show ?thesis using step_free_hit assms(4) by (auto simp: pool_ok_def ran_def)
next
  case (step_edit_hit f k p mem g)
  then show ?thesis using assms(2,4) by (auto simp: pool_ok_def ran_def split: if_splits)
qed (auto simp: pool_ok_def)

lemma pool_run_ok:
  assumes "pool_run initializer finalizer objs s as outs s'" and "list_all (pop_ok key_of K) as"
    and "\<And>x k. k \<in> K \<Longrightarrow> key_of (initializer x k) = k"
    and "pool_ok key_of objs (fst s) (snd s)"
  shows "pool_ok key_of objs (fst s') (snd s')"
  using assms
proof (induction rule: pool_run.induct)
  case (run_Cons s a out s' as outs s'')
  then show ?case using pool_step_ok [OF run_Cons.hyps(1), of key_of K] by simp
qed simp

text \<open>The operations that may take the object of \<open>k\<close> away or change it.\<close>

fun touches :: "'k \<Rightarrow> ('k, 'o) pop \<Rightarrow> bool" where
  "touches k (Get j) = False"
| "touches k (Free j) = (j = k)"
| "touches k (Lookup j) = False"
| "touches k (Edit j g) = (j = k)"
| "touches k Clear = True"

lemma untouched_no_Clear: "list_all (\<lambda>a. \<not> touches k a) as \<Longrightarrow> Clear \<notin> set as"
  by (auto simp: list_all_iff)

lemma pool_step_stable:
  assumes step: "pool_step initializer finalizer objs s a out s'" and "\<not> touches k a"
    and ok: "pool_ok key_of objs (fst s) (snd s)" and k: "fst s k = Some p"
  shows "fst s' k = Some p \<and> snd s' p = snd s p"
proof -
  have other: "q \<noteq> p" if "fst s j = Some q" "j \<noteq> k" for j q
    using ok k that unfolding pool_ok_def by metis
  from step show ?thesis
  proof (cases rule: pool_step.cases)
    case (step_get_new f j q mem)
    then show ?thesis using k by (auto intro: ranI)
  next
    case (step_free_hit f j q mem)
    then show ?thesis using k other [of j q] assms(2) by auto
  next
    case (step_edit_hit f j q mem g)
    then show ?thesis using k other [of j q] assms(2) by auto
  qed (use k assms(2) in auto)
qed

lemma pool_run_stable:
  assumes "pool_run initializer finalizer objs s as outs s'" and "list_all (pop_ok key_of K) as"
    and "\<And>x k. k \<in> K \<Longrightarrow> key_of (initializer x k) = k"
    and "list_all (\<lambda>a. \<not> touches k a) as"
    and "pool_ok key_of objs (fst s) (snd s)" and "fst s k = Some p"
  shows "fst s' k = Some p \<and> snd s' p = snd s p"
  using assms
proof (induction rule: pool_run.induct)
  case (run_Cons s a out s' as outs s'')
  have "pool_ok key_of objs (fst s') (snd s')"
    using pool_step_ok [OF run_Cons.hyps(1), of key_of K] run_Cons.prems by simp
  moreover have "fst s' k = Some p \<and> snd s' p = snd s p"
    using pool_step_stable [OF run_Cons.hyps(1), of k key_of p] run_Cons.prems by simp
  ultimately show ?case using run_Cons.IH run_Cons.prems by simp
qed simp

section \<open>Programs over an implementation\<close>

fun pool_exec_step ::
    "(('p::zero \<Rightarrow> 'o) \<Rightarrow> 'm \<Rightarrow> 'k \<Rightarrow> ('p \<times> ('p \<Rightarrow> 'o) \<times> 'm) option) \<Rightarrow>
     (('p \<Rightarrow> 'o) \<Rightarrow> 'm \<Rightarrow> 'k \<Rightarrow> (('p \<Rightarrow> 'o) \<times> 'm) option) \<Rightarrow> (('p \<Rightarrow> 'o) \<Rightarrow> 'm \<Rightarrow> 'k \<Rightarrow> 'p option) \<Rightarrow>
     ('m \<Rightarrow> 'm) \<Rightarrow> ('p \<Rightarrow> 'o) \<Rightarrow> 'm \<Rightarrow> ('k, 'o) pop \<Rightarrow> (('p, 'o) pout \<times> ('p \<Rightarrow> 'o) \<times> 'm) option" where
  "pool_exec_step get fre fnd clr mem m (Get k) = do { (p, mem, m) \<leftarrow> get mem m k; Some (Ptr p, mem, m) }"
| "pool_exec_step get fre fnd clr mem m (Free k) = do { (mem, m) \<leftarrow> fre mem m k; Some (Done, mem, m) }"
| "pool_exec_step get fre fnd clr mem m (Lookup k) = do {
     p \<leftarrow> fnd mem m k; Some (Obj p (if p = 0 then None else Some (mem p)), mem, m) }"
| "pool_exec_step get fre fnd clr mem m (Edit k g) = do {
     p \<leftarrow> fnd mem m k; Some (Done, if p = 0 then mem else mem(p := g (mem p)), m) }"
| "pool_exec_step get fre fnd clr mem m Clear = Some (Done, mem, clr m)"

fun pool_exec ::
    "(('p::zero \<Rightarrow> 'o) \<Rightarrow> 'm \<Rightarrow> 'k \<Rightarrow> ('p \<times> ('p \<Rightarrow> 'o) \<times> 'm) option) \<Rightarrow>
     (('p \<Rightarrow> 'o) \<Rightarrow> 'm \<Rightarrow> 'k \<Rightarrow> (('p \<Rightarrow> 'o) \<times> 'm) option) \<Rightarrow> (('p \<Rightarrow> 'o) \<Rightarrow> 'm \<Rightarrow> 'k \<Rightarrow> 'p option) \<Rightarrow>
     ('m \<Rightarrow> 'm) \<Rightarrow> ('p \<Rightarrow> 'o) \<Rightarrow> 'm \<Rightarrow> ('k, 'o) pop list \<Rightarrow> (('p, 'o) pout list \<times> ('p \<Rightarrow> 'o) \<times> 'm) option" where
  "pool_exec get fre fnd clr mem m [] = Some ([], mem, m)"
| "pool_exec get fre fnd clr mem m (a # as) = do {
     (out, mem, m) \<leftarrow> pool_exec_step get fre fnd clr mem m a;
     (outs, mem, m) \<leftarrow> pool_exec get fre fnd clr mem m as;
     Some (out # outs, mem, m)
   }"

section \<open>Interface\<close>

locale object_pool =
  fixes get :: "('p::zero \<Rightarrow> 'o) \<Rightarrow> 'm \<Rightarrow> 'k \<Rightarrow> ('p \<times> ('p \<Rightarrow> 'o) \<times> 'm) option"
    and fre :: "('p \<Rightarrow> 'o) \<Rightarrow> 'm \<Rightarrow> 'k \<Rightarrow> (('p \<Rightarrow> 'o) \<times> 'm) option"
    and fnd :: "('p \<Rightarrow> 'o) \<Rightarrow> 'm \<Rightarrow> 'k \<Rightarrow> 'p option"
    and clr :: "'m \<Rightarrow> 'm"
    and lookup :: "('p \<Rightarrow> 'o) \<Rightarrow> 'm \<Rightarrow> 'k \<Rightarrow> 'p option"
    and objs :: "'m \<Rightarrow> 'p set"
    and inv :: "('p \<Rightarrow> 'o) \<Rightarrow> 'm \<Rightarrow> bool"
    and key_of :: "'o \<Rightarrow> 'k" and K :: "'k set"
    and initializer :: "'o \<Rightarrow> 'k \<Rightarrow> 'o" and finalizer :: "'o \<Rightarrow> 'o"
  assumes not_null: "inv mem m \<Longrightarrow> lookup mem m k = Some p \<Longrightarrow> p \<noteq> 0"
    and get_hit: "inv mem m \<Longrightarrow> k \<in> K \<Longrightarrow> lookup mem m k = Some p \<Longrightarrow> get mem m k = Some (p, mem, m)"
    and get_miss: "inv mem m \<Longrightarrow> k \<in> K \<Longrightarrow> lookup mem m k = None \<Longrightarrow>
      objs m \<subseteq> ran (lookup mem m) \<and> get mem m k = Some (0, mem, m) \<or>
      (\<exists>p m'. p \<in> objs m \<and> p \<notin> ran (lookup mem m) \<and>
        get mem m k = Some (p, mem(p := initializer (mem p) k), m') \<and>
        inv (mem(p := initializer (mem p) k)) m' \<and> objs m' = objs m \<and>
        lookup (mem(p := initializer (mem p) k)) m' = (lookup mem m)(k \<mapsto> p))"
    and fre_hit: "inv mem m \<Longrightarrow> k \<in> K \<Longrightarrow> lookup mem m k = Some p \<Longrightarrow>
      \<exists>m'. fre mem m k = Some (mem(p := finalizer (mem p)), m') \<and>
        inv (mem(p := finalizer (mem p))) m' \<and> objs m' = objs m \<and>
        lookup (mem(p := finalizer (mem p))) m' = (lookup mem m)(k := None)"
    and fre_miss: "inv mem m \<Longrightarrow> k \<in> K \<Longrightarrow> lookup mem m k = None \<Longrightarrow> fre mem m k = Some (mem, m)"
    and fnd_any: "inv mem m \<Longrightarrow> k \<in> K \<Longrightarrow>
      fnd mem m k = Some (case lookup mem m k of None \<Rightarrow> 0 | Some p \<Rightarrow> p)"
    and write_keeps: "inv mem m \<Longrightarrow> key_of x = key_of (mem p) \<Longrightarrow>
      inv (mem(p := x)) m \<and> lookup (mem(p := x)) m = lookup mem m"
    and clr_empties: "inv mem m \<Longrightarrow> inv mem (clr m) \<and> objs (clr m) = objs m \<and> lookup mem (clr m) = Map.empty"
begin

abbreviation exec_step where "exec_step \<equiv> pool_exec_step get fre fnd clr"
abbreviation exec where "exec \<equiv> pool_exec get fre fnd clr"
abbreviation spec_step where "spec_step m \<equiv> pool_step initializer finalizer (objs m)"

text \<open>
  Forward simulation: every operation of the implementation is a step of the specification. An
  implementation of \<open>clr\<close> that leaves the memory alone is one only if the finalizer changes nothing.
\<close>

lemma step_refines:
  assumes inv: "inv mem m" and ok: "pop_ok key_of K a" and clear: "a = Clear \<Longrightarrow> \<forall>x. finalizer x = x"
  shows "\<exists>out mem' m'. exec_step mem m a = Some (out, mem', m') \<and> inv mem' m' \<and> objs m' = objs m \<and>
    spec_step m (lookup mem m, mem) a out (lookup mem' m', mem')"
proof (cases a)
  case (Get k)
  show ?thesis
  proof (cases "lookup mem m k")
    case None
    then show ?thesis
      using get_miss [OF inv _ None] ok Get inv by (auto intro: pool_step.intros)
  next
    case (Some p)
    then show ?thesis using get_hit [OF inv _ Some] ok Get inv by (auto intro: pool_step.intros)
  qed
next
  case (Free k)
  show ?thesis
  proof (cases "lookup mem m k")
    case None
    then show ?thesis using fre_miss [OF inv _ None] ok Free inv by (auto intro: pool_step.intros)
  next
    case (Some p)
    then show ?thesis
      using fre_hit [OF inv _ Some] ok Free by (auto intro: step_free_hit)
  qed
next
  case (Lookup k)
  then show ?thesis
    using fnd_any [OF inv, of k] not_null [OF inv, of k] ok inv
    by (cases "lookup mem m k") (auto intro: pool_step.intros)
next
  case (Edit k g)
  show ?thesis
  proof (cases "lookup mem m k")
    case None
    then show ?thesis using fnd_any [OF inv, of k] ok Edit inv by (auto intro: pool_step.intros)
  next
    case (Some p)
    then show ?thesis
      using fnd_any [OF inv, of k] not_null [OF inv Some] write_keeps [OF inv, of "g (mem p)" p] ok Edit
      by (auto intro: step_edit_hit)
  qed
next
  case Clear
  have "spec_step m (lookup mem m, mem) Clear Done (Map.empty, mem)"
    using clear [OF Clear] by (auto simp: pool_clear_iff fun_eq_iff)
  with Clear show ?thesis using clr_empties [OF inv] by auto
qed

lemma run_refines:
  "inv mem m \<Longrightarrow> list_all (pop_ok key_of K) as \<Longrightarrow> Clear \<notin> set as \<or> (\<forall>x. finalizer x = x) \<Longrightarrow>
   \<exists>outs mem' m'. exec mem m as = Some (outs, mem', m') \<and> inv mem' m' \<and> objs m' = objs m \<and>
     pool_run initializer finalizer (objs m) (lookup mem m, mem) as outs (lookup mem' m', mem')"
proof (induction as arbitrary: mem m)
  case Nil
  then show ?case by (auto intro: run_Nil)
next
  case (Cons a as)
  then obtain out mem1 m1 where s: "exec_step mem m a = Some (out, mem1, m1)" "inv mem1 m1"
      "objs m1 = objs m" "spec_step m (lookup mem m, mem) a out (lookup mem1 m1, mem1)"
    using step_refines [of mem m a] by fastforce
  then obtain outs mem2 m2 where "exec mem1 m1 as = Some (outs, mem2, m2)" "inv mem2 m2"
      "objs m2 = objs m1"
      "pool_run initializer finalizer (objs m1) (lookup mem1 m1, mem1) as outs (lookup mem2 m2, mem2)"
    using Cons.IH [OF s(2)] Cons.prems(2,3) by auto
  with s show ?case by (auto intro: run_Cons)
qed

end

end
