(* ===== verification/Array_Map_Pool_Run.thy ===== *)
theory Array_Map_Pool_Run
  imports Array_Map_Pool Object_Pool
begin

text \<open>
  The array map pool implements the keyed allocator of \<open>Object_Pool\<close>: whatever sequence of
  operations a client runs on an initialised pool, its results are those of a run of the
  specification.
\<close>

section \<open>The pool as an object pool\<close>

context pool_contract
begin

lemma amp_ran:
  assumes "pinv mem m"
  shows "ran (amp_lookup key_of mem m) = set (amp_entries m)"
  using amp_lookup_Some_iff [OF assms] by (auto simp: ran_def)

lemma amp_full_entries:
  assumes "pinv mem m" and "amp_len m = amp_size m"
  shows "set (amp_item m) = set (amp_entries m)"
  using assms by (simp add: amp_inv_def amp_entries_def)

lemma amp_get_absent:
  assumes inv: "pinv mem m" and k: "k \<in> K" and new: "amp_lookup key_of mem m k = None"
  shows "set (amp_item m) \<subseteq> ran (amp_lookup key_of mem m) \<and>
      array_map_pool_get key_cmp initializer mem m k = Some (0, mem, m) \<or>
    (\<exists>p m'. p \<in> set (amp_item m) \<and> p \<notin> ran (amp_lookup key_of mem m) \<and>
      array_map_pool_get key_cmp initializer mem m k = Some (p, mem(p := initializer (mem p) k), m') \<and>
      pinv (mem(p := initializer (mem p) k)) m' \<and> set (amp_item m') = set (amp_item m) \<and>
      amp_lookup key_of (mem(p := initializer (mem p) k)) m' = (amp_lookup key_of mem m)(k \<mapsto> p))"
proof (cases "amp_len m = amp_size m")
  case True
  then show ?thesis using amp_get_full [OF inv k new True] amp_full_entries [OF inv True] amp_ran [OF inv] by simp
next
  case False
  note room = amp_room [OF inv False]
  have "amp_item m ! unat (amp_len m) \<in> set (amp_item m)" using inv room by (simp add: amp_inv_def)
  then show ?thesis
    using amp_get_new [OF inv k new room] amp_fresh(1) [OF inv room] amp_ran [OF inv]
    by (auto dest: mset_eq_setD)
qed

lemma amp_write_keeps:
  assumes "pinv mem m" and "key_of x = key_of (mem p)"
  shows "pinv (mem(p := x)) m \<and> amp_lookup key_of (mem(p := x)) m = amp_lookup key_of mem m"
proof -
  have "(\<lambda>q. key_of ((mem(p := x)) q)) = (\<lambda>q. key_of (mem q))" using assms(2) by auto
  then show ?thesis using assms(1) by (simp add: amp_inv_def amp_lookup_def fun_eq_iff)
qed

lemma amp_clear:
  "pinv mem m \<Longrightarrow> pinv mem (ARRAY_MAP_POOL_CLEAR m) \<and>
    set (amp_item (ARRAY_MAP_POOL_CLEAR m)) = set (amp_item m) \<and>
    amp_lookup key_of mem (ARRAY_MAP_POOL_CLEAR m) = Map.empty"
  by (auto simp: amp_inv_def amp_lookup_def amp_entries_def ARRAY_MAP_POOL_CLEAR_def)

end

sublocale pool_contract \<subseteq> pool: object_pool
  "array_map_pool_get key_cmp initializer" "array_map_pool_free key_cmp finalizer"
  "array_map_pool_find key_cmp" ARRAY_MAP_POOL_CLEAR "amp_lookup key_of" "\<lambda>m. set (amp_item m)"
  "amp_inv key_of K" key_of K initializer finalizer
proof unfold_locales
  fix mem :: "'p::zero \<Rightarrow> 'o" and m k p
  assume inv: "pinv mem m"
  show "amp_lookup key_of mem m k = Some p \<Longrightarrow> p \<noteq> 0"
    using amp_lookup_Some_iff [OF inv] amp_entries_subset [of m] inv by (auto simp: amp_inv_def)
next
  fix mem :: "'p::zero \<Rightarrow> 'o" and m k p
  assume "pinv mem m" "k \<in> K" "amp_lookup key_of mem m k = Some p"
  then show "\<exists>m'. array_map_pool_free key_cmp finalizer mem m k = Some (mem(p := finalizer (mem p)), m') \<and>
      pinv (mem(p := finalizer (mem p))) m' \<and> set (amp_item m') = set (amp_item m) \<and>
      amp_lookup key_of (mem(p := finalizer (mem p))) m' = (amp_lookup key_of mem m)(k := None)"
    using amp_free_present [of mem m k p] by (auto dest: mset_eq_setD)
qed (fact amp_get_existing amp_get_absent amp_free_absent amp_find_correct amp_write_keeps amp_clear)+

context pool_contract
begin

lemmas amp_run_refines = pool.run_refines

lemma amp_pool_ok: "pinv mem m \<Longrightarrow> pool_ok key_of (set (amp_item m)) (amp_lookup key_of mem m) mem"
  using amp_lookup_Some_iff [of mem m] amp_ran [of mem m] amp_entries_subset [of m]
  by (auto simp: pool_ok_def)

lemma amp_run_stable:
  assumes inv: "pinv mem m" and ops: "list_all (pop_ok key_of K) ops" "list_all (\<lambda>a. \<not> touches k a) ops"
    and k: "k \<in> K" and p: "array_map_pool_find key_cmp mem m k = Some p" and "p \<noteq> 0"
  shows "\<exists>outs mem' m'. pool.exec mem m ops = Some (outs, mem', m') \<and>
    array_map_pool_find key_cmp mem' m' k = Some p \<and> mem' p = mem p"
proof -
  obtain outs mem' m' where run: "pool.exec mem m ops = Some (outs, mem', m')" "pinv mem' m'"
    "pool_run initializer finalizer (set (amp_item m)) (amp_lookup key_of mem m, mem) ops outs
       (amp_lookup key_of mem' m', mem')"
    using amp_run_refines [OF inv ops(1)] untouched_no_Clear [OF ops(2)] by blast
  have "amp_lookup key_of mem m k = Some p"
    using amp_find_correct [OF inv k] p \<open>p \<noteq> 0\<close> by (auto split: option.splits)
  then have "amp_lookup key_of mem' m' k = Some p \<and> mem' p = mem p"
    using pool_run_stable [OF run(3) ops(1) init_key ops(2)] amp_pool_ok [OF inv] by simp
  then show ?thesis using run(1) amp_find_correct [OF run(2) k] by auto
qed

end

lemma amp_init:
  assumes "distinct buf" and "0 \<notin> set buf" and "unat siz = length buf" and "length buf \<le> 2 ^ 30"
  shows "amp_inv key_of K mem (ARRAY_MAP_POOL_INIT m buf siz)"
    and "amp_lookup key_of mem (ARRAY_MAP_POOL_INIT m buf siz) = Map.empty"
    and "amp_item (ARRAY_MAP_POOL_INIT m buf siz) = buf"
  using assms by (auto simp: amp_inv_def amp_lookup_def amp_entries_def ARRAY_MAP_POOL_INIT_def)

section \<open>Properties\<close>

text \<open>
  C25. The array map pool refines the documented keyed allocator. For every sequence of allocations,
  releases, lookups and rewrites of an object by the client on a pool initialised
  on at most \<open>2 ^ 30\<close> distinct objects, the C code has no undefined behaviour, and its results and its final
  memory are those of a run of the specification: an allocation returns the object of the key
  or a free object initialised with the key, and fails only if every object of the pool
  belongs to a key; a release finalizes the object of the key and frees it. The sequence may
  contain clearings of the pool if the finalizer changes nothing, as the one of the test program;
  otherwise a clearing is not the documented one. At the end no
  object belongs to two keys, no more keys are served than the buffer has objects, and every
  object of a key is one of the buffer's and carries that key.
\<close>

theorem amp_run_refines_allocator:
  assumes "pool_contract key_cmp key_of K initializer"
    and "distinct buf" and "0 \<notin> set buf" and "unat siz = length buf" and "length buf \<le> 2 ^ 30"
    and "list_all (pop_ok key_of K) ops" and "Clear \<notin> set ops \<or> (\<forall>x. finalizer x = x)"
  shows "\<exists>outs mem' m'.
    pool_exec (array_map_pool_get key_cmp initializer) (array_map_pool_free key_cmp finalizer)
      (array_map_pool_find key_cmp) ARRAY_MAP_POOL_CLEAR mem (ARRAY_MAP_POOL_INIT m buf siz) ops =
      Some (outs, mem', m') \<and>
    pool_run initializer finalizer (set buf) (Map.empty, mem) ops outs (amp_lookup key_of mem' m', mem') \<and>
    inj_on (amp_lookup key_of mem' m') (dom (amp_lookup key_of mem' m')) \<and>
    card (dom (amp_lookup key_of mem' m')) \<le> length buf \<and>
    (\<forall>k p. amp_lookup key_of mem' m' k = Some p \<longrightarrow> p \<in> set buf \<and> key_of (mem' p) = k)"
proof -
  note init = amp_init(1) [OF assms(2-5), where key_of = key_of and K = K and mem = mem and m = m]
    amp_init(2) [OF assms(2-5), where key_of = key_of and mem = mem and m = m]
    amp_init(3) [OF assms(2-5), where m = m]
  obtain outs mem' m' where run:
    "pool_exec (array_map_pool_get key_cmp initializer) (array_map_pool_free key_cmp finalizer)
      (array_map_pool_find key_cmp) ARRAY_MAP_POOL_CLEAR mem (ARRAY_MAP_POOL_INIT m buf siz) ops =
      Some (outs, mem', m')"
    "pool_run initializer finalizer (set buf) (Map.empty, mem) ops outs (amp_lookup key_of mem' m', mem')"
    using pool_contract.amp_run_refines [OF assms(1) init(1) assms(6,7)] init(2,3) by auto
  have ok: "pool_ok key_of (set buf) (amp_lookup key_of mem' m') mem'"
    using pool_run_ok [OF run(2) assms(6) pool_contract.init_key [OF assms(1)]] by (simp add: pool_ok_def)
  then have "\<forall>k p. amp_lookup key_of mem' m' k = Some p \<longrightarrow> p \<in> set buf \<and> key_of (mem' p) = k"
    by (auto simp: pool_ok_def intro: ranI)
  then show ?thesis 
    using run pool_ok_inj [OF ok] pool_ok_card [OF ok] distinct_card [OF assms(2)] by auto
qed

theorem amp_run_refines_allocator_witness:
  "\<exists>outs mem' m'.
    pool_exec (array_map_pool_get A_ITEM_MAP_POOL_KEY_CMP A_ITEM_MAP_POOL_INITIALIZER)
      (array_map_pool_free A_ITEM_MAP_POOL_KEY_CMP A_ITEM_MAP_POOL_FINALIZER)
      (array_map_pool_find A_ITEM_MAP_POOL_KEY_CMP) ARRAY_MAP_POOL_CLEAR
      (\<lambda>_. \<lparr>key = 0, val = 0\<rparr>) (ARRAY_MAP_POOL_INIT undefined [10, 20 :: nat] 2)
      [Get 7, Edit 7 (val_update (\<lambda>_. 3)), Get 5, Get 6, Free 7, Get 6, Lookup 5, Clear, Lookup 5] =
      Some (outs, mem', m') \<and>
    pool_run A_ITEM_MAP_POOL_INITIALIZER A_ITEM_MAP_POOL_FINALIZER {10, 20}
      (Map.empty, \<lambda>_. \<lparr>key = 0, val = 0\<rparr>)
      [Get 7, Edit 7 (val_update (\<lambda>_. 3)), Get 5, Get 6, Free 7, Get 6, Lookup 5, Clear, Lookup 5]
      outs (amp_lookup key mem' m', mem')"
  using amp_run_refines_allocator [OF item_pool.pool_contract_axioms, of "[10, 20 :: nat]" 2
      "[Get 7, Edit 7 (val_update (\<lambda>_. 3)), Get 5, Get 6, Free 7, Get 6, Lookup 5, Clear, Lookup 5]"
      A_ITEM_MAP_POOL_FINALIZER "\<lambda>_. \<lparr>key = 0, val = 0\<rparr>" undefined]
  by (auto simp: safe_keys_def A_ITEM_MAP_POOL_FINALIZER_def)



text \<open>
  C26. Objects of different keys do not interfere. While an object is allocated for \<open>k\<close>, no
  sequence of operations changes it or makes \<open>ARRAY_MAP_POOL_FIND\<close> return another pointer for
  \<open>k\<close>, whatever is allocated, released or rewritten under other keys, unless it releases or
  rewrites the object of \<open>k\<close> or clears the pool.
\<close>

theorem amp_object_stable:
  assumes "pool_contract key_cmp key_of K initializer" and "amp_inv key_of K mem m"
    and "list_all (pop_ok key_of K) ops" and "list_all (\<lambda>a. \<not> touches k a) ops"
    and "k \<in> K" and "array_map_pool_find key_cmp mem m k = Some p" and "p \<noteq> 0"
  shows "\<exists>outs mem' m'.
    pool_exec (array_map_pool_get key_cmp initializer) (array_map_pool_free key_cmp finalizer)
      (array_map_pool_find key_cmp) ARRAY_MAP_POOL_CLEAR mem m ops = Some (outs, mem', m') \<and>
    array_map_pool_find key_cmp mem' m' k = Some p \<and> mem' p = mem p"
  using assms by (rule pool_contract.amp_run_stable)

theorem amp_object_stable_witness:
  "\<exists>outs mem' m'.
    pool_exec (array_map_pool_get A_ITEM_MAP_POOL_KEY_CMP A_ITEM_MAP_POOL_INITIALIZER)
      (array_map_pool_free A_ITEM_MAP_POOL_KEY_CMP A_ITEM_MAP_POOL_FINALIZER)
      (array_map_pool_find A_ITEM_MAP_POOL_KEY_CMP) ARRAY_MAP_POOL_CLEAR
      (\<lambda>p :: nat. \<lparr>key = int p, val = 4\<rparr>) \<lparr>amp_item = [10, 20, 30], amp_size = 3, amp_len = 2\<rparr>
      [Free 10, Get 5, Edit 5 (val_update (\<lambda>_. 3)), Get 6, Get 20] = Some (outs, mem', m') \<and>
    array_map_pool_find A_ITEM_MAP_POOL_KEY_CMP mem' m' 20 = Some 20 \<and> mem' 20 = \<lparr>key = 20, val = 4\<rparr>"
proof -
  let ?m = "\<lparr>amp_item = [10, 20, 30 :: nat], amp_size = 3, amp_len = 2\<rparr>"
  let ?mem = "\<lambda>p :: nat. \<lparr>key = int p, val = 4\<rparr>"
  have inv: "amp_inv key safe_keys ?mem ?m" and l: "amp_lookup key ?mem ?m 20 = Some 20"
    and k: "20 \<in> safe_keys"
    by (simp_all add: amp_inv_def amp_lookup_def amp_entries_def safe_keys_def)
  have f: "array_map_pool_find A_ITEM_MAP_POOL_KEY_CMP ?mem ?m 20 = Some 20"
    using item_pool.amp_find_correct [OF inv k] l by simp
  show ?thesis
    using amp_object_stable [OF item_pool.pool_contract_axioms inv _ _ k f,
        of "[Free 10, Get 5, Edit 5 (val_update (\<lambda>_. 3)), Get 6, Get 20]" A_ITEM_MAP_POOL_FINALIZER]
    by (simp add: safe_keys_def)
qed

end
