(* ===== verification/RB_Shape.thy ===== *)
theory RB_Shape
  imports Embed_Prelude
begin

text \<open>
  What the two red-black tree implementations \<open>rbtree/rbtree.c\<close> and
  \<open>rbtree/rbtree_compact.c\<close> share: directions, colours, the heap of nodes, and the
  mathematical trees that a heap can hold.

  A tree of type \<open>rbt\<close> has the addresses of the nodes at its inner nodes. A \<open>frame\<close> is one
  step of the way from a node to the root: the direction of the hole below the parent, the
  colour and the address of the parent, and the subtree on the other side; a list of frames,
  innermost first, is the context of a subtree, and \<open>zip\<close> plugs the subtree into it.

  A heap that holds a tree is a function of the tree (\<open>heap_of\<close>), so that each C operation is
  described by an equation between states. The layout of a node in memory is the parameter
  \<open>enc\<close>, which each of the two implementations instantiates.
\<close>

lemma distinct_split_unique:
  assumes "distinct (xs @ a # ys)" and "xs @ a # ys = xs' @ a # ys'"
  shows "xs' = xs \<and> ys' = ys"
proof -
  have "a \<notin> set xs" "a \<notin> set ys" using assms(1) by auto
  from append_Cons_eq_iff [OF this] assms(2) show ?thesis by auto
qed

section \<open>Directions and colours\<close>

text \<open>The values \<open>0\<close> and \<open>1\<close> that an \<open>int dir\<close> takes, and the operation \<open>dir ^ 1\<close>.\<close>

datatype rb_dir = RB_LEFT | RB_RIGHT

fun flip :: "rb_dir \<Rightarrow> rb_dir" where
  "flip RB_LEFT = RB_RIGHT"
| "flip RB_RIGHT = RB_LEFT"

lemma flip_flip [simp]: "flip (flip d) = d"
  by (cases d) simp_all

lemma flip_neq [simp]: "flip d \<noteq> d" "d \<noteq> flip d"
  by (cases d; simp)+

lemma not_eq_flip_iff [simp]: "d \<noteq> flip e \<longleftrightarrow> d = e" "flip d \<noteq> e \<longleftrightarrow> d = e"
  by (cases d; cases e; simp)+

lemma flip_eq_flip_iff [simp]: "flip d = flip e \<longleftrightarrow> d = e"
  by (cases d; cases e; simp)

lemma neq_iff_flip: "d \<noteq> e \<longleftrightarrow> d = flip e"
  by (cases d; cases e; simp)

text \<open>The direction of a child \<open>p\<close>, found by a comparison with the left child.\<close>

definition left_of :: "rb_dir \<Rightarrow> 'a \<Rightarrow> 'a \<Rightarrow> 'a" where
  "left_of d x y = (case d of RB_LEFT \<Rightarrow> x | RB_RIGHT \<Rightarrow> y)"

lemma left_of_eq_iff: "q \<noteq> p \<Longrightarrow> left_of d p q = p \<longleftrightarrow> d = RB_LEFT"
  by (cases d) (simp_all add: left_of_def)

lemma left_of_flip [simp]: "left_of (flip d) x y = left_of d y x"
  by (cases d) (simp_all add: left_of_def)

lemma dir_of_child [simp]: "(if d = RB_LEFT then RB_LEFT else RB_RIGHT) = d"
  by (cases d) simp_all

text \<open>
  The direction that a descent takes after a comparison with the result \<open>c\<close>; none if the keys
  are equal.
\<close>

definition cmp_dir :: "int \<Rightarrow> rb_dir option" where
  "cmp_dir c = (if c < 0 then Some RB_LEFT else if c > 0 then Some RB_RIGHT else None)"

text \<open>The colours as they are stored, in the lowest bit of a pointer-sized word.\<close>

definition RB_RED :: "'w::len word" where
  "RB_RED = 0"

definition RB_BLACK :: "'w::len word" where
  "RB_BLACK = 1"

datatype rb_color = Red | Black

lemma rb_color_not_iff [simp]: "c \<noteq> Red \<longleftrightarrow> c = Black" "c \<noteq> Black \<longleftrightarrow> c = Red"
  by (cases c; simp)+

definition color_bit :: "rb_color \<Rightarrow> 'w::len word" where
  "color_bit c = (case c of Red \<Rightarrow> RB_RED | Black \<Rightarrow> RB_BLACK)"

lemma color_bit_simps [simp]: "color_bit Red = RB_RED" "color_bit Black = RB_BLACK"
  by (simp_all add: color_bit_def)

lemma RB_RED_neq_BLACK [simp]: "RB_RED \<noteq> RB_BLACK" "RB_BLACK \<noteq> RB_RED"
  by (simp_all add: RB_RED_def RB_BLACK_def)

lemma color_bit_eq_iff [simp]:
  "color_bit c = RB_RED \<longleftrightarrow> c = Red" "color_bit c = RB_BLACK \<longleftrightarrow> c = Black"
  by (cases c; simp)+

section \<open>Tagged pointers\<close>

text \<open>The address of a node is not null and has its lowest bit free.\<close>

definition aligned :: "'w::len word \<Rightarrow> bool" where
  "aligned p \<longleftrightarrow> p AND 1 = 0"

definition node_addr :: "'w::len word \<Rightarrow> bool" where
  "node_addr p \<longleftrightarrow> p \<noteq> 0 \<and> aligned p"

lemma aligned_0 [simp]: "aligned 0"
  by (simp add: aligned_def)

lemma node_addr_aligned: "node_addr p \<Longrightarrow> aligned p"
  by (simp add: node_addr_def)

lemma node_addr_nonnull: "node_addr p \<Longrightarrow> p \<noteq> 0"
  by (simp add: node_addr_def)

lemma untag_word:
  assumes "aligned p"
  shows "(p OR color_bit c) AND NOT 1 = p" and "(p OR color_bit c) AND 1 = color_bit c"
proof -
  have bit0: "\<not> bit p 0"
    using assms by (simp add: aligned_def and_one_eq even_iff_mod_2_eq_zero bit_0)
  show "(p OR color_bit c) AND NOT 1 = p"
    using bit0
    by (cases c; intro bit_word_eqI; auto simp: RB_RED_def RB_BLACK_def bit_simps intro: gr0I)
  show "(p OR color_bit c) AND 1 = color_bit c"
    using bit0
    by (cases c; intro bit_word_eqI; auto simp: RB_RED_def RB_BLACK_def bit_simps intro: gr0I)
qed

lemma untag_minus_2: "aligned p \<Longrightarrow> (p OR color_bit c) AND - 2 = p"
  using untag_word(1) [of p c] by simp

lemma color_bit_AND_1 [simp]: "color_bit c AND 1 = color_bit c"
  using untag_word(2) [of 0 c] by simp

text \<open>Every word is a pointer with a colour.\<close>

lemma low_bit_color:
  obtains c where "w AND 1 = color_bit c"
proof (cases "even w")
  case True
  then have "w AND 1 = color_bit Red" by (simp add: and_one_eq RB_RED_def even_iff_mod_2_eq_zero)
  then show thesis by (rule that)
next
  case False
  then have "w AND 1 = color_bit Black" by (simp add: and_one_eq RB_BLACK_def odd_iff_mod_2_eq_one)
  then show thesis by (rule that)
qed

lemma aligned_iff_even: "aligned p \<longleftrightarrow> even p"
  by (simp add: aligned_def and_one_eq even_iff_mod_2_eq_zero)

lemma aligned_untagged: "aligned (w AND - 2)"
  by (simp add: aligned_iff_even even_and_iff)

text \<open>The entry whose member is the node, a constant offset before it.\<close>

definition RB_ENTRY :: "'w::len word \<Rightarrow> 'w word \<Rightarrow> 'w word" where
  "RB_ENTRY offset node = node - offset"

lemma RB_ENTRY_field [simp]: "RB_ENTRY offset (e + offset) = e" "RB_ENTRY offset a + offset = a"
  by (simp_all add: RB_ENTRY_def)

section \<open>Trees of node addresses\<close>

datatype 'p rbt = Leaf | Node "'p rbt" rb_color 'p "'p rbt"

type_synonym 'p frame = "rb_dir \<times> rb_color \<times> 'p \<times> 'p rbt"

text \<open>A node whose child in direction \<open>d\<close> is \<open>x\<close> and whose other child is \<open>y\<close>.\<close>

fun mk :: "rb_dir \<Rightarrow> rb_color \<Rightarrow> 'p \<Rightarrow> 'p rbt \<Rightarrow> 'p rbt \<Rightarrow> 'p rbt" where
  "mk RB_LEFT c a x y = Node x c a y"
| "mk RB_RIGHT c a x y = Node y c a x"

fun inorder :: "'p rbt \<Rightarrow> 'p list" where
  "inorder Leaf = []"
| "inorder (Node l c a r) = inorder l @ a # inorder r"

fun color :: "'p rbt \<Rightarrow> rb_color" where
  "color Leaf = Black"
| "color (Node l c a r) = c"

fun root_addr :: "'w::len word rbt \<Rightarrow> 'w word" where
  "root_addr Leaf = 0"
| "root_addr (Node l c a r) = a"

fun paint :: "rb_color \<Rightarrow> 'p rbt \<Rightarrow> 'p rbt" where
  "paint c Leaf = Leaf"
| "paint c (Node l c' a r) = Node l c a r"

fun zip_up :: "'p frame list \<Rightarrow> 'p rbt \<Rightarrow> 'p rbt" where
  "zip_up [] t = t"
| "zip_up ((d, c, a, s) # k) t = zip_up k (mk d c a t s)"

abbreviation addrs :: "'p rbt \<Rightarrow> 'p set" where
  "addrs t \<equiv> set (inorder t)"

lemma mk_flip: "mk (flip d) c a x y = mk d c a y x"
  by (cases d) simp_all

lemma mk_not_Leaf [simp]: "mk d c a x y \<noteq> Leaf" "Leaf \<noteq> mk d c a x y"
  by (cases d; simp)+

lemma mk_eq_iff [simp]: "mk d c a x y = mk d c' a' x' y' \<longleftrightarrow> c = c' \<and> a = a' \<and> x = x' \<and> y = y'"
  by (cases d) auto

lemma color_mk [simp]: "color (mk d c a x y) = c"
  by (cases d) simp_all

lemma root_addr_mk [simp]: "root_addr (mk d c a x y) = a"
  by (cases d) simp_all

lemma paint_mk [simp]: "paint c (mk d c' a x y) = mk d c a x y"
  by (cases d) simp_all

lemma color_paint: "color (paint c t) = (if t = Leaf then Black else c)"
  by (cases t) simp_all

lemma inorder_paint [simp]: "inorder (paint c t) = inorder t"
  by (cases t) simp_all

lemma root_addr_paint [simp]: "root_addr (paint c t) = root_addr t"
  by (cases t) simp_all

lemma inorder_mk:
  "inorder (mk d c a x y) =
    (case d of RB_LEFT \<Rightarrow> inorder x @ a # inorder y | RB_RIGHT \<Rightarrow> inorder y @ a # inorder x)"
  by (cases d) simp_all

lemma addrs_mk [simp]: "addrs (mk d c a x y) = insert a (addrs x \<union> addrs y)"
  by (cases d) auto

text \<open>The parts of a node as seen from direction \<open>d\<close>.\<close>

fun un :: "rb_dir \<Rightarrow> 'p rbt \<Rightarrow> (rb_color \<times> 'p \<times> 'p rbt \<times> 'p rbt) option" where
  "un d Leaf = None"
| "un RB_LEFT (Node l c a r) = Some (c, a, l, r)"
| "un RB_RIGHT (Node l c a r) = Some (c, a, r, l)"

lemma un_mk [simp]: "un d (mk d c a x y) = Some (c, a, x, y)"
  by (cases d) simp_all

text \<open>Every tree is a leaf or a node seen from either side.\<close>

lemma rbt_dir_cases:
  obtains (Leaf) "t = Leaf" | (mk) c a x y where "t = mk d c a x y"
  by (cases t; cases d) (force intro: that)+

lemma zip_up_append: "zip_up (k @ k') t = zip_up k' (zip_up k t)"
  by (induction k t rule: zip_up.induct) simp_all

section \<open>Distinct and aligned addresses\<close>

fun kaddrs :: "'p frame list \<Rightarrow> 'p set" where
  "kaddrs [] = {}"
| "kaddrs ((d, c, a, s) # k) = insert a (addrs s \<union> kaddrs k)"

fun tok :: "'w::len word rbt \<Rightarrow> bool" where
  "tok Leaf \<longleftrightarrow> True"
| "tok (Node l c a r) \<longleftrightarrow> node_addr a \<and> a \<notin> addrs l \<and> a \<notin> addrs r \<and>
    addrs l \<inter> addrs r = {} \<and> tok l \<and> tok r"

fun kok :: "'w::len word frame list \<Rightarrow> bool" where
  "kok [] \<longleftrightarrow> True"
| "kok ((d, c, a, s) # k) \<longleftrightarrow> node_addr a \<and> a \<notin> addrs s \<and> a \<notin> kaddrs k \<and>
    addrs s \<inter> kaddrs k = {} \<and> tok s \<and> kok k"

definition zok :: "'w::len word frame list \<Rightarrow> 'w word rbt \<Rightarrow> bool" where
  "zok k t \<longleftrightarrow> tok t \<and> kok k \<and> addrs t \<inter> kaddrs k = {}"

lemma tok_mk [simp]:
  "tok (mk d c a x y) \<longleftrightarrow> node_addr a \<and> a \<notin> addrs x \<and> a \<notin> addrs y \<and>
    addrs x \<inter> addrs y = {} \<and> tok x \<and> tok y"
  by (cases d) auto

lemma tok_paint [simp]: "tok (paint c t) \<longleftrightarrow> tok t"
  by (cases t) simp_all

lemma tok_iff_inorder: "tok t \<longleftrightarrow> distinct (inorder t) \<and> (\<forall>a\<in>addrs t. node_addr a)"
  by (induction t) auto

lemma zok_Nil [simp]: "zok [] t \<longleftrightarrow> tok t"
  by (simp add: zok_def)

lemma zok_focus: "zok ((d, c, a, s) # k) t \<longleftrightarrow> zok k (mk d c a t s)"
  by (auto simp: zok_def)

lemma zok_zip_up: "zok k t \<longleftrightarrow> tok (zip_up k t)"
  by (induction k t rule: zip_up.induct) (simp_all add: zok_focus)

lemma zok_paint [simp]: "zok k (paint c t) \<longleftrightarrow> zok k t"
  by (simp add: zok_def)

lemma root_addr_eq_0 [simp]: "tok t \<Longrightarrow> root_addr t = 0 \<longleftrightarrow> t = Leaf"
  by (cases t) (auto simp: node_addr_def)

lemma root_addr_in: "t \<noteq> Leaf \<Longrightarrow> root_addr t \<in> addrs t"
  by (cases t) simp_all

lemma root_addr_neq: "node_addr p \<Longrightarrow> p \<notin> addrs t \<Longrightarrow> root_addr t \<noteq> p"
  by (cases t) (auto simp: node_addr_def)

lemma root_addr_disjoint:
  assumes "tok s" and "tok t" and "addrs s \<inter> addrs t = {}"
  shows "root_addr s = root_addr t \<longleftrightarrow> s = Leaf \<and> t = Leaf"
  using assms by (cases s; cases t) (auto simp: node_addr_def)

lemma addrs_zip_up: "addrs (zip_up k t) = kaddrs k \<union> addrs t"
  by (induction k t rule: zip_up.induct) auto

section \<open>The heap of a tree\<close>

record ('p, 'n) rb_state =
  rb_root :: 'p
  rb_heap :: "'p \<rightharpoonup> 'n"

text \<open>
  \<open>enc par c d x y\<close> is the memory of a node of colour \<open>c\<close> whose parent is \<open>par\<close>, whose child in
  direction \<open>d\<close> is \<open>x\<close> and whose other child is \<open>y\<close>.
\<close>

type_synonym ('w, 'n) layout =
  "'w word \<Rightarrow> rb_color \<Rightarrow> rb_dir \<Rightarrow> 'w word \<Rightarrow> 'w word \<Rightarrow> 'n"

fun heap_of :: "('w::len, 'n) layout \<Rightarrow> 'w word \<Rightarrow> 'w word rbt \<Rightarrow> ('w word \<rightharpoonup> 'n)" where
  "heap_of enc par Leaf = Map.empty"
| "heap_of enc par (Node l c a r) =
    (heap_of enc a l ++ heap_of enc a r)(a \<mapsto> enc par c RB_LEFT (root_addr l) (root_addr r))"

fun kpar :: "'w::len word frame list \<Rightarrow> 'w word" where
  "kpar [] = 0"
| "kpar ((d, c, a, s) # k) = a"

fun kroot :: "'w::len word \<Rightarrow> 'w word frame list \<Rightarrow> 'w word" where
  "kroot r [] = r"
| "kroot r ((d, c, a, s) # k) = kroot a k"

fun ctx_heap :: "('w::len, 'n) layout \<Rightarrow> 'w word \<Rightarrow> 'w word frame list \<Rightarrow> ('w word \<rightharpoonup> 'n)" where
  "ctx_heap enc r [] = Map.empty"
| "ctx_heap enc r ((d, c, a, s) # k) =
    (ctx_heap enc a k ++ heap_of enc a s)(a \<mapsto> enc (kpar k) c d r (root_addr s))"

text \<open>The state that holds the tree \<open>t\<close> in the context \<open>k\<close>, with \<open>F\<close> the rest of the memory.\<close>

definition st :: "('w::len, 'n) layout \<Rightarrow> ('w word \<rightharpoonup> 'n) \<Rightarrow> 'w word frame list \<Rightarrow> 'w word rbt
    \<Rightarrow> ('w word, 'n) rb_state" where
  "st enc F k t = \<lparr>rb_root = kroot (root_addr t) k,
    rb_heap = F ++ ctx_heap enc (root_addr t) k ++ heap_of enc (kpar k) t\<rparr>"

abbreviation sym_layout :: "('w::len, 'n) layout \<Rightarrow> bool" where
  "sym_layout enc \<equiv> \<forall>par c x y. enc par c RB_RIGHT x y = enc par c RB_LEFT y x"

lemma dom_heap_of [simp]: "dom (heap_of enc par t) = addrs t"
  by (induction t arbitrary: par) (simp_all add: Un_commute)

lemma dom_ctx_heap [simp]: "dom (ctx_heap enc r k) = kaddrs k"
  by (induction enc r k rule: ctx_heap.induct) (simp_all del: fun_upd_apply)

lemma heap_of_mk:
  assumes "sym_layout enc" and "addrs x \<inter> addrs y = {}"
  shows "heap_of enc par (mk d c a x y) =
    (heap_of enc a x ++ heap_of enc a y)(a \<mapsto> enc par c d (root_addr x) (root_addr y))"
  using assms by (cases d) (simp_all add: map_add_comm Int_commute)

lemma map_add_comm_dom: "dom m \<inter> dom n = {} \<Longrightarrow> F ++ m ++ n = F ++ n ++ m"
  by (metis map_add_assoc map_add_comm)

text \<open>A state does not change when the focus moves up to the parent.\<close>

lemma st_focus:
  assumes "sym_layout enc" and "zok k (mk d c a t s)"
  shows "st enc F ((d, c, a, s) # k) t = st enc F k (mk d c a t s)"
  using assms
  by (simp add: st_def heap_of_mk zok_def map_add_comm_dom [of "heap_of enc a t"]
      map_add_upd_left Int_commute)

lemma zok_append: "zok (k1 @ k2) t \<longleftrightarrow> zok k2 (zip_up k1 t)"
  by (simp add: zok_zip_up zip_up_append)

lemma root_addr_zip_up: "root_addr (zip_up k t) = kroot (root_addr t) k"
  by (induction k t rule: zip_up.induct) simp_all

lemma st_append:
  assumes "sym_layout enc" and "zok (k1 @ k2) t"
  shows "st enc F (k1 @ k2) t = st enc F k2 (zip_up k1 t)"
  using assms
  by (induction k1 t rule: zip_up.induct) (simp_all add: st_focus zok_focus)

lemma st_zip_up:
  assumes "sym_layout enc" and "zok k t"
  shows "st enc F k t = st enc F [] (zip_up k t)"
  using assms st_append [of enc k "[]" t] by simp

text \<open>The focus can move to any other position of the tree.\<close>

lemma st_move:
  assumes "sym_layout enc" and "zok k t" and "zip_up k t = zip_up k' t'"
  shows "st enc F k t = st enc F k' t'"
  using assms by (metis st_zip_up zok_zip_up)

lemma kpar_append: "k \<noteq> [] \<Longrightarrow> kpar (k @ k') = kpar k"
  by (cases k rule: kpar.cases) auto

lemma kroot_indep: "k \<noteq> [] \<Longrightarrow> kroot r k = kroot r' k"
  by (cases k rule: kpar.cases) auto

lemma kpar_in: "k \<noteq> [] \<Longrightarrow> kpar k \<in> kaddrs k"
  by (cases k rule: kpar.cases) auto

lemma aligned_kpar: "kok k \<Longrightarrow> aligned (kpar k)"
  by (cases k rule: kpar.cases) (auto simp: node_addr_def)

lemma frame_cases:
  fixes k :: "'w::len word frame list"
  obtains (Nil) "k = []" | (same) c p s k' where "k = (d, c, p, s) # k'"
  | (other) c p s k' where "k = (flip d, c, p, s) # k'"
proof (cases k rule: kpar.cases)
  case (2 e c p s k')
  then show ?thesis using same other by (cases "e = d") (auto simp: neq_iff_flip)
qed (rule Nil)

section \<open>Memory accesses\<close>

text \<open>The root of a nonempty context is not the root of the subtree in its hole.\<close>

lemma kroot_in: "k \<noteq> [] \<Longrightarrow> kroot r k \<in> kaddrs k"
  by (induction r k rule: kroot.induct) (auto, metis kroot.simps(1))

lemma rb_root_st: "rb_root (st enc F k t) = kroot (root_addr t) k"
  by (simp add: st_def)

text \<open>A null or unmapped pointer cannot be dereferenced.\<close>

definition load :: "'w::len word \<Rightarrow> ('w word, 'n) rb_state \<Rightarrow> 'n option" where
  "load p s = (if p = 0 then None else rb_heap s p)"

definition store :: "'w::len word \<Rightarrow> 'n \<Rightarrow> ('w word, 'n) rb_state \<Rightarrow> ('w word, 'n) rb_state option" where
  "store p n s = (if p = 0 \<or> rb_heap s p = None then None else Some (s\<lparr>rb_heap := (rb_heap s)(p \<mapsto> n)\<rparr>))"

definition upd :: "'w::len word \<Rightarrow> 'n \<Rightarrow> ('w word, 'n) rb_state \<Rightarrow> ('w word, 'n) rb_state" where
  "upd p n s = s\<lparr>rb_heap := (rb_heap s)(p \<mapsto> n)\<rparr>"

lemma load_null [simp]: "load 0 s = None"
  by (simp add: load_def)

lemma store_load: "load p s = Some n \<Longrightarrow> store p m s = Some (upd p m s)"
  by (auto simp: load_def store_def upd_def split: if_splits)

lemma store_case: "store p m s = (case load p s of None \<Rightarrow> None | Some n \<Rightarrow> Some (upd p m s))"
  by (auto simp: load_def store_def upd_def split: option.splits)

lemma load_upd: "p \<noteq> 0 \<Longrightarrow> load q (upd p n s) = (if q = p then Some n else load q s)"
  by (auto simp: load_def upd_def)

lemma load_root_update [simp]: "load p (s\<lparr>rb_root := r\<rparr>) = load p s"
  by (simp add: load_def)

lemma rb_root_upd [simp]: "rb_root (upd p n s) = rb_root s"
  by (simp add: upd_def)

lemma addrs_node_addr: "tok t \<Longrightarrow> a \<in> addrs t \<Longrightarrow> node_addr a"
  by (simp add: tok_iff_inorder)

lemma kaddrs_node_addr: "kok k \<Longrightarrow> a \<in> kaddrs k \<Longrightarrow> node_addr a"
  by (induction k rule: kok.induct) (auto simp: addrs_node_addr)

lemma kroot_neq_root:
  assumes "zok k t" and "k \<noteq> []"
  shows "kroot r k \<noteq> root_addr t"
  using assms kroot_in [of k r] kaddrs_node_addr [of k "kroot r k"]
  by (cases t) (auto simp: zok_def node_addr_def)

lemma heap_of_notin: "b \<notin> addrs t \<Longrightarrow> heap_of enc par t b = None"
  using dom_heap_of [of enc par t] by blast

lemma ctx_heap_notin: "b \<notin> kaddrs k \<Longrightarrow> ctx_heap enc r k b = None"
  using dom_ctx_heap [of enc r k] by blast

lemma heap_of_in: "b \<in> addrs t \<Longrightarrow> \<exists>n. heap_of enc par t b = Some n"
  using dom_heap_of [of enc par t] by blast

lemma load_tree:
  assumes "zok k t" and "b \<in> addrs t"
  shows "load b (st enc F k t) = heap_of enc (kpar k) t b"
  using assms heap_of_in [of b t enc "kpar k"]
  by (auto simp: load_def st_def zok_def dest!: addrs_node_addr node_addr_nonnull)

lemma load_ctx:
  assumes "zok k t" and "b \<in> kaddrs k"
  shows "load b (st enc F k t) = ctx_heap enc (root_addr t) k b"
proof -
  have "b \<notin> addrs t" "b \<noteq> 0"
    using assms kaddrs_node_addr [of k b] by (auto simp: zok_def node_addr_def)
  moreover obtain n where "ctx_heap enc (root_addr t) k b = Some n"
    using assms(2) dom_ctx_heap [of enc "root_addr t" k] by blast
  ultimately show ?thesis
    by (simp add: load_def st_def heap_of_notin map_add_def)
qed

lemma heap_of_mk_lookup:
  assumes "sym_layout enc" and "addrs x \<inter> addrs y = {}"
  shows "heap_of enc par (mk d c a x y) b =
    (if b = a then Some (enc par c d (root_addr x) (root_addr y))
     else if b \<in> addrs x then heap_of enc a x b else heap_of enc a y b)"
proof -
  have "heap_of enc a y b = None" if "b \<in> addrs x"
    using that assms(2) by (intro heap_of_notin) auto
  then show ?thesis
    using assms by (auto simp: heap_of_mk heap_of_notin map_add_def split: option.splits)
qed

lemma ctx_heap_lookup:
  "ctx_heap enc r ((d, c, a, s) # k) b =
    (if b = a then Some (enc (kpar k) c d r (root_addr s))
     else if b \<in> addrs s then heap_of enc a s b else ctx_heap enc a k b)"
  using heap_of_in [of b s enc a] by (auto simp: heap_of_notin map_add_def)

lemma st_cong_root:
  "upd a (enc (kpar k) c' d (root_addr x) (root_addr y)) (st enc F k (mk d c a x y)) =
    st enc F k (mk d c' a x y)"
  if "sym_layout enc" "zok k (mk d c a x y)"
  using that by (simp add: st_def heap_of_mk zok_def upd_def)

lemma st_shadow:
  assumes "b \<in> kaddrs k \<union> addrs t"
  shows "st enc (F(b \<mapsto> n)) k t = st enc F k t"
proof -
  have "(F(b \<mapsto> n) ++ m) = F ++ m" if "b \<in> dom m" for m
    using that by (auto simp: map_add_def fun_eq_iff split: option.splits)
  from this [of "ctx_heap enc (root_addr t) k ++ heap_of enc (kpar k) t"] assms show ?thesis
    by (auto simp: st_def)
qed

lemmas heap_eq = upd_def st_def heap_of_mk zok_def map_add_upd_left fun_eq_iff
  Int_Un_distrib Int_Un_distrib2

end
