(* ===== verification/RB_Fixup.thy ===== *)
theory RB_Fixup
  imports RB_Shape
begin

text \<open>
  The red-black tree algorithms on trees of addresses: the repair after an insertion
  (\<open>ins_fix\<close>), the repair after a removal (\<open>rem_fix\<close>) and the removal of a node (\<open>rem\<close>), as
  functions of the subtree in focus and of its context. They are the common specification of
  \<open>rb_insert_color\<close>, \<open>rb_remove_color\<close> and \<open>rb_remove\<close> of both implementations. This theory shows that
  they keep the symmetric order of the nodes and the red-black invariants.
\<close>

section \<open>The red-black invariants\<close>

fun bh :: "'p rbt \<Rightarrow> nat" where
  "bh Leaf = 0"
| "bh (Node l c a r) = bh l + (if c = Black then 1 else 0)"

fun invh :: "'p rbt \<Rightarrow> bool" where
  "invh Leaf \<longleftrightarrow> True"
| "invh (Node l c a r) \<longleftrightarrow> invh l \<and> invh r \<and> bh l = bh r"

fun invc :: "'p rbt \<Rightarrow> bool" where
  "invc Leaf \<longleftrightarrow> True"
| "invc (Node l c a r) \<longleftrightarrow> invc l \<and> invc r \<and> (c = Red \<longrightarrow> color l = Black \<and> color r = Black)"

definition rb_tree :: "'p rbt \<Rightarrow> bool" where
  "rb_tree t \<longleftrightarrow> invh t \<and> invc t \<and> color t = Black"

text \<open>What a context requires of the black height and of the colour of the subtree in its hole.\<close>

fun hctx :: "'p frame list \<Rightarrow> nat \<Rightarrow> bool" where
  "hctx [] n \<longleftrightarrow> True"
| "hctx ((d, c, a, s) # k) n \<longleftrightarrow> invh s \<and> bh s = n \<and> hctx k (if c = Black then n + 1 else n)"

fun cctx :: "'p frame list \<Rightarrow> rb_color \<Rightarrow> bool" where
  "cctx [] col \<longleftrightarrow> col = Black"
| "cctx ((d, c, a, s) # k) col \<longleftrightarrow>
    invc s \<and> (c = Red \<longrightarrow> col = Black \<and> color s = Black) \<and> cctx k c"

lemma invh_mk [simp]: "invh (mk d c a x y) \<longleftrightarrow> invh x \<and> invh y \<and> bh x = bh y"
  by (cases d) auto

lemma bh_mk [simp]: "bh x = bh y \<Longrightarrow> bh (mk d c a x y) = bh x + (if c = Black then 1 else 0)"
  by (cases d) auto

lemma invc_mk [simp]:
  "invc (mk d c a x y) \<longleftrightarrow> invc x \<and> invc y \<and> (c = Red \<longrightarrow> color x = Black \<and> color y = Black)"
  by (cases d) auto

lemma cctx_Black: "cctx k c \<Longrightarrow> cctx k Black"
  by (cases "(k, c)" rule: cctx.cases) auto

lemma invh_paint [simp]: "invh (paint c t) \<longleftrightarrow> invh t"
  by (cases t) simp_all

lemma invc_paint_Black: "invc t \<Longrightarrow> invc (paint Black t)"
  by (cases t) simp_all

lemma bh_paint_Black: "bh (paint Black t) = (if color t = Red then Suc (bh t) else bh t)"
  by (cases t) auto

lemma color_paint_Black [simp]: "color (paint Black t) = Black"
  by (cases t) simp_all

lemma paint_Black_id: "color t = Black \<Longrightarrow> paint Black t = t"
  by (cases t) simp_all

lemma invh_zip_up: "invh (zip_up k t) \<longleftrightarrow> invh t \<and> hctx k (bh t)"
  by (induction k t rule: zip_up.induct) auto

lemma invc_zip_up: "invc (zip_up k t) \<and> color (zip_up k t) = Black \<longleftrightarrow> invc t \<and> cctx k (color t)"
  by (induction k t rule: zip_up.induct) auto

lemma rb_tree_zip_up: "rb_tree (zip_up k t) \<longleftrightarrow> invh t \<and> hctx k (bh t) \<and> invc t \<and> cctx k (color t)"
  unfolding rb_tree_def using invh_zip_up [of k t] invc_zip_up [of k t] by blast

section \<open>Symmetric order\<close>

text \<open>Two subtrees with the same inorder sequence can replace each other in any context.\<close>

lemma inorder_mk_cong:
  "inorder x = inorder x' \<Longrightarrow> inorder y = inorder y' \<Longrightarrow> inorder (mk d c a x y) = inorder (mk d c' a x' y')"
  by (cases d) simp_all

lemma inorder_zip_up_cong: "inorder t = inorder t' \<Longrightarrow> inorder (zip_up k t) = inorder (zip_up k t')"
proof (induction k t arbitrary: t' rule: zip_up.induct)
  case (2 d c a s k t)
  from "2.IH" [of "mk d c a t' s"] "2.prems" show ?case
    by (simp add: inorder_mk_cong)
qed simp

lemma tok_inorder_cong: "inorder t = inorder t' \<Longrightarrow> tok t \<longleftrightarrow> tok t'"
  by (simp add: tok_iff_inorder)

lemma zok_inorder_cong: "inorder t = inorder t' \<Longrightarrow> zok k t \<longleftrightarrow> zok k t'"
  unfolding zok_zip_up by (intro tok_inorder_cong inorder_zip_up_cong)

lemma inorder_rotate:
  "inorder (mk d c a x (mk d c' b y z)) = inorder (mk d e b (mk d e' a x y) z)"
  by (cases d) simp_all

section \<open>Repair after an insertion\<close>

text \<open>
  The loop of \<open>rb_insert_color\<close>: the subtree \<open>t\<close> in focus has a red root, its context is well
  coloured for a black one.
\<close>

fun ins_fix :: "'p frame list \<Rightarrow> 'p rbt \<Rightarrow> 'p rbt" where
  "ins_fix ((d1, Red, p, s) # (d, c, g, u) # k) t =
    (if color u = Red then ins_fix k (mk d Red g (mk d1 Black p t s) (paint Black u))
     else if d1 = d then paint Black (zip_up k (mk d Black p t (mk d Red g s u)))
     else case un d t of
         Some (cn, n, x, y) \<Rightarrow> paint Black (zip_up k (mk d Black n (mk d Red p s x) (mk d Red g y u)))
       | None \<Rightarrow> Leaf)"
| "ins_fix k t = paint Black (zip_up k t)"

lemma ins_fix_Nil [simp]: "ins_fix [] t = paint Black t"
  by simp

lemma ins_fix_Black [simp]: "ins_fix ((d1, Black, p, s) # k) t = paint Black (zip_up ((d1, Black, p, s) # k) t)"
  by simp

lemma ins_fix_recolor:
  "color u = Red \<Longrightarrow> ins_fix ((d1, Red, p, s) # (d, c, g, u) # k) t =
    ins_fix k (mk d Red g (mk d1 Black p t s) (paint Black u))"
  by simp

lemma ins_fix_straight:
  "color u = Black \<Longrightarrow> ins_fix ((d, Red, p, s) # (d, c, g, u) # k) t =
    paint Black (zip_up k (mk d Black p t (mk d Red g s u)))"
  by simp

lemma ins_fix_bent:
  "color u = Black \<Longrightarrow> ins_fix ((flip d, Red, p, s) # (d, c, g, u) # k) (mk d cn n x y) =
    paint Black (zip_up k (mk d Black n (mk d Red p s x) (mk d Red g y u)))"
  by (cases d) simp_all

declare ins_fix.simps(1) [simp del]

lemmas ins_fix_simps = ins_fix_recolor ins_fix_straight ins_fix_bent

text \<open>The cases of the loop, with the side on which the uncle is as direction of reference.\<close>

lemma ins_fix_cases:
  assumes "cctx k Black" and "color t = Red"
  obtains (Root) "k = []"
  | (Done) d p s k' where "k = (d, Black, p, s) # k'"
  | (Recolor) d1 p s d g u k' where "k = (d1, Red, p, s) # (d, Black, g, u) # k'" "color u = Red"
  | (Straight) p s d g u k' where "k = (d, Red, p, s) # (d, Black, g, u) # k'" "color u = Black"
  | (Bent) p s d g u k' n x y where "k = (flip d, Red, p, s) # (d, Black, g, u) # k'"
      "color u = Black" "t = mk d Red n x y"
proof (cases k)
  case Nil
  then show ?thesis by (rule Root)
next
  case (Cons f k1)
  obtain d1 c p s where f: "f = (d1, c, p, s)" by (cases f) auto
  show ?thesis
  proof (cases c)
    case Black
    with Cons f Done show ?thesis by blast
  next
    case Red
    with assms Cons f have "cctx k1 Red" by simp
    then obtain d g u k' where k1: "k1 = (d, Black, g, u) # k'"
      by (cases "(k1, Red)" rule: cctx.cases) auto
    obtain cn n x y where t: "t = mk d cn n x y"
      using assms(2) by (cases t rule: rbt_dir_cases [where d = d]) auto
    consider "color u = Red" | "color u = Black" "d1 = d" | "color u = Black" "d1 = flip d"
      by (metis neq_iff_flip rb_color.exhaust)
    then show ?thesis
      using Recolor Straight Bent assms(2) t Cons f Red k1 by cases auto
  qed
qed

lemma inorder_ins_fix:
  assumes "cctx k Black" and "color t = Red"
  shows "inorder (ins_fix k t) = inorder (zip_up k t)"
  using assms
proof (induction "length k" arbitrary: k t rule: less_induct)
  case less
  from less.prems show ?case
  proof (cases rule: ins_fix_cases)
    case (Recolor d1 p s d g u k')
    have "inorder (ins_fix k t) = inorder (zip_up k' (mk d Red g (mk d1 Black p t s) (paint Black u)))"
      using less Recolor by (simp add: ins_fix_recolor cctx_Black)
    also have "\<dots> = inorder (zip_up k t)"
      by (auto simp: Recolor intro!: inorder_zip_up_cong inorder_mk_cong)
    finally show ?thesis .
  next
    case (Straight p s d g u k')
    have "inorder (mk d Black p t (mk d Red g s u)) = inorder (mk d Black g (mk d Red p t s) u)"
      by (rule inorder_rotate)
    with Straight show ?thesis
      by (simp add: ins_fix_straight) (rule inorder_zip_up_cong)
  next
    case (Bent p s d g u k' n x y)
    have "inorder (mk d Black n (mk d Red p s x) (mk d Red g y u)) =
        inorder (mk d Black g (mk (flip d) Red p (mk d Red n x y) s) u)"
      by (cases d) simp_all
    with Bent show ?thesis
      by (simp add: ins_fix_bent) (rule inorder_zip_up_cong)
  qed simp_all
qed

lemma rb_tree_ins_fix:
  assumes "cctx k Black" "color t = Red" "invc t" "invh t" "hctx k (bh t)"
  shows "rb_tree (ins_fix k t)"
  using assms
proof (induction "length k" arbitrary: k t rule: less_induct)
  case less
  have paint: "rb_tree (paint Black t)" if "rb_tree t" for t :: "'a rbt"
    using that by (simp add: rb_tree_def paint_Black_id)
  from less.prems(1,2) show ?case
  proof (cases rule: ins_fix_cases)
    case Root
    with less.prems show ?thesis by (simp add: rb_tree_def invc_paint_Black)
  next
    case (Done d p s k')
    with less.prems show ?thesis by (simp only: ins_fix_Black) (simp add: paint rb_tree_zip_up)
  next
    case (Recolor d1 p s d g u k')
    have "rb_tree (ins_fix k' (mk d Red g (mk d1 Black p t s) (paint Black u)))"
      using less.prems Recolor
      by (intro less.hyps) (auto simp: invc_paint_Black bh_paint_Black cctx_Black)
    with Recolor show ?thesis by (simp add: ins_fix_recolor)
  next
    case (Straight p s d g u k')
    with less.prems show ?thesis
      by (simp add: ins_fix_straight paint rb_tree_zip_up)
  next
    case (Bent p s d g u k' n x y)
    with less.prems show ?thesis
      by (simp add: ins_fix_bent paint rb_tree_zip_up)
  qed
qed

section \<open>Repair after a removal\<close>

text \<open>
  The cases 3 and 4 of \<open>rb_remove_color\<close>: the parent \<open>p\<close> has the deficient subtree \<open>t\<close> in
  direction \<open>d\<close> and the black sibling \<open>q\<close> with the subtrees \<open>x\<close> (near) and \<open>y\<close> (far), one of
  them red.
\<close>

fun rem_rot :: "rb_dir \<Rightarrow> rb_color \<Rightarrow> 'p \<Rightarrow> 'p rbt \<Rightarrow> 'p \<Rightarrow> 'p rbt \<Rightarrow> 'p rbt \<Rightarrow> 'p rbt" where
  "rem_rot d c p t q x y =
    (if color y = Red then mk d c q (mk d Black p t x) (paint Black y)
     else case un d x of
         Some (cw, w, x1, x2) \<Rightarrow> mk d c w (mk d Black p t x1) (mk d Black q x2 y)
       | None \<Rightarrow> Leaf)"

text \<open>The loop of \<open>rb_remove_color\<close>: the subtree \<open>t\<close> lacks one black node.\<close>

fun rem_fix :: "'p frame list \<Rightarrow> 'p rbt \<Rightarrow> 'p rbt" where
  "rem_fix [] t = paint Black t"
| "rem_fix ((d, c, p, s) # k) t =
    (if color t = Red then zip_up ((d, c, p, s) # k) (paint Black t)
     else case un d s of
         Some (Black, q, x, y) \<Rightarrow>
           if color x = Black \<and> color y = Black then rem_fix k (mk d c p t (mk d Red q x y))
           else paint Black (zip_up k (rem_rot d c p t q x y))
       | Some (Red, q, x, y) \<Rightarrow>
           (case un d x of
              Some (cw, w, x1, x2) \<Rightarrow>
                if color x1 = Black \<and> color x2 = Black
                then zip_up ((d, Black, q, y) # k) (mk d Black p t (mk d Red w x1 x2))
                else paint Black (zip_up ((d, Black, q, y) # k) (rem_rot d Red p t w x1 x2))
            | None \<Rightarrow> Leaf)
       | None \<Rightarrow> Leaf)"

text \<open>The sibling of a deficient subtree is a node, and so is the near nephew if the sibling is red.\<close>

lemma rem_fix_cases:
  assumes "cctx k Black" and "hctx k (Suc (bh t))"
  obtains (Root) "k = []"
  | (Red) d c p s k' where "k = (d, c, p, s) # k'" "color t = Red"
  | (Recolor) d c p q x y k' where "k = (d, c, p, mk d Black q x y) # k'" "color t = Black"
      "color x = Black" "color y = Black"
  | (Rotate) d c p q x y k' where "k = (d, c, p, mk d Black q x y) # k'" "color t = Black"
      "color x = Red \<or> color y = Red"
  | (Sibling) d p q w x1 x2 y k' where "k = (d, Black, p, mk d Red q (mk d Black w x1 x2) y) # k'"
      "color t = Black"
proof (cases "color t = Red \<or> k = []")
  case True
  then show ?thesis
    using Root Red by (cases k) auto
next
  case False
  then obtain d c p s k' where k: "k = (d, c, p, s) # k'" by (cases k) auto
  with assms(2) have "bh s = Suc (bh t)" by simp
  then obtain cs q x y where s: "s = mk d cs q x y"
    by (cases s rule: rbt_dir_cases [where d = d]) auto
  show ?thesis
  proof (cases cs)
    case Black
    then show ?thesis
      using Recolor Rotate False k s by (cases "color x = Black \<and> color y = Black") auto
  next
    case Red
    with assms k s have c: "c = Black" and x: "invh x" "bh x = Suc (bh t)" "color x = Black"
      by (auto split: if_splits)
    then obtain w x1 x2 where "x = mk d Black w x1 x2"
      by (cases x rule: rbt_dir_cases [where d = d]) auto
    with Sibling Red c False k s show ?thesis by auto
  qed
qed

lemma rem_rot_not_Leaf: "color x = Red \<or> color y = Red \<Longrightarrow> rem_rot d c p t q x y \<noteq> Leaf"
  by (cases x rule: rbt_dir_cases [where d = d]) (auto simp: rem_rot.simps)

lemma inorder_rem_rot:
  assumes "color x = Red \<or> color y = Red"
  shows "inorder (rem_rot d c p t q x y) = inorder (mk d c' p t (mk d c'' q x y))"
proof (cases "color y = Red")
  case True
  then show ?thesis by (cases d) simp_all
next
  case False
  with assms obtain cw w x1 x2 where x: "x = mk d cw w x1 x2"
    by (cases x rule: rbt_dir_cases [where d = d]) auto
  with False show ?thesis by (cases d) simp_all
qed

declare rem_rot.simps [simp del]

lemma inorder_rem_fix:
  assumes "cctx k Black" and "invh t" and "hctx k (Suc (bh t))"
  shows "inorder (rem_fix k t) = inorder (zip_up k t)"
  using assms
proof (induction "length k" arbitrary: k t rule: less_induct)
  case less
  from less.prems(1,3) show ?case
  proof (cases rule: rem_fix_cases)
    case Root
    then show ?thesis by simp
  next
    case (Red d c p s k')
    then show ?thesis by simp (intro inorder_zip_up_cong inorder_mk_cong; simp)
  next
    case (Recolor d c p q x y k')
    have "inorder (rem_fix k' (mk d c p t (mk d Red q x y))) =
        inorder (zip_up k' (mk d c p t (mk d Red q x y)))"
      using less.prems Recolor
      by (intro less.hyps) (auto simp: cctx_Black split: if_splits)
    also have "\<dots> = inorder (zip_up k' (mk d c p t (mk d Black q x y)))"
      by (intro inorder_zip_up_cong inorder_mk_cong refl)
    finally show ?thesis using Recolor by simp
  next
    case (Rotate d c p q x y k')
    then have "inorder (zip_up k' (rem_rot d c p t q x y)) = inorder (zip_up k t)"
      by simp (intro inorder_zip_up_cong inorder_rem_rot)
    with Rotate show ?thesis by auto
  next
    case (Sibling d p q w x1 x2 y k')
    have *: "inorder (mk d Black q (mk d c1 p t (mk d c2 w x1 x2)) y) =
        inorder (mk d Black p t (mk d Red q (mk d Black w x1 x2) y))" for c1 c2
      by (cases d) simp_all
    have "inorder (mk d Black q (rem_rot d Red p t w x1 x2) y) =
        inorder (mk d Black q (mk d Red p t (mk d Black w x1 x2)) y)"
      if "\<not> (color x1 = Black \<and> color x2 = Black)"
      using that by (intro inorder_mk_cong inorder_rem_rot refl) auto
    then have "inorder (zip_up ((d, Black, q, y) # k') (rem_rot d Red p t w x1 x2)) = inorder (zip_up k t)"
      if "\<not> (color x1 = Black \<and> color x2 = Black)"
      using that Sibling * by simp (rule inorder_zip_up_cong, simp)
    then show ?thesis
      using Sibling inorder_zip_up_cong [OF *] by auto
  qed
qed

lemma rb_tree_paint: "rb_tree t \<Longrightarrow> rb_tree (paint Black t)"
  by (simp add: rb_tree_def paint_Black_id)

lemma rb_tree_rem_rot:
  assumes "cctx k c" "hctx k (Suc (bh t) + (if c = Black then 1 else 0))"
    and "invc t" "invc x" "invc y" "color t = Black"
    and "invh t" "invh x" "invh y" "bh x = bh t" "bh y = bh t"
    and "color x = Red \<or> color y = Red"
  shows "rb_tree (paint Black (zip_up k (rem_rot d c p t q x y)))"
proof (cases "color y = Red")
  case True
  with assms show ?thesis
    by (auto simp: rem_rot.simps rb_tree_zip_up bh_paint_Black invc_paint_Black intro!: rb_tree_paint)
next
  case False
  with assms obtain w x1 x2 where x: "x = mk d Red w x1 x2"
    by (cases x rule: rbt_dir_cases [where d = d]) auto
  with False assms show ?thesis
    by (auto simp: rem_rot.simps rb_tree_zip_up intro!: rb_tree_paint)
qed

lemma rb_tree_rem_fix:
  assumes "cctx k Black" "invc (paint Black t)" "invh t" "hctx k (Suc (bh t))"
  shows "rb_tree (rem_fix k t)"
  using assms
proof (induction "length k" arbitrary: k t rule: less_induct)
  case less
  from less.prems(1,4) show ?case
  proof (cases rule: rem_fix_cases)
    case Root
    with less.prems show ?thesis by (simp add: rb_tree_def)
  next
    case (Red d c p s k')
    with less.prems show ?thesis
      by (simp flip: zip_up.simps add: rb_tree_zip_up bh_paint_Black)
  next
    case (Recolor d c p q x y k')
    have "rb_tree (rem_fix k' (mk d c p t (mk d Red q x y)))"
      using less.prems Recolor
      by (intro less.hyps) (auto simp: cctx_Black paint_Black_id split: if_splits)
    with Recolor show ?thesis by simp
  next
    case (Rotate d c p q x y k')
    with less.prems have "rb_tree (paint Black (zip_up k' (rem_rot d c p t q x y)))"
      by (intro rb_tree_rem_rot) (auto simp: paint_Black_id split: if_splits)
    with Rotate show ?thesis by auto
  next
    case (Sibling d p q w x1 x2 y k')
    have "rb_tree (zip_up ((d, Black, q, y) # k') (mk d Black p t (mk d Red w x1 x2)))"
      if "color x1 = Black \<and> color x2 = Black"
      using that less.prems Sibling unfolding rb_tree_zip_up by (auto simp: paint_Black_id)
    moreover have "rb_tree (paint Black (zip_up ((d, Black, q, y) # k') (rem_rot d Red p t w x1 x2)))"
      if "\<not> (color x1 = Black \<and> color x2 = Black)"
      using that less.prems Sibling by (intro rb_tree_rem_rot) (auto simp: paint_Black_id)
    ultimately show ?thesis using Sibling by (auto simp del: zip_up.simps)
  qed
qed

section \<open>Removal of a node\<close>

text \<open>The subtree in focus replaces a removed node of colour \<open>c\<close>.\<close>

definition rem_del :: "'p frame list \<Rightarrow> rb_color \<Rightarrow> 'p rbt \<Rightarrow> 'p rbt" where
  "rem_del k c t = (if c = Black then rem_fix k t else zip_up k t)"

text \<open>The way down to the outermost node in direction \<open>d\<close>, with its context.\<close>

fun outer :: "rb_dir \<Rightarrow> 'p frame list \<Rightarrow> 'p rbt \<Rightarrow> 'p frame list \<times> 'p rbt" where
  "outer RB_LEFT k (Node (Node ll lc la lr) c a r) =
    outer RB_LEFT ((RB_LEFT, c, a, r) # k) (Node ll lc la lr)"
| "outer RB_RIGHT k (Node l c a (Node rl rc ra rr)) =
    outer RB_RIGHT ((RB_RIGHT, c, a, l) # k) (Node rl rc ra rr)"
| "outer d k t = (k, t)"

fun rem :: "'p frame list \<Rightarrow> 'p rbt \<Rightarrow> 'p rbt" where
  "rem k Leaf = zip_up k Leaf"
| "rem k (Node Leaf c a r) = rem_del k c r"
| "rem k (Node (Node ll lc la lr) c a Leaf) = rem_del k c (Node ll lc la lr)"
| "rem k (Node (Node ll lc la lr) c a (Node rl rc ra rr)) =
    (case outer RB_LEFT [] (Node rl rc ra rr) of
       (k', Node x cs s child) \<Rightarrow> rem_del (k' @ (RB_RIGHT, c, s, Node ll lc la lr) # k) cs child
     | (k', Leaf) \<Rightarrow> Leaf)"

fun kleft :: "'p frame list \<Rightarrow> 'p list" where
  "kleft [] = []"
| "kleft ((RB_LEFT, c, a, s) # k) = kleft k"
| "kleft ((RB_RIGHT, c, a, s) # k) = kleft k @ inorder s @ [a]"

fun kright :: "'p frame list \<Rightarrow> 'p list" where
  "kright [] = []"
| "kright ((RB_LEFT, c, a, s) # k) = a # inorder s @ kright k"
| "kright ((RB_RIGHT, c, a, s) # k) = kright k"

lemma inorder_zip_up: "inorder (zip_up k t) = kleft k @ inorder t @ kright k"
proof (induction k t rule: zip_up.induct)
  case (2 d c a s k t)
  then show ?case by (cases d) simp_all
qed simp

lemma outer_mk:
  "outer d k (mk d c a Leaf y) = (k, mk d c a Leaf y)"
  "x \<noteq> Leaf \<Longrightarrow> outer d k (mk d c a x y) = outer d ((d, c, a, y) # k) x"
  by (cases d; cases y; simp) (cases d; cases x; simp)

lemma size_mk [simp]: "size (mk d c a x y) = Suc (size x + size y)"
  by (cases d) simp_all

text \<open>Induction along the way down.\<close>

lemma outer_induct [consumes 1, case_names Outermost Step]:
  assumes "t \<noteq> Leaf"
    and "\<And>k c a y. P k (mk d c a Leaf y)"
    and "\<And>k c a x y. x \<noteq> Leaf \<Longrightarrow> P ((d, c, a, y) # k) x \<Longrightarrow> P k (mk d c a x y)"
  shows "P k t"
  using assms(1)
proof (induction "size t" arbitrary: k t rule: less_induct)
  case less
  then obtain c a x y where t: "t = mk d c a x y"
    by (cases t rule: rbt_dir_cases [where d = d]) auto
  show ?case
    using less.hyps [of x "(d, c, a, y) # k"] assms(2,3) unfolding t
    by (cases "x = Leaf") (simp_all add: t)
qed

lemma outer_append: "outer d (k @ k0) t = (fst (outer d k t) @ k0, snd (outer d k t))"
proof (cases "t = Leaf")
  case False
  then show ?thesis
  proof (induction k t rule: outer_induct [where d = d])
    case (Outermost k c a y)
    show ?case by (simp add: outer_mk)
  next
    case (Step k c a x y)
    then have "outer d (((d, c, a, y) # k) @ k0) x =
        (fst (outer d ((d, c, a, y) # k) x) @ k0, snd (outer d ((d, c, a, y) # k) x))"
      by blast
    with Step(1) show ?case by (simp add: outer_mk)
  qed
qed simp

lemma outer_spec:
  assumes "t \<noteq> Leaf"
  obtains k' c a y where "outer d k t = (k' @ k, mk d c a Leaf y)"
    and "zip_up k' (mk d c a Leaf y) = t" and "\<forall>f\<in>set k'. fst f = d"
proof -
  have "\<exists>k' c a y. outer d k t = (k' @ k, mk d c a Leaf y) \<and> zip_up k' (mk d c a Leaf y) = t \<and>
      (\<forall>f\<in>set k'. fst f = d)"
    using assms
  proof (induction k t rule: outer_induct [where d = d])
    case (Outermost k c a y)
    then show ?case by (auto simp: outer_mk)
  next
    case (Step k c a x y)
    then obtain k' e b z where "outer d ((d, c, a, y) # k) x = (k' @ (d, c, a, y) # k, mk d e b Leaf z)"
      "zip_up k' (mk d e b Leaf z) = x" "\<forall>f\<in>set k'. fst f = d"
      by blast
    with Step(1) show ?case
      by (intro exI [of _ "k' @ [(d, c, a, y)]"] exI [of _ e] exI [of _ b] exI [of _ z])
         (simp add: outer_mk zip_up_append)
  qed
  then show ?thesis using that by blast
qed

lemma rem_two:
  assumes "l \<noteq> Leaf" and "r \<noteq> Leaf"
  obtains k' cs s child where "rem k (Node l c a r) = rem_del (k' @ (RB_RIGHT, c, s, l) # k) cs child"
    and "zip_up k' (Node Leaf cs s child) = r" and "\<forall>f\<in>set k'. fst f = RB_LEFT"
    and "outer RB_LEFT [] r = (k', Node Leaf cs s child)"
proof -
  obtain k' cs s child where *: "outer RB_LEFT [] r = (k', Node Leaf cs s child)"
    "zip_up k' (Node Leaf cs s child) = r" "\<forall>f\<in>set k'. fst f = RB_LEFT"
    by (rule outer_spec [OF assms(2), of RB_LEFT "[]"]) simp
  with assms have "rem k (Node l c a r) = rem_del (k' @ (RB_RIGHT, c, s, l) # k) cs child"
    by (cases l; cases r) auto
  with * show ?thesis using that by blast
qed

lemma hctx_append: "hctx (k @ k') n \<Longrightarrow> hctx k n"
  by (induction k n rule: hctx.induct) auto

lemma hctx_frame: "hctx (k' @ (d, c, a, s) # k) n = hctx (k' @ (d, c, b, s) # k) n"
  by (induction k' n rule: hctx.induct) auto

lemma cctx_frame: "cctx (k' @ (d, c, a, s) # k) col = cctx (k' @ (d, c, b, s) # k) col"
  by (induction k' col rule: cctx.induct) auto

text \<open>The context of the child of the successor, after the successor has replaced the removed node.\<close>

lemma rem_two_ctx:
  assumes "rb_tree (zip_up k (Node l c a (zip_up k' (Node Leaf cs s child))))"
  shows "cctx (k' @ (RB_RIGHT, c, s, l) # k) cs"
    and "hctx (k' @ (RB_RIGHT, c, s, l) # k) (bh child + (if cs = Black then 1 else 0))"
    and "invc child" and "invh child" and "cs = Red \<longrightarrow> color child = Black"
proof -
  have "rb_tree (zip_up (k' @ (RB_RIGHT, c, a, l) # k) (Node Leaf cs s child))"
    using assms by (simp add: zip_up_append)
  then show "cctx (k' @ (RB_RIGHT, c, s, l) # k) cs"
    "hctx (k' @ (RB_RIGHT, c, s, l) # k) (bh child + (if cs = Black then 1 else 0))"
    "invc child" "invh child" "cs = Red \<longrightarrow> color child = Black"
    unfolding rb_tree_zip_up hctx_frame [of k' _ _ a _ k _ s] cctx_frame [of k' _ _ a _ k _ s]
    by auto
qed

text \<open>The successor \<open>b\<close> is not the right child of the removed node \<open>a\<close>.\<close>

lemma distant_facts:
  assumes z: "zok k (Node l c a (zip_up k' (Node Leaf cs b child)))" and k': "k' \<noteq> []"
  shows "zok k (Node l c a (zip_up k' child))" "zok k (Node l c b (zip_up k' child))" "node_addr b"
    "b \<noteq> a" "b \<notin> addrs l" "b \<notin> addrs (zip_up k' child)" "b \<notin> kaddrs k"
    "aligned (kpar k')" "kpar k' \<noteq> a" "zip_up k' child \<noteq> Leaf"
    "root_addr (zip_up k' child) = root_addr (zip_up k' (Node Leaf cs b child))"
proof -
  let ?b = "Node Leaf cs b child" and ?r = "zip_up k' child"
  have "zok k' ?b" using z unfolding zok_zip_up [of k'] by (auto simp: zok_def)
  then have ar: "addrs (zip_up k' ?b) = insert b (addrs ?r)" "b \<notin> addrs ?r" "tok ?r" "node_addr b"
    using zok_zip_up [of k' child] by (auto simp: addrs_zip_up zok_def)
  have r: "?r \<noteq> Leaf" "root_addr ?r = root_addr (zip_up k' ?b)" "kpar k' \<in> addrs ?r"
    using k' kpar_in [of k'] addrs_zip_up [of k' child] kroot_indep [of k']
    by (auto simp: root_addr_zip_up)
  show "zok k (Node l c a ?r)" "zok k (Node l c b ?r)" "node_addr b" "b \<noteq> a" "b \<notin> addrs l"
    "b \<notin> addrs ?r" "b \<notin> kaddrs k" "aligned (kpar k')" "kpar k' \<noteq> a" "?r \<noteq> Leaf"
    "root_addr ?r = root_addr (zip_up k' ?b)"
    using z ar r addrs_node_addr [OF ar(3) r(3)] by (auto simp: zok_def node_addr_def)
qed

lemma rem_del_correct:
  assumes "cctx k c" "hctx k (bh t + (if c = Black then 1 else 0))"
    and "invc t" "invh t" "c = Red \<longrightarrow> color t = Black"
  shows "rb_tree (rem_del k c t) \<and> inorder (rem_del k c t) = kleft k @ inorder t @ kright k"
  using assms cctx_Black [OF assms(1)]
  by (cases c)
     (auto simp: rem_del_def rb_tree_zip_up inorder_zip_up inorder_rem_fix invc_paint_Black
       intro!: rb_tree_rem_fix)

text \<open>Removal keeps the invariants and deletes exactly one node from the symmetric order.\<close>

lemma rem_correct:
  assumes "rb_tree (zip_up k (Node l c a r))"
  shows "rb_tree (rem k (Node l c a r)) \<and>
    inorder (rem k (Node l c a r)) = kleft k @ (inorder l @ inorder r) @ kright k"
proof -
  have t: "invh l" "invh r" "bh l = bh r" "hctx k (bh l + (if c = Black then 1 else 0))"
    "invc l" "invc r" "c = Red \<longrightarrow> color l = Black \<and> color r = Black" "cctx k c"
    using assms by (auto simp: rb_tree_zip_up)
  consider (left) "l = Leaf" | (right) "l \<noteq> Leaf" "r = Leaf" | (two) "l \<noteq> Leaf" "r \<noteq> Leaf"
    by blast
  then show ?thesis
  proof cases
    case left
    with t rem_del_correct [of k c r] show ?thesis by simp
  next
    case right
    with t rem_del_correct [of k c l] show ?thesis by (cases l) simp_all
  next
    case two
    then obtain k' cs s child where
      rem: "rem k (Node l c a r) = rem_del (k' @ (RB_RIGHT, c, s, l) # k) cs child"
      and r: "zip_up k' (Node Leaf cs s child) = r" and left: "\<forall>f\<in>set k'. fst f = RB_LEFT"
      by (rule rem_two)
    let ?k = "k' @ (RB_RIGHT, c, s, l) # k"
    have kl: "kleft k' = []" "kleft ?k = kleft k @ inorder l @ [s]"
      using left by (induction k' rule: kleft.induct) auto
    have kr: "kright ?k = kright k' @ kright k"
      by (induction k' rule: kright.induct) auto
    from r kl(1) have "inorder r = s # inorder child @ kright k'"
      by (auto simp: inorder_zip_up)
    moreover have "rb_tree (rem_del ?k cs child) \<and>
        inorder (rem_del ?k cs child) = kleft ?k @ inorder child @ kright ?k"
      using assms unfolding r [symmetric] by (intro rem_del_correct rem_two_ctx)
    ultimately show ?thesis
      using kl kr rem by simp
  qed
qed

section \<open>The order of an iteration\<close>

text \<open>
  \<open>dseq d t\<close> is the order in which an iteration in direction \<open>d\<close> visits a tree, \<open>ahead d k\<close> what it
  visits after the subtree in the hole of \<open>k\<close>.
\<close>

definition dseq :: "rb_dir \<Rightarrow> 'p rbt \<Rightarrow> 'p list" where
  "dseq d t = (if d = RB_RIGHT then inorder t else rev (inorder t))"

fun ahead :: "rb_dir \<Rightarrow> 'p frame list \<Rightarrow> 'p list" where
  "ahead d [] = []"
| "ahead d ((e, c, a, s) # k) = (if e = d then ahead d k else a # dseq d s @ ahead d k)"

text \<open>The way up: to the first ancestor that lies ahead.\<close>

fun climb :: "rb_dir \<Rightarrow> 'p frame list \<Rightarrow> 'p frame list" where
  "climb d [] = []"
| "climb d ((e, c, a, s) # k) = (if e = d then climb d k else (e, c, a, s) # k)"

definition hd_or_null :: "'w::len word list \<Rightarrow> 'w word" where
  "hd_or_null xs = (case xs of [] \<Rightarrow> 0 | x # xs' \<Rightarrow> x)"

lemma hd_or_null_simps [simp]: "hd_or_null [] = 0" "hd_or_null (x # xs) = x"
  by (simp_all add: hd_or_null_def)

lemma dseq_Leaf [simp]: "dseq d Leaf = []"
  by (simp add: dseq_def)

lemma dseq_mk [simp]: "dseq d (mk d c a x y) = dseq d y @ a # dseq d x"
  by (cases d) (simp_all add: dseq_def)

lemma dseq_mk_flip [simp]: "dseq (flip d) (mk d c a x y) = dseq (flip d) x @ a # dseq (flip d) y"
  by (cases d) (simp_all add: dseq_def)

lemma dseq_eq_Nil [simp]: "dseq d t = [] \<longleftrightarrow> t = Leaf"
  by (cases t) (auto simp: dseq_def)

lemma dseq_zip_up: "dseq d (zip_up k t) = rev (ahead (flip d) k) @ dseq d t @ ahead d k"
proof (induction k t rule: zip_up.induct)
  case (2 e c a s k t)
  show ?case
  proof (cases "e = d")
    case True
    have "rev (dseq (flip d) s) = dseq d s" by (cases d) (simp_all add: dseq_def)
    with 2 True show ?thesis by simp
  next
    case False
    then have "e = flip d" by (simp add: neq_iff_flip)
    with 2 dseq_mk_flip [of "flip d" c a t s] show ?thesis by simp
  qed
qed simp

lemma dseq_after:
  assumes "tok (zip_up k (mk d c a x y))" and "dseq d (zip_up k (mk d c a x y)) = ws @ a # zs"
  shows "zs = dseq d x @ ahead d k"
proof -
  have "distinct (ws @ a # zs)" using assms by (metis dseq_def distinct_rev tok_iff_inorder)
  moreover have "ws @ a # zs = (rev (ahead (flip d) k) @ dseq d y) @ a # (dseq d x @ ahead d k)"
    using assms(2) dseq_zip_up [of d k "mk d c a x y"] by simp
  ultimately show ?thesis using distinct_split_unique by metis
qed

lemma hd_climb: "kpar (climb d k) = hd_or_null (ahead d k)"
  by (induction d k rule: climb.induct) auto

lemma hd_or_null_append: "xs \<noteq> [] \<Longrightarrow> hd_or_null (xs @ ys) = hd xs"
  by (cases xs) simp_all

lemma hd_outer: "t \<noteq> Leaf \<Longrightarrow> hd (dseq (flip d) t) = root_addr (snd (outer d k t))"
  by (induction k t rule: outer_induct [where d = d]) (simp_all add: outer_mk)

text \<open>Every node of a tree is the root of a subtree in some context.\<close>

lemma node_position:
  assumes "a \<in> addrs t"
  obtains k d' c x y where "t = zip_up k (mk d c a x y)"
proof -
  have "\<exists>k c x y. zip_up k0 t = zip_up k (mk d c a x y)" for k0
    using assms
  proof (induction t arbitrary: k0)
    case (Node l c b r)
    consider "b = a" | "a \<in> addrs l" | "a \<in> addrs r" using Node.prems by auto
    then show ?case
    proof cases
      case 1
      then obtain x y where "Node l c b r = mk d c a x y" by (cases d) auto
      then show ?thesis by metis
    next
      case 2
      with Node.IH(1) [of "(RB_LEFT, c, b, r) # k0"] show ?thesis by simp
    next
      case 3
      with Node.IH(2) [of "(RB_RIGHT, c, b, l) # k0"] show ?thesis by simp
    qed
  qed simp
  from this [of "[]"] show ?thesis using that by auto
qed

section \<open>The height of a red-black tree\<close>

fun rb_height :: "'p rbt \<Rightarrow> nat" where
  "rb_height Leaf = 0"
| "rb_height (Node l c a r) = Suc (max (rb_height l) (rb_height r))"

lemma height_le_bh: "invh t \<Longrightarrow> invc t \<Longrightarrow> rb_height t \<le> 2 * bh t + (if color t = Red then 1 else 0)"
proof (induction t)
  case (Node l c a r)
  have "rb_height l \<le> 2 * bh l + (if c = Red then 0 else 1)"
    "rb_height r \<le> 2 * bh r + (if c = Red then 0 else 1)"
    using Node by (auto split: if_splits)
  with Node.prems show ?case by (auto split: if_splits)
qed simp

lemma bh_le_size: "invh t \<Longrightarrow> 2 ^ bh t \<le> Suc (length (inorder t))"
  by (induction t) auto

lemma rb_height_bound:
  assumes "rb_tree t"
  shows "2 ^ rb_height t \<le> (Suc (length (inorder t)))\<^sup>2"
proof -
  have "rb_height t \<le> 2 * bh t" using assms height_le_bh [of t] by (simp add: rb_tree_def)
  then have "(2 :: nat) ^ rb_height t \<le> 2 ^ (2 * bh t)" by (rule power_increasing) simp
  also have "\<dots> = (2 ^ bh t)\<^sup>2" by (simp add: power_mult mult.commute)
  also have "\<dots> \<le> (Suc (length (inorder t)))\<^sup>2"
    using assms bh_le_size [of t] by (simp add: power_mono rb_tree_def)
  finally show ?thesis .
qed

end
