(* ===== verification/RB_Access.thy ===== *)
theory RB_Access
  imports RB_Fixup
begin

text \<open>
  What the algorithms need of the accessor functions of a node, whatever its layout in memory is:
  the locale \<open>node_access\<close>. Its laws speak about the node in focus; its lemmas carry them over to
  the ancestors of the focus and to the subtrees beside the way to the root. Both
  implementations of the trees are instances.
\<close>

text \<open>
  The tests \<open>p != NULL && rb_color(p) == RB_RED\<close> and \<open>p == NULL || rb_color(p) == RB_BLACK\<close>, where
  \<open>get_color\<close> is the function \<open>rb_color\<close>.
\<close>

definition nonnull_red :: "('w::len word \<Rightarrow> 's \<Rightarrow> 'w word option) \<Rightarrow> 'w word \<Rightarrow> 's \<Rightarrow> bool option" where
  "nonnull_red get_color p s =
    (if p \<noteq> 0 then do { c \<leftarrow> get_color p s; Some (c = RB_RED) } else Some False)"

definition null_or_black :: "('w::len word \<Rightarrow> 's \<Rightarrow> 'w word option) \<Rightarrow> 'w word \<Rightarrow> 's \<Rightarrow> bool option" where
  "null_or_black get_color p s =
    (if p = 0 then Some True else do { c \<leftarrow> get_color p s; Some (c = RB_BLACK) })"

lemma null_tests [simp]: "nonnull_red get_color 0 s = Some False" "null_or_black get_color 0 s = Some True"
  by (simp_all add: nonnull_red_def null_or_black_def)

lemmas zok_unfold = zok_def Int_Un_distrib Int_Un_distrib2

section \<open>The contract of the accessor functions\<close>

locale node_access =
  fixes enc :: "('w::len, 'n) layout"
    and get_child :: "'w word \<Rightarrow> rb_dir \<Rightarrow> ('w word, 'n) rb_state \<Rightarrow> 'w word option"
    and get_color :: "'w word \<Rightarrow> ('w word, 'n) rb_state \<Rightarrow> 'w word option"
    and set_color :: "'w word \<Rightarrow> 'w word \<Rightarrow> ('w word, 'n) rb_state \<Rightarrow> ('w word, 'n) rb_state option"
  assumes sym: "sym_layout enc"
    and child_law: "zok k (mk d c a x y) \<Longrightarrow> get_child a d (st enc F k (mk d c a x y)) = Some (root_addr x)"
    and color_law: "zok k (mk d c a x y) \<Longrightarrow> get_color a (st enc F k (mk d c a x y)) = Some (color_bit c)"
    and set_color_law: "zok k (mk d c a x y) \<Longrightarrow>
      set_color a (color_bit c') (st enc F k (mk d c a x y)) = Some (st enc F k (mk d c' a x y))"
begin

text \<open>At the node in focus.\<close>

lemma child_at:
  assumes "zok k (mk d c a x y)"
  shows "get_child a d (st enc F k (mk d c a x y)) = Some (root_addr x)"
    and "get_child a (flip d) (st enc F k (mk d c a x y)) = Some (root_addr y)"
    and "get_child a RB_LEFT (st enc F k (mk d c a x y)) = Some (left_of d (root_addr x) (root_addr y))"
proof -
  show x: "get_child a d (st enc F k (mk d c a x y)) = Some (root_addr x)"
    using assms by (rule child_law)
  show y: "get_child a (flip d) (st enc F k (mk d c a x y)) = Some (root_addr y)"
    using assms child_law [of k "flip d" c a y x F] by (simp add: mk_flip)
  show "get_child a RB_LEFT (st enc F k (mk d c a x y)) = Some (left_of d (root_addr x) (root_addr y))"
    using x y by (cases d) (simp_all add: left_of_def)
qed

lemma color_at:
  assumes "zok k t" and "t \<noteq> Leaf"
  shows "get_color (root_addr t) (st enc F k t) = Some (color_bit (color t))"
  using assms color_law [of k RB_LEFT _ _ _ _ F] by (cases t) auto

lemma set_color_at:
  assumes "zok k t" and "t \<noteq> Leaf"
  shows "set_color (root_addr t) (color_bit c') (st enc F k t) = Some (st enc F k (paint c' t))"
  using assms set_color_law [of k RB_LEFT _ _ _ _ c' F] by (cases t) auto

lemma tests_at:
  assumes "zok k t"
  shows "nonnull_red get_color (root_addr t) (st enc F k t) = Some (color t = Red)"
    and "null_or_black get_color (root_addr t) (st enc F k t) = Some (color t = Black)"
  using assms by (auto simp: nonnull_red_def null_or_black_def color_at zok_def)

lemmas at_mk = color_at [of _ "mk d c a x y" for d c a x y, simplified]
  tests_at [of _ "mk d c a x y" for d c a x y, simplified]
  set_color_at [of _ "mk d c a x y" Red for d c a x y, simplified]
  set_color_at [of _ "mk d c a x y" Black for d c a x y, simplified]

lemmas at_focus = color_at tests_at set_color_at at_mk

text \<open>At an ancestor of the node in focus, and at the subtree on the other side.\<close>

lemma st_at_frame:
  assumes "zok (k1 @ (d, c, a, s) # k2) t"
  shows "st enc F (k1 @ (d, c, a, s) # k2) t = st enc F k2 (mk d c a (zip_up k1 t) s)"
    and "zok k2 (mk d c a (zip_up k1 t) s)"
  using assms by (simp_all add: st_append zok_append st_focus zok_focus sym)

lemma st_at_sibling:
  assumes "zok (k1 @ (d, c, a, s) # k2) t"
  shows "st enc F (k1 @ (d, c, a, s) # k2) t = st enc F ((flip d, c, a, zip_up k1 t) # k2) s"
    and "zok ((flip d, c, a, zip_up k1 t) # k2) s"
  using st_at_frame [OF assms] by (simp_all add: st_focus zok_focus mk_flip sym)

lemma at_frame:
  assumes "zok (k1 @ (d, c, a, s) # k2) t"
  shows "get_child a d (st enc F (k1 @ (d, c, a, s) # k2) t) = Some (kroot (root_addr t) k1)"
    and "get_child a (flip d) (st enc F (k1 @ (d, c, a, s) # k2) t) = Some (root_addr s)"
    and "get_child a RB_LEFT (st enc F (k1 @ (d, c, a, s) # k2) t) =
      Some (left_of d (kroot (root_addr t) k1) (root_addr s))"
    and "get_color a (st enc F (k1 @ (d, c, a, s) # k2) t) = Some (color_bit c)"
    and "nonnull_red get_color a (st enc F (k1 @ (d, c, a, s) # k2) t) = Some (c = Red)"
    and "null_or_black get_color a (st enc F (k1 @ (d, c, a, s) # k2) t) = Some (c = Black)"
    and "set_color a (color_bit c') (st enc F (k1 @ (d, c, a, s) # k2) t) =
      Some (st enc F (k1 @ (d, c', a, s) # k2) t)"
proof -
  note f = st_at_frame [OF assms]
  have z: "zok (k1 @ (d, c', a, s) # k2) t"
    using assms by (simp add: zok_append zok_focus) (simp add: zok_def)
  show "get_child a d (st enc F (k1 @ (d, c, a, s) # k2) t) = Some (kroot (root_addr t) k1)"
    "get_child a (flip d) (st enc F (k1 @ (d, c, a, s) # k2) t) = Some (root_addr s)"
    "get_child a RB_LEFT (st enc F (k1 @ (d, c, a, s) # k2) t) =
      Some (left_of d (kroot (root_addr t) k1) (root_addr s))"
    using f by (simp_all add: child_at root_addr_zip_up)
  show "get_color a (st enc F (k1 @ (d, c, a, s) # k2) t) = Some (color_bit c)"
    "nonnull_red get_color a (st enc F (k1 @ (d, c, a, s) # k2) t) = Some (c = Red)"
    "null_or_black get_color a (st enc F (k1 @ (d, c, a, s) # k2) t) = Some (c = Black)"
    using f color_at [OF f(2)] tests_at [OF f(2)] by simp_all
  show "set_color a (color_bit c') (st enc F (k1 @ (d, c, a, s) # k2) t) =
      Some (st enc F (k1 @ (d, c', a, s) # k2) t)"
    using f set_color_at [OF f(2)] st_at_frame [OF z] by simp
qed

lemma at_sibling:
  assumes "zok (k1 @ (d, c, a, s) # k2) t"
  shows "nonnull_red get_color (root_addr s) (st enc F (k1 @ (d, c, a, s) # k2) t) = Some (color s = Red)"
    and "null_or_black get_color (root_addr s) (st enc F (k1 @ (d, c, a, s) # k2) t) = Some (color s = Black)"
    and "s \<noteq> Leaf \<Longrightarrow> get_color (root_addr s) (st enc F (k1 @ (d, c, a, s) # k2) t) =
      Some (color_bit (color s))"
    and "s \<noteq> Leaf \<Longrightarrow> set_color (root_addr s) (color_bit c') (st enc F (k1 @ (d, c, a, s) # k2) t) =
      Some (st enc F (k1 @ (d, c, a, paint c' s) # k2) t)"
proof -
  note f = st_at_sibling [OF assms]
  have z: "zok (k1 @ (d, c, a, paint c' s) # k2) t"
    using assms by (simp add: zok_append zok_focus) (simp add: zok_def)
  show "nonnull_red get_color (root_addr s) (st enc F (k1 @ (d, c, a, s) # k2) t) = Some (color s = Red)"
    "null_or_black get_color (root_addr s) (st enc F (k1 @ (d, c, a, s) # k2) t) = Some (color s = Black)"
    "s \<noteq> Leaf \<Longrightarrow> get_color (root_addr s) (st enc F (k1 @ (d, c, a, s) # k2) t) =
      Some (color_bit (color s))"
    using f color_at [OF f(2)] tests_at [OF f(2)] by simp_all
  show "set_color (root_addr s) (color_bit c') (st enc F (k1 @ (d, c, a, s) # k2) t) =
      Some (st enc F (k1 @ (d, c, a, paint c' s) # k2) t)" if "s \<noteq> Leaf"
    using that f set_color_at [OF f(2)] st_at_sibling [OF z] by simp
qed

lemmas at_way = at_frame(1-6) at_sibling(1-3) at_frame(7) at_sibling(4)
  at_frame(7) [where c' = Red, simplified] at_sibling(4) [where c' = Red, simplified]
  at_frame(7) [where c' = Black, simplified] at_sibling(4) [where c' = Black, simplified]

lemmas at_parent = at_way [of "[]", simplified]

lemmas at_grandparent = at_way [of "[(e', cb, b, sb)]" for e' cb b sb, simplified]

lemma at_root:
  assumes "zok k t" and "t \<noteq> Leaf"
  shows "set_color (rb_root (st enc F k t)) RB_BLACK (st enc F k t) =
      Some (st enc F [] (paint Black (zip_up k t)))"
    and "rb_root (st enc F k t) \<noteq> 0"
proof -
  have "zip_up k t \<noteq> Leaf"
    using assms(2) root_addr_in [OF assms(2)] addrs_zip_up [of k t] by auto
  moreover have "rb_root (st enc F k t) = root_addr (zip_up k t)"
    by (simp add: st_def root_addr_zip_up)
  ultimately show "set_color (rb_root (st enc F k t)) RB_BLACK (st enc F k t) =
      Some (st enc F [] (paint Black (zip_up k t)))" "rb_root (st enc F k t) \<noteq> 0"
    using assms set_color_at [of "[]" "zip_up k t" Black F]
    by (simp_all add: st_zip_up [OF sym assms(1)] zok_zip_up)
qed

end

end
