(* ===== verification/RB_Search.thy ===== *)
theory RB_Search
  imports RB_Fixup Key_Order
begin

text \<open>
  Binary search in the trees, and the two contracts that connect the trees with their users:
  \<open>node_order\<close>, what the comparators of a user have to promise, and \<open>dictionary\<close>, what an
  implementation of insertion, removal and lookup promises to its user.
\<close>

section \<open>The way down to a key\<close>

text \<open>\<open>f\<close> tells the direction to take at a node, or that the node is the one that is searched.\<close>

fun locate :: "('p \<Rightarrow> rb_dir option) \<Rightarrow> 'p frame list \<Rightarrow> 'p rbt \<Rightarrow> 'p frame list \<times> 'p rbt" where
  "locate f k Leaf = (k, Leaf)"
| "locate f k (Node l c a r) =
    (case f a of
       None \<Rightarrow> (k, Node l c a r)
     | Some RB_LEFT \<Rightarrow> locate f ((RB_LEFT, c, a, r) # k) l
     | Some RB_RIGHT \<Rightarrow> locate f ((RB_RIGHT, c, a, l) # k) r)"

lemma locate_mk: "f a = Some d \<Longrightarrow> locate f k (mk d c a x y) = locate f ((d, c, a, y) # k) x"
  by (cases d) simp_all

text \<open>Induction along the search.\<close>

lemma locate_induct [case_names Leaf Found Step]:
  assumes "\<And>k. P k Leaf"
    and "\<And>k l c a r. f a = None \<Longrightarrow> P k (Node l c a r)"
    and "\<And>k d c a x y. f a = Some d \<Longrightarrow> P ((d, c, a, y) # k) x \<Longrightarrow> P k (mk d c a x y)"
  shows "P k t"
proof (induction t arbitrary: k)
  case (Node l c a r)
  show ?case
  proof (cases "f a")
    case None
    then show ?thesis by (rule assms(2))
  next
    case (Some d)
    with Node assms(3) [OF Some] show ?thesis by (cases d) fastforce+
  qed
qed (rule assms(1))

lemma zip_up_locate: "zip_up (fst (locate f k t)) (snd (locate f k t)) = zip_up k t"
  by (induction f k t rule: locate.induct) (auto split: option.split rb_dir.split)

lemma locate_cong: "\<forall>a\<in>addrs t. f a = g a \<Longrightarrow> locate f k t = locate g k t"
  by (induction f k t rule: locate.induct) (auto split: option.split rb_dir.split)

text \<open>A node \<open>a\<close> lies to the right of everything on its left, seen by a search.\<close>

definition monotone_search :: "('p \<Rightarrow> rb_dir option) \<Rightarrow> 'p list \<Rightarrow> bool" where
  "monotone_search f xs \<longleftrightarrow>
    sorted_wrt (\<lambda>a b. (f a \<noteq> Some RB_RIGHT \<longrightarrow> f b = Some RB_LEFT) \<and>
      (f b \<noteq> Some RB_LEFT \<longrightarrow> f a = Some RB_RIGHT)) xs"

lemma monotone_search_append [simp]:
  "monotone_search f (xs @ ys) \<longleftrightarrow> monotone_search f xs \<and> monotone_search f ys \<and>
    (\<forall>a\<in>set xs. \<forall>b\<in>set ys. (f a \<noteq> Some RB_RIGHT \<longrightarrow> f b = Some RB_LEFT) \<and>
      (f b \<noteq> Some RB_LEFT \<longrightarrow> f a = Some RB_RIGHT))"
  by (simp add: monotone_search_def sorted_wrt_append)

lemma monotone_search_Cons [simp]:
  "monotone_search f (x # xs) \<longleftrightarrow> monotone_search f xs \<and>
    (\<forall>b\<in>set xs. (f x \<noteq> Some RB_RIGHT \<longrightarrow> f b = Some RB_LEFT) \<and>
      (f b \<noteq> Some RB_LEFT \<longrightarrow> f x = Some RB_RIGHT))"
  by (auto simp: monotone_search_def)

text \<open>The search ends at the node that is searched, or at the leaf that separates the smaller nodes from the larger ones.\<close>

lemma locate_correct:
  assumes "monotone_search f (inorder t)"
    and "\<forall>a\<in>set (kleft k). f a = Some RB_RIGHT" and "\<forall>a\<in>set (kright k). f a = Some RB_LEFT"
  shows "(snd (locate f k t) = Leaf \<longrightarrow>
        (\<forall>a\<in>set (kleft (fst (locate f k t))). f a = Some RB_RIGHT) \<and>
        (\<forall>a\<in>set (kright (fst (locate f k t))). f a = Some RB_LEFT)) \<and>
    (\<forall>l c a r. snd (locate f k t) = Node l c a r \<longrightarrow> f a = None)"
  using assms
proof (induction f k t rule: locate.induct)
  case (2 f k l c a r)
  show ?case
  proof (cases "f a")
    case None
    then show ?thesis by simp
  next
    case (Some d)
    have sub: "monotone_search f (inorder l)" "monotone_search f (inorder r)"
      using "2.prems"(1) unfolding inorder.simps monotone_search_append monotone_search_Cons by blast+
    show ?thesis
    proof (cases d)
      case RB_LEFT
      with Some have eq: "locate f k (Node l c a r) = locate f ((RB_LEFT, c, a, r) # k) l" by simp
      have "\<forall>b\<in>addrs r. f b = Some RB_LEFT"
        using "2.prems"(1) Some RB_LEFT unfolding inorder.simps monotone_search_append monotone_search_Cons
        by simp
      then show ?thesis
        unfolding eq using Some RB_LEFT sub(1) "2.prems"(2,3)
        by (intro "2.IH"(1)) (auto simp only: kleft.simps kright.simps set_simps set_append)
    next
      case RB_RIGHT
      with Some have eq: "locate f k (Node l c a r) = locate f ((RB_RIGHT, c, a, l) # k) r" by simp
      have "\<forall>b\<in>addrs l. f b = Some RB_RIGHT"
        using "2.prems"(1) Some RB_RIGHT unfolding inorder.simps monotone_search_append
        by (metis list.set_intros(1) option.inject rb_dir.distinct(1))
      then show ?thesis
        unfolding eq using Some RB_RIGHT sub(2) "2.prems"(2,3)
        by (intro "2.IH"(2)) (auto simp only: kleft.simps kright.simps set_simps set_append)
    qed
  qed
qed simp

text \<open>The direction of the hole of a context.\<close>

fun kdir :: "'p frame list \<Rightarrow> rb_dir" where
  "kdir [] = RB_LEFT"
| "kdir ((d, c, a, s) # k) = d"

section \<open>The contract of the comparators\<close>

text \<open>
  \<open>cmp\<close> compares two entries and \<open>key_cmp\<close> a key with an entry; \<open>K\<close> is the set of keys for which
  they are correct.
\<close>

locale node_order =
  fixes cmp :: "'e \<Rightarrow> 'e \<Rightarrow> int" and key_cmp :: "'k::linorder \<Rightarrow> 'e \<Rightarrow> int"
    and key_of :: "'e \<Rightarrow> 'k" and K :: "'k set"
  assumes key_cmp_neg: "k \<in> K \<Longrightarrow> key_of e \<in> K \<Longrightarrow> key_cmp k e < 0 \<longleftrightarrow> k < key_of e"
    and key_cmp_pos: "k \<in> K \<Longrightarrow> key_of e \<in> K \<Longrightarrow> 0 < key_cmp k e \<longleftrightarrow> key_of e < k"
    and cmp_key: "key_of e \<in> K \<Longrightarrow> key_of e' \<in> K \<Longrightarrow> sgn (cmp e e') = sgn (key_cmp (key_of e) e')"
begin

lemma key_dir:
  assumes "k \<in> K" and "key_of e \<in> K"
  shows "cmp_dir (key_cmp k e) =
    (if k < key_of e then Some RB_LEFT else if key_of e < k then Some RB_RIGHT else None)"
  using key_cmp_neg [OF assms] key_cmp_pos [OF assms] by (simp add: cmp_dir_def)

lemma cmp_dir_sgn: "sgn c = sgn c' \<Longrightarrow> cmp_dir c = cmp_dir c'"
  by (auto simp: cmp_dir_def sgn_if split: if_splits)

lemma node_dir:
  assumes "key_of e' \<in> K" and "key_of e \<in> K"
  shows "cmp_dir (cmp e' e) = cmp_dir (key_cmp (key_of e') e)"
  using cmp_key [OF assms] by (rule cmp_dir_sgn)

lemma monotone_key:
  assumes "k \<in> K" and "\<forall>e\<in>set es. key_of e \<in> K" and "sorted_wrt (<) (map key_of es)"
  shows "monotone_search (\<lambda>e. cmp_dir (key_cmp k e)) es"
  using assms(2,3)
  by (induction es) (auto simp: key_dir [OF assms(1)] monotone_search_def [of _ "[]"])

end

text \<open>
  The comparators of \<open>rbtree/test_rbtree.c\<close>: entries are pointers to an \<open>A_NODE\<close>, and \<open>vals\<close> is its
  field \<open>val\<close> in memory.
\<close>

definition A_NODE_KEY_CMP :: "('e \<Rightarrow> int) \<Rightarrow> int \<Rightarrow> 'e \<Rightarrow> int" where
  "A_NODE_KEY_CMP vals k node = c_sub_wrap k (vals node)"

definition A_NODE_CMP :: "('e \<Rightarrow> int) \<Rightarrow> 'e \<Rightarrow> 'e \<Rightarrow> int" where
  "A_NODE_CMP vals n1 n2 = c_sub_wrap (vals n1) (vals n2)"

interpretation a_node: node_order "A_NODE_CMP vals" "A_NODE_KEY_CMP vals" vals safe_keys
  for vals :: "'e \<Rightarrow> int"
  by unfold_locales (simp_all add: A_NODE_KEY_CMP_def A_NODE_CMP_def safe_keys_def c_sub_wrap_exact)

section \<open>The contract of a dictionary of entries\<close>

text \<open>
  The operations that \<open>RB_GEN\<close> generates, and what they do to a finite map from keys to entries.
  An entry is a pointer; \<open>0\<close> is the null pointer.
\<close>

datatype ('e, 'k) dict_op = RB_INSERT 'e | RB_REMOVE 'k | RB_FIND 'k

fun dict_spec :: "('e::zero \<Rightarrow> 'k) \<Rightarrow> ('e, 'k) dict_op \<Rightarrow> ('k \<rightharpoonup> 'e) \<Rightarrow> 'e \<times> ('k \<rightharpoonup> 'e)" where
  "dict_spec key_of (RB_INSERT e) m =
    (case m (key_of e) of Some e' \<Rightarrow> (e', m) | None \<Rightarrow> (e, m(key_of e \<mapsto> e)))"
| "dict_spec key_of (RB_REMOVE k) m =
    (case m k of Some e \<Rightarrow> (e, m(k := None)) | None \<Rightarrow> (0, m))"
| "dict_spec key_of (RB_FIND k) m = (case m k of Some e \<Rightarrow> (e, m) | None \<Rightarrow> (0, m))"

fun dict_spec_run :: "('e::zero \<Rightarrow> 'k) \<Rightarrow> ('e, 'k) dict_op list \<Rightarrow> ('k \<rightharpoonup> 'e) \<Rightarrow> 'e list \<times> ('k \<rightharpoonup> 'e)"
  where
  "dict_spec_run key_of [] m = ([], m)"
| "dict_spec_run key_of (x # xs) m =
    (let (e, m) = dict_spec key_of x m; (es, m) = dict_spec_run key_of xs m in (e # es, m))"

text \<open>The keys that an operation uses are in \<open>K\<close>, the entries that it inserts in \<open>N\<close>.\<close>

fun legal_op :: "'k set \<Rightarrow> 'e set \<Rightarrow> ('e, 'k) dict_op \<Rightarrow> bool" where
  "legal_op K N (RB_INSERT e) \<longleftrightarrow> e \<in> N"
| "legal_op K N (RB_REMOVE k) \<longleftrightarrow> k \<in> K"
| "legal_op K N (RB_FIND k) \<longleftrightarrow> k \<in> K"

fun run_ops :: "('o \<Rightarrow> 's \<Rightarrow> ('r \<times> 's) option) \<Rightarrow> 'o list \<Rightarrow> 's \<Rightarrow> ('r list \<times> 's) option" where
  "run_ops step [] s = Some ([], s)"
| "run_ops step (x # xs) s = do { (r, s) \<leftarrow> step x s; (rs, s) \<leftarrow> run_ops step xs s; Some (r # rs, s) }"

locale dictionary =
  fixes step :: "('e::zero, 'k) dict_op \<Rightarrow> 's \<Rightarrow> ('e \<times> 's) option"
    and sim :: "'s \<Rightarrow> ('k \<rightharpoonup> 'e) \<Rightarrow> bool"
    and key_of :: "'e \<Rightarrow> 'k" and K :: "'k set" and N :: "'e set"
  assumes insert_present: "sim s m \<Longrightarrow> e \<in> N \<Longrightarrow> m (key_of e) = Some e' \<Longrightarrow>
      step (RB_INSERT e) s = Some (e', s)"
    and insert_new: "sim s m \<Longrightarrow> e \<in> N \<Longrightarrow> m (key_of e) = None \<Longrightarrow>
      \<exists>s'. step (RB_INSERT e) s = Some (e, s') \<and> sim s' (m(key_of e \<mapsto> e))"
    and remove_present: "sim s m \<Longrightarrow> k \<in> K \<Longrightarrow> m k = Some e \<Longrightarrow>
      \<exists>s'. step (RB_REMOVE k) s = Some (e, s') \<and> sim s' (m(k := None))"
    and remove_absent: "sim s m \<Longrightarrow> k \<in> K \<Longrightarrow> m k = None \<Longrightarrow> step (RB_REMOVE k) s = Some (0, s)"
    and find_entry: "sim s m \<Longrightarrow> k \<in> K \<Longrightarrow>
      step (RB_FIND k) s = Some (case m k of Some e \<Rightarrow> e | None \<Rightarrow> 0, s)"
begin

lemma step_simulates:
  assumes "sim s m" and "legal_op K N x"
  shows "\<exists>s'. step x s = Some (fst (dict_spec key_of x m), s') \<and> sim s' (snd (dict_spec key_of x m))"
proof (cases x)
  case (RB_INSERT e)
  then show ?thesis
    using insert_present [OF assms(1), of e] insert_new [OF assms(1), of e] assms
    by (cases "m (key_of e)") auto
next
  case (RB_REMOVE k)
  then show ?thesis
    using remove_present [OF assms(1), of k] remove_absent [OF assms(1), of k] assms
    by (cases "m k") auto
next
  case (RB_FIND k)
  then show ?thesis
    using find_entry [OF assms(1), of k] assms by (cases "m k") auto
qed

lemma run_simulates:
  assumes "sim s m" and "list_all (legal_op K N) xs"
  shows "\<exists>s'. run_ops step xs s = Some (fst (dict_spec_run key_of xs m), s') \<and>
    sim s' (snd (dict_spec_run key_of xs m))"
  using assms
proof (induction xs arbitrary: s m)
  case (Cons x xs)
  then obtain s1 where s1: "step x s = Some (fst (dict_spec key_of x m), s1)"
    "sim s1 (snd (dict_spec key_of x m))"
    using step_simulates by fastforce
  with Cons.IH [OF s1(2)] Cons.prems(2) show ?case by (auto simp: case_prod_beta)
qed simp

end

section \<open>Trees of entries\<close>

definition entries :: "'w::len word \<Rightarrow> 'w word rbt \<Rightarrow> 'w word list" where
  "entries offset t = map (RB_ENTRY offset) (inorder t)"

definition tree_map :: "('w::len word \<Rightarrow> 'k) \<Rightarrow> 'w word \<Rightarrow> 'w word rbt \<Rightarrow> ('k \<rightharpoonup> 'w word)" where
  "tree_map key_of offset t = (\<lambda>k. find (\<lambda>e. key_of e = k) (entries offset t))"

text \<open>A red-black tree of entries of \<open>N\<close> that is sorted by their keys.\<close>

definition tree_ok :: "('w::len word \<Rightarrow> 'k::linorder) \<Rightarrow> 'w word \<Rightarrow> 'w word set \<Rightarrow> 'w word rbt \<Rightarrow> bool" where
  "tree_ok key_of offset N t \<longleftrightarrow> tok t \<and> rb_tree t \<and> sorted_wrt (<) (map key_of (entries offset t)) \<and>
    set (entries offset t) \<subseteq> N"

definition key_search :: "('k \<Rightarrow> 'w::len word \<Rightarrow> int) \<Rightarrow> 'w word \<Rightarrow> 'k \<Rightarrow> 'w word \<Rightarrow> rb_dir option" where
  "key_search key_cmp offset k a = cmp_dir (key_cmp k (RB_ENTRY offset a))"

text \<open>
  The user of a tree: \<open>N\<close> are the entries that may be inserted, none of them null, the address of
  the node in them aligned, and the key one that the comparators handle.
\<close>

locale rb_client = node_order cmp key_cmp key_of K
  for cmp :: "'w::len word \<Rightarrow> 'w word \<Rightarrow> int" and key_cmp :: "'k::linorder \<Rightarrow> 'w word \<Rightarrow> int"
    and key_of :: "'w word \<Rightarrow> 'k" and K :: "'k set" +
  fixes offset :: "'w word" and N :: "'w word set"
  assumes entry_nonnull: "e \<in> N \<Longrightarrow> e \<noteq> 0"
    and entry_node: "e \<in> N \<Longrightarrow> node_addr (e + offset)"
    and entry_key: "e \<in> N \<Longrightarrow> key_of e \<in> K"
begin

lemma tree_ok_Leaf: "tree_ok key_of offset N Leaf"
  by (simp add: tree_ok_def rb_tree_def entries_def)

lemma tree_ok_key: "tree_ok key_of offset N t \<Longrightarrow> a \<in> addrs t \<Longrightarrow> key_of (RB_ENTRY offset a) \<in> K"
  using entry_key by (auto simp: tree_ok_def entries_def)

lemma tree_map_distinct: "tree_ok key_of offset N t \<Longrightarrow> distinct (map key_of (entries offset t))"
  using strict_sorted_distinct by (auto simp: tree_ok_def)

lemma search_monotone:
  assumes "tree_ok key_of offset N t" and "k \<in> K"
  shows "monotone_search (key_search key_cmp offset k) (inorder t)"
proof -
  have "monotone_search (\<lambda>e. cmp_dir (key_cmp k e)) (entries offset t)"
    using assms entry_key by (intro monotone_key) (auto simp: tree_ok_def)
  then show ?thesis
    by (simp add: monotone_search_def entries_def sorted_wrt_map key_search_def)
qed

lemma node_locate:
  assumes "tree_ok key_of offset N t" and "e \<in> N"
  shows "locate (\<lambda>a. cmp_dir (cmp e (RB_ENTRY offset a))) k t = locate (key_search key_cmp offset (key_of e)) k t"
  using node_dir [OF entry_key [OF assms(2)] tree_ok_key [OF assms(1)]]
  by (intro locate_cong) (simp add: key_search_def)

lemma locate_present:
  assumes t: "tree_ok key_of offset N t" and k: "k \<in> K" and m: "tree_map key_of offset t k = Some e"
  obtains kk l c r where "locate (key_search key_cmp offset k) [] t = (kk, Node l c (e + offset) r)"
proof -
  obtain kk t' where loc: "locate (key_search key_cmp offset k) [] t = (kk, t')" by fastforce
  have zip: "zip_up kk t' = t" using zip_up_locate [of "key_search key_cmp offset k" "[]" t] loc by simp
  have e: "e + offset \<in> addrs t" "key_of e = k"
    using m tree_map_distinct [OF t]
    by (auto simp: tree_map_def find_key_eq_Some_iff entries_def)
  have none: "key_search key_cmp offset k (e + offset) = None"
    using key_dir [OF k, of e] k e(2) by (simp add: key_search_def)
  show thesis
  proof (cases t')
    case Leaf
    then have "\<forall>a\<in>addrs t. key_search key_cmp offset k a \<noteq> None"
      using locate_correct [OF search_monotone [OF t k], of "[]"] loc zip inorder_zip_up [of kk t'] by auto
    with e(1) none show thesis by simp
  next
    case (Node l c a r)
    then have a: "key_search key_cmp offset k a = None" "a \<in> addrs t"
      using locate_correct [OF search_monotone [OF t k], of "[]"] loc zip inorder_zip_up [of kk t'] by auto
    have "key_of (RB_ENTRY offset a) = k"
      using a key_dir [OF k tree_ok_key [OF t a(2)]] by (simp add: key_search_def split: if_splits)
    with e a tree_map_distinct [OF t] have "RB_ENTRY offset a = e"
      using m by (auto simp: tree_map_def find_key_eq_Some_iff entries_def inj_on_def distinct_map)
    then have "a = e + offset" by auto
    with loc Node show thesis using that by simp
  qed
qed

lemma locate_absent:
  assumes t: "tree_ok key_of offset N t" and k: "k \<in> K" and m: "tree_map key_of offset t k = None"
  obtains kk where "locate (key_search key_cmp offset k) [] t = (kk, Leaf)" and "inorder t = kleft kk @ kright kk"
    and "\<forall>a\<in>set (kleft kk). key_of (RB_ENTRY offset a) < k"
    and "\<forall>a\<in>set (kright kk). k < key_of (RB_ENTRY offset a)" and "zip_up kk Leaf = t"
proof -
  obtain kk t' where loc: "locate (key_search key_cmp offset k) [] t = (kk, t')" by fastforce
  have zip: "zip_up kk t' = t" using zip_up_locate [of "key_search key_cmp offset k" "[]" t] loc by simp
  note dir = key_dir [OF k tree_ok_key [OF t]]
  have "t' = Leaf"
  proof (cases t')
    case (Node l c a r)
    then have a: "key_search key_cmp offset k a = None" "a \<in> addrs t"
      using locate_correct [OF search_monotone [OF t k], of "[]"] loc zip inorder_zip_up [of kk t'] by auto
    then have "key_of (RB_ENTRY offset a) = k"
      using dir [OF a(2)] by (simp add: key_search_def split: if_splits)
    with a m show ?thesis by (auto simp: tree_map_def find_None_iff entries_def)
  qed simp
  with zip have t': "zip_up kk Leaf = t" "inorder t = kleft kk @ kright kk"
    using inorder_zip_up [of kk Leaf] by auto
  with locate_correct [OF search_monotone [OF t k], of "[]"] loc \<open>t' = Leaf\<close>
  have f: "\<forall>a\<in>set (kleft kk). key_search key_cmp offset k a = Some RB_RIGHT" "\<forall>a\<in>set (kright kk). key_search key_cmp offset k a = Some RB_LEFT"
    by auto
  have "\<forall>a\<in>set (kleft kk). key_of (RB_ENTRY offset a) < k"
    "\<forall>a\<in>set (kright kk). k < key_of (RB_ENTRY offset a)"
    using f dir t'(2) by (auto simp: key_search_def split: if_splits)
  with t' loc \<open>t' = Leaf\<close> show thesis using that by blast
qed

text \<open>What insertion and removal do to the sorted tree and to the map.\<close>

lemma tree_insert:
  assumes t: "tree_ok key_of offset N t" and e: "e \<in> N" and m: "tree_map key_of offset t (key_of e) = None"
    and loc: "locate (key_search key_cmp offset (key_of e)) [] t = (kk, Leaf)"
    and t': "t' = ins_fix kk (Node Leaf Red (e + offset) Leaf)"
  shows "tree_ok key_of offset N t' \<and> tree_map key_of offset t' = (tree_map key_of offset t)(key_of e \<mapsto> e)"
proof -
  obtain kk' where kk': "locate (key_search key_cmp offset (key_of e)) [] t = (kk', Leaf)"
    "inorder t = kleft kk' @ kright kk'" "\<forall>a\<in>set (kleft kk'). key_of (RB_ENTRY offset a) < key_of e"
    "\<forall>a\<in>set (kright kk'). key_of e < key_of (RB_ENTRY offset a)" "zip_up kk' Leaf = t"
    by (rule locate_absent [OF t entry_key [OF e] m])
  with loc have [simp]: "kk' = kk" by simp
  have c: "cctx kk Black" "hctx kk 0"
    using t kk'(5) rb_tree_zip_up [of kk Leaf] by (auto simp: tree_ok_def)
  have rb: "rb_tree t'"
    unfolding t' using c by (intro rb_tree_ins_fix) simp_all
  have ino: "inorder t' = kleft kk @ (e + offset) # kright kk"
    unfolding t' using c by (simp add: inorder_ins_fix inorder_zip_up)
  have ent: "entries offset t = map (RB_ENTRY offset) (kleft kk) @ map (RB_ENTRY offset) (kright kk)"
    "entries offset t' = map (RB_ENTRY offset) (kleft kk) @ e # map (RB_ENTRY offset) (kright kk)"
    using kk'(2) ino by (simp_all add: entries_def)
  have sorted: "sorted_wrt (<) (map key_of (entries offset t'))"
    using t kk'(3,4) unfolding tree_ok_def ent by (auto simp: sorted_wrt_append)
  have "e \<notin> set (entries offset t)"
    using m by (auto simp: tree_map_def find_None_iff)
  then have "e + offset \<notin> addrs t"
    by (force simp: entries_def)
  then have "tok t'"
    using t entry_node [OF e] kk'(2) by (auto simp: tok_iff_inorder ino tree_ok_def)
  with rb sorted e t have "tree_ok key_of offset N t'"
    unfolding tree_ok_def ent by simp
  moreover from this tree_map_distinct have "distinct (map key_of (entries offset t'))" by blast
  then have "tree_map key_of offset t' = (tree_map key_of offset t)(key_of e \<mapsto> e)"
    unfolding tree_map_def ent by (rule find_key_insert)
  ultimately show ?thesis ..
qed

lemma tree_remove:
  assumes t: "tree_ok key_of offset N t" and zip: "zip_up kk (Node l c (e + offset) r) = t"
    and t': "t' = rem kk (Node l c (e + offset) r)"
  shows "tree_ok key_of offset N t' \<and> tree_map key_of offset t' = (tree_map key_of offset t)(key_of e := None)"
proof -
  have rem: "rb_tree t'" "inorder t' = kleft kk @ (inorder l @ inorder r) @ kright kk"
    using rem_correct [of kk l c "e + offset" r] t zip unfolding t' by (auto simp: tree_ok_def)
  have ino: "inorder t = kleft kk @ (inorder l @ (e + offset) # inorder r) @ kright kk"
    using zip inorder_zip_up [of kk "Node l c (e + offset) r"] by simp
  let ?xs = "map (RB_ENTRY offset) (kleft kk @ inorder l)" and ?ys = "map (RB_ENTRY offset) (inorder r @ kright kk)"
  have ent: "entries offset t = ?xs @ e # ?ys" "entries offset t' = ?xs @ ?ys"
    using ino rem(2) by (simp_all add: entries_def)
  have "tok t'"
    using t by (auto simp: tok_iff_inorder ino rem(2) tree_ok_def)
  moreover have "sorted_wrt (<) (map key_of (entries offset t'))" "set (entries offset t') \<subseteq> N"
    using t unfolding tree_ok_def ent by (auto simp: sorted_wrt_append)
  moreover have "tree_map key_of offset t' = (tree_map key_of offset t)(key_of e := None)"
    using tree_map_distinct [OF t] unfolding tree_map_def ent by (rule find_key_delete)
  ultimately show ?thesis using rem(1) by (simp add: tree_ok_def)
qed

end

text \<open>The entries of \<open>rbtree/test_rbtree.c\<close>: \<open>offset\<close> is the offset of the member \<open>node\<close> in \<open>A_NODE\<close>.\<close>

definition a_nodes :: "('w::len word \<Rightarrow> int) \<Rightarrow> 'w word \<Rightarrow> 'w word set" where
  "a_nodes vals offset = {e. e \<noteq> 0 \<and> node_addr (e + offset) \<and> vals e \<in> safe_keys}"

interpretation a_client: rb_client "A_NODE_CMP vals" "A_NODE_KEY_CMP vals" vals safe_keys offset "a_nodes vals offset"
  for vals :: "'w::len word \<Rightarrow> int" and offset :: "'w word"
  by unfold_locales (simp_all add: a_nodes_def)

end
