(* ===== verification/RB_Dict.thy ===== *)
theory RB_Dict
  imports RB_Search
begin

text \<open>
  From trees to dictionaries: an implementation whose insertion, removal and lookup transform the
  tree in memory as \<open>ins_fix\<close>, \<open>rem\<close> and \<open>locate\<close> say (locale \<open>tree_impl\<close>) satisfies the contract
  \<open>dictionary\<close>. Both implementations of the trees are instances.
\<close>

section \<open>The tree that a memory holds\<close>

text \<open>The memory \<open>s\<close> holds the red-black tree \<open>t\<close>.\<close>

definition holds :: "('w::len, 'n) layout \<Rightarrow> ('w word, 'n) rb_state \<Rightarrow> 'w word rbt \<Rightarrow> bool" where
  "holds enc s t \<longleftrightarrow> tok t \<and> rb_tree t \<and> rb_root s = root_addr t \<and>
    (\<forall>a\<in>addrs t. rb_heap s a = heap_of enc 0 t a)"

lemma holds_st:
  assumes "holds enc s t"
  shows "s = st enc (rb_heap s) [] t"
proof -
  have "rb_heap s x = (rb_heap s ++ heap_of enc 0 t) x" for x
    using assms heap_of_in [of x t enc 0]
    by (cases "x \<in> addrs t") (auto simp: holds_def map_add_def heap_of_notin)
  then have "rb_heap s = rb_heap s ++ heap_of enc 0 t" by (rule ext)
  with assms show ?thesis by (simp add: st_def holds_def)
qed

lemma st_holds: "tok t \<Longrightarrow> rb_tree t \<Longrightarrow> holds enc (st enc F [] t) t"
  using heap_of_in [of _ t enc 0] by (fastforce simp: holds_def st_def map_add_def)

lemma rb_heap_st_mapped: "F x \<noteq> None \<Longrightarrow> rb_heap (st enc F [] t) x \<noteq> None"
  by (simp add: st_def map_add_def split: option.splits)

text \<open>The tree around one of its nodes.\<close>

lemma holds_node:
  assumes "holds enc s t" and "sym_layout enc" and "t = zip_up k (mk d c a x y)"
  shows "zok k (mk d c a x y)" and "rb_tree (zip_up k (mk d c a x y))"
    and "s = st enc (rb_heap s) k (mk d c a x y)"
proof -
  show z: "zok k (mk d c a x y)" "rb_tree (zip_up k (mk d c a x y))"
    using assms by (simp_all add: zok_zip_up holds_def)
  show "s = st enc (rb_heap s) k (mk d c a x y)"
    using holds_st [OF assms(1)] st_move [OF assms(2) z(1), of "[]" t "rb_heap s"] assms(3) by simp
qed

text \<open>The memory after the removal of a node, whose cell keeps its contents.\<close>

lemma holds_remove:
  assumes h: "holds enc s t" and sym: "sym_layout enc" and t: "t = zip_up k (Node l c a r)"
    and ino: "inorder t = xs @ a # ys"
    and s': "s' = st enc ((rb_heap s)(a \<mapsto> enc (kpar k) c RB_LEFT (root_addr l) (root_addr r))) [] (rem k (Node l c a r))"
  shows "\<exists>t'. holds enc s' t' \<and> inorder t' = xs @ ys" and "b \<notin> set (xs @ ys) \<Longrightarrow> rb_heap s' b = rb_heap s b"
proof -
  note node = holds_node [where d = RB_LEFT, unfolded mk.simps, OF h sym t]
  have "distinct (xs @ a # ys)" using h ino by (metis holds_def tok_iff_inorder)
  moreover have "xs @ a # ys = (kleft k @ inorder l) @ a # (inorder r @ kright k)"
    using ino t inorder_zip_up [of k "Node l c a r"] by simp
  ultimately have "xs = kleft k @ inorder l" "ys = inorder r @ kright k"
    using distinct_split_unique by metis+
  then have rem: "rb_tree (rem k (Node l c a r))" "inorder (rem k (Node l c a r)) = xs @ ys"
    using rem_correct [OF node(2)] by simp_all
  moreover have "tok (rem k (Node l c a r))" using h ino rem(2) by (auto simp: holds_def tok_iff_inorder)
  ultimately show "\<exists>t'. holds enc s' t' \<and> inorder t' = xs @ ys" unfolding s' using st_holds by blast
  have "load a s = Some (enc (kpar k) c RB_LEFT (root_addr l) (root_addr r))"
    using node(1) load_tree [OF node(1), of a enc "rb_heap s"] node(3) by simp
  then show "rb_heap s' b = rb_heap s b" if "b \<notin> set (xs @ ys)"
    using that rem(2) by (auto simp: s' st_def heap_of_notin map_add_def load_def split: if_splits)
qed

section \<open>Implementations of a dictionary\<close>

definition dict_sim :: "('w::len, 'n) layout \<Rightarrow> ('w word \<Rightarrow> 'k::linorder) \<Rightarrow> 'w word \<Rightarrow> 'w word set
    \<Rightarrow> ('w word, 'n) rb_state \<Rightarrow> ('k \<rightharpoonup> 'w word) \<Rightarrow> bool" where
  "dict_sim enc key_of offset N s m \<longleftrightarrow>
    (\<exists>t. tree_ok key_of offset N t \<and> holds enc s t \<and> m = tree_map key_of offset t) \<and>
    (\<forall>e\<in>N. rb_heap s (e + offset) \<noteq> None)"

lemma dict_sim_st:
  assumes "tree_ok key_of offset N t" and "\<forall>e\<in>N. F (e + offset) \<noteq> None"
  shows "dict_sim enc key_of offset N (st enc F [] t) (tree_map key_of offset t)"
  using assms st_holds [of t enc F] rb_heap_st_mapped [of F _ enc t] unfolding dict_sim_def tree_ok_def by blast

context rb_client
begin

text \<open>The place of a new entry.\<close>

lemma tree_insert_entries:
  assumes t: "tree_ok key_of offset N t" and e: "e \<in> N" and m: "tree_map key_of offset t (key_of e) = None"
    and loc: "locate (key_search key_cmp offset (key_of e)) [] t = (kk, Leaf)"
  shows "entries offset (ins_fix kk (Node Leaf Red (e + offset) Leaf)) =
    filter (\<lambda>x. key_of x < key_of e) (entries offset t) @ e # filter (\<lambda>x. key_of e < key_of x) (entries offset t)"
proof -
  obtain kk' where kk': "locate (key_search key_cmp offset (key_of e)) [] t = (kk', Leaf)"
    "inorder t = kleft kk' @ kright kk'" "\<forall>a\<in>set (kleft kk'). key_of (RB_ENTRY offset a) < key_of e"
    "\<forall>a\<in>set (kright kk'). key_of e < key_of (RB_ENTRY offset a)" "zip_up kk' Leaf = t"
    by (rule locate_absent [OF t entry_key [OF e] m])
  with loc have kk: "kk' = kk" by simp
  have "cctx kk Black" using t kk'(5) rb_tree_zip_up [of kk Leaf] kk by (auto simp: tree_ok_def)
  then have "inorder (ins_fix kk (Node Leaf Red (e + offset) Leaf)) = kleft kk @ (e + offset) # kright kk"
    by (simp add: inorder_ins_fix inorder_zip_up)
  moreover have "filter (\<lambda>x. key_of x < key_of e) (entries offset t) = map (RB_ENTRY offset) (kleft kk)"
    "filter (\<lambda>x. key_of e < key_of x) (entries offset t) = map (RB_ENTRY offset) (kright kk)"
    using kk'(2-4) kk by (force simp: entries_def intro: filter_True filter_False)+
  ultimately show ?thesis by (simp add: entries_def)
qed

end

locale tree_impl = rb_client cmp key_cmp key_of K offset N
  for cmp :: "'w::len word \<Rightarrow> 'w word \<Rightarrow> int" and key_cmp :: "'k::linorder \<Rightarrow> 'w word \<Rightarrow> int"
    and key_of :: "'w word \<Rightarrow> 'k" and K :: "'k set" and offset :: "'w word" and N :: "'w word set" +
  fixes enc :: "('w, 'n) layout"
    and step :: "('w word, 'k) dict_op \<Rightarrow> ('w word, 'n) rb_state \<Rightarrow> ('w word \<times> ('w word, 'n) rb_state) option"
  assumes find_tree: "tree_ok key_of offset N t \<Longrightarrow> k \<in> K \<Longrightarrow>
      locate (key_search key_cmp offset k) [] t = (kk, t') \<Longrightarrow>
      step (RB_FIND k) (st enc F [] t) =
        Some (case t' of Leaf \<Rightarrow> 0 | Node l c a r \<Rightarrow> RB_ENTRY offset a, st enc F [] t)"
    and insert_found: "tree_ok key_of offset N t \<Longrightarrow> e \<in> N \<Longrightarrow>
      locate (key_search key_cmp offset (key_of e)) [] t = (kk, Node l c a r) \<Longrightarrow>
      step (RB_INSERT e) (st enc F [] t) = Some (RB_ENTRY offset a, st enc F [] t)"
    and insert_leaf: "tree_ok key_of offset N t \<Longrightarrow> e \<in> N \<Longrightarrow> F (e + offset) = Some n \<Longrightarrow>
      e + offset \<notin> addrs t \<Longrightarrow> locate (key_search key_cmp offset (key_of e)) [] t = (kk, Leaf) \<Longrightarrow>
      step (RB_INSERT e) (st enc F [] t) = Some (e, st enc F [] (ins_fix kk (Node Leaf Red (e + offset) Leaf)))"
    and remove_leaf: "tree_ok key_of offset N t \<Longrightarrow> k \<in> K \<Longrightarrow>
      locate (key_search key_cmp offset k) [] t = (kk, Leaf) \<Longrightarrow>
      step (RB_REMOVE k) (st enc F [] t) = Some (0, st enc F [] t)"
    and remove_found: "tree_ok key_of offset N t \<Longrightarrow> k \<in> K \<Longrightarrow>
      locate (key_search key_cmp offset k) [] t = (kk, Node l c (e + offset) r) \<Longrightarrow> e \<noteq> 0 \<Longrightarrow>
      \<exists>F'. step (RB_REMOVE k) (st enc F [] t) = Some (e, st enc F' [] (rem kk (Node l c (e + offset) r))) \<and>
        dom F \<subseteq> dom F'"
begin

lemma sim_cases:
  assumes "dict_sim enc key_of offset N s m"
  obtains t where "tree_ok key_of offset N t" and "m = tree_map key_of offset t"
    and "s = st enc (rb_heap s) [] t" and "\<forall>e\<in>N. rb_heap s (e + offset) \<noteq> None"
  using assms holds_st by (auto simp: dict_sim_def)

lemma find_map:
  assumes t: "tree_ok key_of offset N t" and k: "k \<in> K"
  shows "step (RB_FIND k) (st enc F [] t) =
    Some (case tree_map key_of offset t k of Some e \<Rightarrow> e | None \<Rightarrow> 0, st enc F [] t)"
proof (cases "tree_map key_of offset t k")
  case None
  obtain kk where "locate (key_search key_cmp offset k) [] t = (kk, Leaf)"
    by (rule locate_absent [OF t k None])
  with find_tree [OF t k this] None show ?thesis by simp
next
  case (Some e)
  obtain kk l c r where "locate (key_search key_cmp offset k) [] t = (kk, Node l c (e + offset) r)"
    by (rule locate_present [OF t k Some])
  with find_tree [OF t k this] Some show ?thesis by simp
qed

lemma insert_present_map:
  assumes t: "tree_ok key_of offset N t" and e: "e \<in> N" and m: "tree_map key_of offset t (key_of e) = Some e'"
  shows "step (RB_INSERT e) (st enc F [] t) = Some (e', st enc F [] t)"
proof -
  obtain kk l c r where "locate (key_search key_cmp offset (key_of e)) [] t = (kk, Node l c (e' + offset) r)"
    by (rule locate_present [OF t entry_key [OF e] m])
  from insert_found [OF t e this] show ?thesis by simp
qed

lemma insert_new_map:
  assumes t: "tree_ok key_of offset N t" and e: "e \<in> N" and m: "tree_map key_of offset t (key_of e) = None"
    and F: "F (e + offset) \<noteq> None"
  obtains t' where "step (RB_INSERT e) (st enc F [] t) = Some (e, st enc F [] t')"
    and "tree_ok key_of offset N t'" and "tree_map key_of offset t' = (tree_map key_of offset t)(key_of e \<mapsto> e)"
    and "entries offset t' = filter (\<lambda>x. key_of x < key_of e) (entries offset t) @ e #
          filter (\<lambda>x. key_of e < key_of x) (entries offset t)"
proof -
  obtain kk where kk: "locate (key_search key_cmp offset (key_of e)) [] t = (kk, Leaf)"
    by (rule locate_absent [OF t entry_key [OF e] m])
  have new: "e + offset \<notin> addrs t"
    using m by (force simp: tree_map_def find_None_iff entries_def)
  from insert_leaf [OF t e _ new kk] F tree_insert [OF t e m kk refl] tree_insert_entries [OF t e m kk] show thesis
    using that by auto
qed

lemma remove_map:
  assumes t: "tree_ok key_of offset N t" and k: "k \<in> K" and m: "tree_map key_of offset t k = Some e"
  obtains t' F' where "step (RB_REMOVE k) (st enc F [] t) = Some (e, st enc F' [] t')" and "dom F \<subseteq> dom F'"
    and "tree_ok key_of offset N t'" and "tree_map key_of offset t' = (tree_map key_of offset t)(k := None)"
proof -
  obtain kk l c r where loc: "locate (key_search key_cmp offset k) [] t = (kk, Node l c (e + offset) r)"
    by (rule locate_present [OF t k m])
  have zip: "zip_up kk (Node l c (e + offset) r) = t"
    using zip_up_locate [of "key_search key_cmp offset k" "[]" t] loc by simp
  have e: "key_of e = k" "e \<noteq> 0"
    using m t tree_map_distinct [OF t] entry_nonnull
    by (auto simp: tree_map_def find_key_eq_Some_iff tree_ok_def)
  from remove_found [OF t k loc e(2), of F] tree_remove [OF t zip refl] e(1) that show thesis
    by metis
qed

end

sublocale tree_impl \<subseteq> dictionary step "dict_sim enc key_of offset N" key_of K N
proof
  fix s m e
  assume sim: "dict_sim enc key_of offset N s m" and e: "e \<in> N"
  obtain t where t: "tree_ok key_of offset N t" "m = tree_map key_of offset t"
    "s = st enc (rb_heap s) [] t" "\<forall>e\<in>N. rb_heap s (e + offset) \<noteq> None"
    by (rule sim_cases [OF sim])
  show "step (RB_INSERT e) s = Some (e', s)" if "m (key_of e) = Some e'" for e'
    using insert_present_map [OF t(1) e, of e' "rb_heap s"] that t by simp
  show "\<exists>s'. step (RB_INSERT e) s = Some (e, s') \<and> dict_sim enc key_of offset N s' (m(key_of e \<mapsto> e))"
    if "m (key_of e) = None"
  proof -
    from that t(2) have none: "tree_map key_of offset t (key_of e) = None" by simp
    obtain t' where "step (RB_INSERT e) (st enc (rb_heap s) [] t) = Some (e, st enc (rb_heap s) [] t')"
      "tree_ok key_of offset N t'" "tree_map key_of offset t' = (tree_map key_of offset t)(key_of e \<mapsto> e)"
      using insert_new_map [OF t(1) e none, of "rb_heap s"] t(4) e by blast
    with t dict_sim_st [of key_of offset N t' "rb_heap s" enc] show ?thesis by auto
  qed
next
  fix s m k
  assume sim: "dict_sim enc key_of offset N s m" and k: "k \<in> K"
  obtain t where t: "tree_ok key_of offset N t" "m = tree_map key_of offset t"
    "s = st enc (rb_heap s) [] t" "\<forall>e\<in>N. rb_heap s (e + offset) \<noteq> None"
    by (rule sim_cases [OF sim])
  show "step (RB_FIND k) s = Some (case m k of Some e \<Rightarrow> e | None \<Rightarrow> 0, s)"
    using find_map [OF t(1) k, of "rb_heap s"] t by simp
  show "step (RB_REMOVE k) s = Some (0, s)" if "m k = None"
  proof -
    from that t(2) have none: "tree_map key_of offset t k = None" by simp
    obtain kk where "locate (key_search key_cmp offset k) [] t = (kk, Leaf)"
      by (rule locate_absent [OF t(1) k none])
    from remove_leaf [OF t(1) k this, of "rb_heap s"] t(3) show ?thesis by simp
  qed
  show "\<exists>s'. step (RB_REMOVE k) s = Some (e, s') \<and> dict_sim enc key_of offset N s' (m(k := None))"
    if "m k = Some e" for e
  proof -
    from that t(2) have some: "tree_map key_of offset t k = Some e" by simp
    obtain t' F' where "step (RB_REMOVE k) (st enc (rb_heap s) [] t) = Some (e, st enc F' [] t')"
      "dom (rb_heap s) \<subseteq> dom F'" "tree_ok key_of offset N t'"
      "tree_map key_of offset t' = (tree_map key_of offset t)(k := None)"
      by (rule remove_map [OF t(1) k some])
    with t dict_sim_st [of key_of offset N t' F' enc] show ?thesis by (auto simp: subset_iff dom_def)
  qed
qed

section \<open>The same tree in every implementation\<close>

text \<open>What an operation does to the tree, and its result.\<close>

fun tree_step :: "('k \<Rightarrow> 'w::len word \<Rightarrow> int) \<Rightarrow> ('w word \<Rightarrow> 'k) \<Rightarrow> 'w word \<Rightarrow> ('w word, 'k) dict_op \<Rightarrow> 'w word rbt
    \<Rightarrow> 'w word \<times> 'w word rbt" where
  "tree_step key_cmp key_of offset (RB_INSERT e) t =
    (case locate (key_search key_cmp offset (key_of e)) [] t of
       (k, Leaf) \<Rightarrow> (e, ins_fix k (Node Leaf Red (e + offset) Leaf))
     | (k, Node l c a r) \<Rightarrow> (RB_ENTRY offset a, t))"
| "tree_step key_cmp key_of offset (RB_REMOVE ky) t =
    (case locate (key_search key_cmp offset ky) [] t of
       (k, Leaf) \<Rightarrow> (0, t)
     | (k, Node l c a r) \<Rightarrow> (RB_ENTRY offset a, rem k (Node l c a r)))"
| "tree_step key_cmp key_of offset (RB_FIND ky) t =
    (case locate (key_search key_cmp offset ky) [] t of
       (k, Leaf) \<Rightarrow> (0, t)
     | (k, Node l c a r) \<Rightarrow> (RB_ENTRY offset a, t))"

fun tree_run :: "('k \<Rightarrow> 'w::len word \<Rightarrow> int) \<Rightarrow> ('w word \<Rightarrow> 'k) \<Rightarrow> 'w word \<Rightarrow> ('w word, 'k) dict_op list \<Rightarrow> 'w word rbt
    \<Rightarrow> 'w word list \<times> 'w word rbt" where
  "tree_run key_cmp key_of offset [] t = ([], t)"
| "tree_run key_cmp key_of offset (x # xs) t =
    (let (e, t) = tree_step key_cmp key_of offset x t; (es, t) = tree_run key_cmp key_of offset xs t in (e # es, t))"

context tree_impl
begin

lemma step_tree:
  assumes t: "tree_ok key_of offset N t" and x: "legal_op K N x" and F: "\<forall>e\<in>N. F (e + offset) \<noteq> None"
    and step_x: "tree_step key_cmp key_of offset x t = (e, t')"
  shows "\<exists>F'. step x (st enc F [] t) = Some (e, st enc F' [] t') \<and> dom F \<subseteq> dom F' \<and> tree_ok key_of offset N t'"
proof (cases x)
  case (RB_INSERT n)
  obtain kk t0 where loc: "locate (key_search key_cmp offset (key_of n)) [] t = (kk, t0)" by fastforce
  from RB_INSERT x have n: "n \<in> N" by simp
  show ?thesis
  proof (cases t0)
    case Leaf
    have none: "tree_map key_of offset t (key_of n) = None"
      using locate_present [OF t entry_key [OF n]] loc Leaf by (metis not_Some_eq rbt.distinct(1) snd_conv)
    then have "n + offset \<notin> addrs t" by (force simp: tree_map_def find_None_iff entries_def)
    with RB_INSERT Leaf loc F n step_x insert_leaf [OF t n _ this, of F] tree_insert [OF t n none _ refl] show ?thesis
      by auto
  next
    case (Node l c a r)
    with RB_INSERT loc step_x insert_found [OF t n, of kk l c a r F] t show ?thesis by auto
  qed
next
  case (RB_REMOVE ky)
  obtain kk t0 where loc: "locate (key_search key_cmp offset ky) [] t = (kk, t0)" by fastforce
  from RB_REMOVE x have k: "ky \<in> K" by simp
  show ?thesis
  proof (cases t0)
    case Leaf
    with RB_REMOVE loc step_x remove_leaf [OF t k, of kk F] t show ?thesis by auto
  next
    case (Node l c a r)
    have zip: "zip_up kk (Node l c (RB_ENTRY offset a + offset) r) = t"
      using zip_up_locate [of "key_search key_cmp offset ky" "[]" t] loc Node by simp
    then have "RB_ENTRY offset a \<in> set (entries offset t)"
      using addrs_zip_up [of kk "Node l c a r"] by (auto simp: entries_def)
    then have "RB_ENTRY offset a \<noteq> 0" using t entry_nonnull by (auto simp: tree_ok_def)
    with remove_found [OF t k, of kk l c "RB_ENTRY offset a" r F] tree_remove [OF t zip refl] RB_REMOVE loc Node step_x
    show ?thesis by auto
  qed
next
  case (RB_FIND ky)
  obtain kk t0 where loc: "locate (key_search key_cmp offset ky) [] t = (kk, t0)" by fastforce
  from RB_FIND x have k: "ky \<in> K" by simp
  from find_tree [OF t k loc, of F] RB_FIND loc step_x t show ?thesis
    by (cases t0) auto
qed

lemma run_tree:
  assumes "tree_ok key_of offset N t" and "list_all (legal_op K N) xs" and "\<forall>e\<in>N. F (e + offset) \<noteq> None"
    and "tree_run key_cmp key_of offset xs t = (es, t')"
  shows "\<exists>F'. run_ops step xs (st enc F [] t) = Some (es, st enc F' [] t') \<and> tree_ok key_of offset N t'"
  using assms
proof (induction xs arbitrary: t F es)
  case (Cons x xs)
  obtain e t1 where e: "tree_step key_cmp key_of offset x t = (e, t1)" by fastforce
  obtain es' where es: "tree_run key_cmp key_of offset xs t1 = (es', t')" "es = e # es'"
    using Cons.prems(4) e by (auto split: prod.splits)
  obtain F1 where F1: "step x (st enc F [] t) = Some (e, st enc F1 [] t1)" "dom F \<subseteq> dom F1" "tree_ok key_of offset N t1"
    using step_tree [OF Cons.prems(1) _ Cons.prems(3) e] Cons.prems(2) by auto
  then have "\<forall>e\<in>N. F1 (e + offset) \<noteq> None" using Cons.prems(3) by (auto simp: dom_def subset_iff)
  from Cons.IH [OF F1(3) _ this es(1)] Cons.prems(2) F1(1) es(2) show ?case by auto
qed auto

end

context tree_impl
begin

text \<open>Every sequence of operations, from the empty tree on.\<close>

lemma sim_empty:
  assumes "\<forall>e\<in>N. rb_heap s (e + offset) \<noteq> None" and "rb_root s = 0"
  shows "dict_sim enc key_of offset N s Map.empty"
proof -
  have "holds enc s Leaf" "tree_map key_of offset Leaf = Map.empty"
    using assms(2) by (simp_all add: holds_def rb_tree_def tree_map_def entries_def fun_eq_iff)
  then show ?thesis
    using assms(1) tree_ok_Leaf unfolding dict_sim_def by metis
qed

lemma run_from_empty:
  assumes "\<forall>e\<in>N. rb_heap s (e + offset) \<noteq> None" and "rb_root s = 0" and "list_all (legal_op K N) ops"
  shows "\<exists>s' t. run_ops step ops s = Some (fst (dict_spec_run key_of ops Map.empty), s') \<and>
    holds enc s' t \<and> sorted_wrt (<) (map key_of (entries offset t)) \<and>
    tree_map key_of offset t = snd (dict_spec_run key_of ops Map.empty)"
  using run_simulates [OF sim_empty [OF assms(1,2)] assms(3)]
  by (auto simp: dict_sim_def tree_ok_def)

end

section \<open>An example\<close>

text \<open>A tree of three nodes on a 64-bit machine, for the examples.\<close>

definition ex_tree :: "64 word rbt" where
  "ex_tree = Node (Node Leaf Red 0x1008 Leaf) Black 0x2008 (Node Leaf Red 0x3008 Leaf)"

lemma ex_tok: "tok ex_tree"
  by (simp add: ex_tree_def node_addr_def aligned_def)

lemma ex_inorder: "inorder ex_tree = [0x1008, 0x2008, 0x3008]"
  by (simp add: ex_tree_def)

lemma ex_rb_tree: "rb_tree ex_tree"
  by (simp add: ex_tree_def rb_tree_def)

end
