(* ===== verification/RB_Check.thy ===== *)
theory RB_Check
  imports RB_Access RB_Dict Test_Outcome "HOL-Library.Multiset"
begin

text \<open>
  The checks and the random tests of \<open>rbtree/test_rbtree.c\<close>. The file is compiled with either of the two headers; the
  functions of the header that a check calls are arguments of the definitions here. The locale
  \<open>checked_impl\<close> has what the checks find on every implementation of the trees.
\<close>

section \<open>The black height\<close>

partial_function (option) get_rbtree_black_height ::
  "('w::len word \<Rightarrow> rb_dir \<Rightarrow> 's \<Rightarrow> 'w word option) \<Rightarrow> ('w word \<Rightarrow> 's \<Rightarrow> 'w word option) \<Rightarrow> 'w word \<Rightarrow> 's
    \<Rightarrow> int outcome option" where
  "get_rbtree_black_height child col node s =
    (if node = 0 then Some (Passed 0)
     else do {
       c \<leftarrow> col node s;
       let bh = (if c = RB_BLACK then 1 else 0);
       l \<leftarrow> child node RB_LEFT s;
       lbh \<leftarrow> get_rbtree_black_height child col l s;
       case lbh of Failed \<Rightarrow> Some Failed | Passed lbh \<Rightarrow> do {
         r \<leftarrow> child node RB_RIGHT s;
         rbh \<leftarrow> get_rbtree_black_height child col r s;
         case rbh of Failed \<Rightarrow> Some Failed | Passed rbh \<Rightarrow>
           (case assert_int_equal lbh rbh of Failed \<Rightarrow> Some Failed
            | Passed _ \<Rightarrow> do { b \<leftarrow> c_int (bh + lbh); Some (Passed b) }) } })"

definition validate_rbtree_black_height ::
  "('w::len word \<Rightarrow> rb_dir \<Rightarrow> 's \<Rightarrow> 'w word option) \<Rightarrow> ('w word \<Rightarrow> 's \<Rightarrow> 'w word option) \<Rightarrow> 'w word \<Rightarrow> int \<Rightarrow> 's
    \<Rightarrow> unit outcome option" where
  "validate_rbtree_black_height child col node n s =
    passed (get_rbtree_black_height child col node s) (\<lambda>b. Some (assert_int_equal b n))"

section \<open>The symmetric order\<close>

text \<open>\<open>vals\<close> is the member \<open>val\<close> of the entries in memory, \<open>sorted_node\<close> has the members \<open>val\<close> of the array.\<close>

partial_function (option) traverse_rbtree ::
  "('w::len word \<Rightarrow> rb_dir \<Rightarrow> 's \<Rightarrow> 'w word option) \<Rightarrow> ('w word \<Rightarrow> int) \<Rightarrow> 'w word \<Rightarrow> 'w word \<Rightarrow> int list \<Rightarrow> 'w word \<Rightarrow> 's
    \<Rightarrow> 'w word outcome option" where
  "traverse_rbtree child vals offset node sorted_node index s =
    (if node = 0 then Some (Passed index)
     else do {
       l \<leftarrow> child node RB_LEFT s;
       i \<leftarrow> traverse_rbtree child vals offset l sorted_node index s;
       case i of Failed \<Rightarrow> Some Failed | Passed index \<Rightarrow> do {
         v \<leftarrow> c_nth sorted_node (uint index);
         case assert_int_equal v (vals (RB_ENTRY offset node)) of Failed \<Rightarrow> Some Failed
         | Passed _ \<Rightarrow> do {
             r \<leftarrow> child node RB_RIGHT s;
             traverse_rbtree child vals offset r sorted_node (index + 1) s } } })"

definition validate_rbtree_sorted_order ::
  "('w::len word \<Rightarrow> rb_dir \<Rightarrow> ('w word, 'n) rb_state \<Rightarrow> 'w word option) \<Rightarrow> ('w word \<Rightarrow> int) \<Rightarrow> 'w word \<Rightarrow> int list \<Rightarrow> 'w word
    \<Rightarrow> ('w word, 'n) rb_state \<Rightarrow> unit outcome option" where
  "validate_rbtree_sorted_order child vals offset sorted_node n_node s =
    passed (traverse_rbtree child vals offset (rb_root s) sorted_node 0 s)
      (\<lambda>index. Some (assert_int_equal index n_node))"

text \<open>The comparison of a list with the beginning of an array, and what is left of the array.\<close>

fun compare :: "int list \<Rightarrow> int list \<Rightarrow> int list outcome option" where
  "compare [] ys = Some (Passed ys)"
| "compare (x # xs) [] = None"
| "compare (x # xs) (y # ys) = (if y = x then compare xs ys else Some Failed)"

lemma compare_append: "compare (xs @ zs) ys = passed (compare xs ys) (compare zs)"
  by (induction xs ys rule: compare.induct) simp_all

lemma compare_passed: "compare xs ys = Some (Passed zs) \<longleftrightarrow> ys = xs @ zs"
  by (induction xs ys rule: compare.induct) auto

lemma compare_total: "length xs \<le> length ys \<Longrightarrow> compare xs ys \<noteq> None"
  by (induction xs ys rule: compare.induct) simp_all

lemma c_nth_drop: "c_nth xs (int n) = (case drop n xs of [] \<Rightarrow> None | x # _ \<Rightarrow> Some x)"
  by (auto simp: c_nth_def drop_eq_Nil not_le Cons_nth_drop_Suc [symmetric] split: list.split)

lemma unat_plus_of_nat:
  fixes i :: "'w::len word"
  assumes "unat i + n < 2 ^ LENGTH('w)"
  shows "unat (i + word_of_nat n) = unat i + n"
proof -
  have "i + word_of_nat n = word_of_nat (unat i + n)" by simp
  moreover have "unat (word_of_nat (unat i + n) :: 'w word) = unat i + n"
    using assms unfolding unat_of_nat by (rule mod_less)
  ultimately show ?thesis by (simp only:)
qed

section \<open>Checks on the trees in memory\<close>

lemma length_inorder_less:
  fixes t :: "'w::len word rbt"
  assumes "tok t"
  shows "length (inorder t) < 2 ^ LENGTH('w)"
proof -
  have "length (inorder t) = card (addrs t)" using assms by (simp add: distinct_card tok_iff_inorder)
  also have "\<dots> < card (UNIV :: 'w word set)"
    using assms by (intro psubset_card_mono) (auto simp: tok_iff_inorder node_addr_def)
  finally show ?thesis by (simp add: card_word)
qed

lemma bh_less_width:
  fixes t :: "'w::len word rbt"
  assumes "tok t" and "invh t"
  shows "bh t \<le> LENGTH('w)"
proof -
  have "(2 :: nat) ^ bh t \<le> 2 ^ LENGTH('w)"
    using bh_le_size [OF assms(2)] length_inorder_less [OF assms(1)] by linarith
  then show ?thesis by simp
qed

context node_access
begin

text \<open>A node and its two subtrees in focus.\<close>

lemma node_views:
  assumes "zok k (Node l c a r)"
  shows "a \<noteq> 0" and "zok ((RB_LEFT, c, a, r) # k) l" and "zok ((RB_RIGHT, c, a, l) # k) r"
    and "get_child a RB_LEFT (st enc F k (Node l c a r)) = Some (root_addr l)"
    and "get_child a RB_RIGHT (st enc F k (Node l c a r)) = Some (root_addr r)"
    and "get_color a (st enc F k (Node l c a r)) = Some (color_bit c)"
    and "st enc F k (Node l c a r) = st enc F ((RB_LEFT, c, a, r) # k) l"
    and "st enc F k (Node l c a r) = st enc F ((RB_RIGHT, c, a, l) # k) r"
  using assms child_at [of k RB_LEFT c a l r F] color_at [OF assms, of F]
  by (simp_all add: st_focus sym zok_focus) (simp add: zok_def node_addr_def)

lemma black_height_st:
  assumes "zok k t" and w: "int LENGTH('w) \<le> INT_MAX"
  shows "get_rbtree_black_height get_child get_color (root_addr t) (st enc F k t) =
    Some (if invh t then Passed (int (bh t)) else Failed)"
  using assms(1)
proof (induction t arbitrary: k)
  case Leaf
  show ?case by (subst get_rbtree_black_height.simps) simp
next
  case (Node l c a r)
  note v = node_views(1-3) [OF Node.prems] node_views(4-8) [OF Node.prems, of F]
  let ?t = "Node l c a r"
  have int: "c_int ((if c = Black then 1 else 0) + int (bh l)) = Some (int (bh ?t))" if "invh ?t"
  proof -
    have "bh ?t \<le> LENGTH('w)" using that Node.prems by (intro bh_less_width) (auto simp: zok_def)
    with w show ?thesis by (auto simp: c_int_def INT_MIN_def)
  qed
  have "get_rbtree_black_height get_child get_color (root_addr l) (st enc F k ?t) = Some (if invh l then Passed (int (bh l)) else Failed)"
    "get_rbtree_black_height get_child get_color (root_addr r) (st enc F k ?t) = Some (if invh r then Passed (int (bh r)) else Failed)"
    using Node.IH(1) [OF v(2)] Node.IH(2) [OF v(3)] v(7,8) by simp_all
  with v(1,4-6) int show ?case
    by (subst get_rbtree_black_height.simps) (auto simp: assert_int_equal_def)
qed

lemma traverse_st:
  assumes "zok k t" and "unat i + length (inorder t) < 2 ^ LENGTH('w)"
  shows "traverse_rbtree get_child vals offset (root_addr t) ys i (st enc F k t) =
    passed (compare (map vals (entries offset t)) (drop (unat i) ys)) (\<lambda>_. Some (Passed (i + word_of_nat (length (inorder t)))))"
  using assms
proof (induction t arbitrary: k i)
  case Leaf
  show ?case by (subst traverse_rbtree.simps) (simp add: entries_def)
next
  case (Node l c a r)
  note v = node_views(1-3) [OF Node.prems(1)] node_views(4-8) [OF Node.prems(1), of F]
  let ?t = "Node l c a r"
  let ?i = "i + word_of_nat (length (inorder l))"
  have i: "unat ?i = unat i + length (inorder l)" "unat (?i + 1) = Suc (unat i + length (inorder l))"
    using Node.prems(2) unat_plus_of_nat [of i "length (inorder l)"] unat_plus_of_nat [of i "Suc (length (inorder l))"]
    by (simp_all add: ac_simps)
  have l: "traverse_rbtree get_child vals offset (root_addr l) ys i (st enc F k ?t) =
      passed (compare (map vals (entries offset l)) (drop (unat i) ys)) (\<lambda>_. Some (Passed ?i))"
    and r: "traverse_rbtree get_child vals offset (root_addr r) ys (?i + 1) (st enc F k ?t) =
      passed (compare (map vals (entries offset r)) (drop (unat (?i + 1)) ys))
        (\<lambda>_. Some (Passed (?i + 1 + word_of_nat (length (inorder r)))))"
    using Node.IH(1) [OF v(2), of i] Node.IH(2) [OF v(3), of "?i + 1"] Node.prems(2) v(7,8) i by simp_all
  have e: "entries offset ?t = entries offset l @ RB_ENTRY offset a # entries offset r" by (simp add: entries_def)
  show ?case
  proof (cases "compare (map vals (entries offset l)) (drop (unat i) ys)")
    case None
    with v(1,4) l e show ?thesis by (subst traverse_rbtree.simps) (simp add: compare_append)
  next
    case (Some out)
    show ?thesis
    proof (cases out)
      case Failed
      with Some v(1,4) l e show ?thesis by (subst traverse_rbtree.simps) (simp add: compare_append)
    next
      case (Passed zs)
      with Some have d: "drop (unat i) ys = map vals (entries offset l) @ zs" by (simp add: compare_passed)
      have "zs = drop (length (inorder l)) (drop (unat i) ys)" unfolding d by (simp add: entries_def)
      then have zs: "zs = drop (unat ?i) ys" unfolding i(1) by (simp add: add.commute)
      have nth: "c_nth ys (uint ?i) = (case zs of [] \<Rightarrow> None | z # _ \<Rightarrow> Some z)" "tl zs = drop (unat (?i + 1)) ys"
        using zs unfolding i(2) i(1) [symmetric] uint_nat c_nth_drop by (simp_all add: tl_drop drop_Suc)
      show ?thesis
        using Some Passed v(1,4,5) l r [folded nth(2)] e nth(1) by (subst traverse_rbtree.simps) (simp add: compare_append assert_int_equal_def ac_simps split: list.split)
    qed
  qed
qed

text \<open>The check of the symmetric order, if the array is long enough.\<close>

lemma sorted_order_st:
  assumes t: "tok t" and ys: "length (inorder t) \<le> length ys" "unat n = length ys"
  shows "validate_rbtree_sorted_order get_child vals offset ys n (st enc F [] t) =
    Some (if map vals (entries offset t) = ys then Passed () else Failed)"
proof -
  let ?xs = "map vals (entries offset t)"
  have len: "length ?xs = length (inorder t)" by (simp add: entries_def)
  then obtain out where out: "compare ?xs ys = Some out" using compare_total [of ?xs ys] ys(1) by auto
  have "unat (word_of_nat (length (inorder t)) :: 'w word) = length (inorder t)"
    using length_inorder_less [OF t] unfolding unat_of_nat by (rule mod_less)
  then have n: "word_of_nat (length (inorder t)) = n \<longleftrightarrow> length (inorder t) = length ys"
    using ys(2) by (metis word_unat_eq_iff)
  have run: "traverse_rbtree get_child vals offset (root_addr t) ys 0 (st enc F [] t) =
      passed (Some out) (\<lambda>_. Some (Passed (word_of_nat (length (inorder t)))))"
    using traverse_st [of "[]" t 0 vals offset ys F] t length_inorder_less [OF t] out by simp
  show ?thesis
  proof (cases out)
    case (Passed zs)
    then have "ys = ?xs @ zs" using out by (simp add: compare_passed)
    then have "?xs = ys \<longleftrightarrow> length (inorder t) = length ys" using len by auto
    with run n Passed show ?thesis
      by (simp add: validate_rbtree_sorted_order_def rb_root_st assert_int_equal_def)
  next
    case Failed
    then have "?xs \<noteq> ys" using out compare_passed [of ?xs ys "[]"] by auto
    with run Failed show ?thesis by (simp add: validate_rbtree_sorted_order_def rb_root_st)
  qed
qed

end

section \<open>The random tests\<close>

text \<open>
  \<open>shuffle\<close> exchanges two elements, \<open>2 * N\<close> times. \<open>rand p\<close> is the result of the call number \<open>p\<close> of
  \<open>rand\<close>, and \<open>p\<close> the number of the calls so far.
\<close>

fun shuffle_loop :: "(nat \<Rightarrow> int) \<Rightarrow> int \<Rightarrow> nat \<Rightarrow> nat \<Rightarrow> 'a list \<Rightarrow> ('a list \<times> nat) option" where
  "shuffle_loop rand n 0 p buf = Some (buf, p)"
| "shuffle_loop rand n (Suc m) p buf =
    (if n = 0 \<or> n - 1 = 0 then None
     else do {
       let i = rand p smod n;
       let j = rand (p + 1) smod (n - 1);
       let j = (if j \<ge> i then j + 1 else j);
       t \<leftarrow> c_nth buf i;
       x \<leftarrow> c_nth buf j;
       buf \<leftarrow> c_upd buf i x;
       buf \<leftarrow> c_upd buf j t;
       shuffle_loop rand n m (p + 2) buf })"

definition shuffle :: "(nat \<Rightarrow> int) \<Rightarrow> nat \<Rightarrow> 'a list \<Rightarrow> int \<Rightarrow> ('a list \<times> nat) option" where
  "shuffle rand p buf n = do { m \<leftarrow> c_int (n * 2); shuffle_loop rand n (nat m) p buf }"

lemma shuffle_loop_mset:
  assumes "\<forall>p. 0 \<le> rand p" and "2 \<le> n" and "int (length buf) = n"
  shows "\<exists>buf'. shuffle_loop rand n m p buf = Some (buf', p + 2 * m) \<and> mset buf' = mset buf"
  using assms(3)
proof (induction m arbitrary: p buf)
  case (Suc m)
  define i where "i = rand p mod n"
  define j where "j = (if rand (p + 1) mod (n - 1) \<ge> i then rand (p + 1) mod (n - 1) + 1 else rand (p + 1) mod (n - 1))"
  have smod: "rand p smod n = i" "rand (p + 1) smod (n - 1) = rand (p + 1) mod (n - 1)"
    using assms(1) [THEN spec, of p] assms(1) [THEN spec, of "p + 1"] assms(2)
    by (auto simp: i_def signed_modulo_int_def sgn_if)
  have i: "0 \<le> i" "i < n" using assms(2) by (simp_all add: i_def)
  have "0 \<le> rand (p + 1) mod (n - 1)" "rand (p + 1) mod (n - 1) < n - 1" using assms(2) by simp_all
  then have j: "0 \<le> j" "j < n" by (auto simp: j_def)
  let ?buf = "buf[nat i := buf ! nat j, nat j := buf ! nat i]"
  have "shuffle_loop rand n (Suc m) p buf = shuffle_loop rand n m (p + 2) ?buf"
    using i j assms(2) Suc.prems unfolding shuffle_loop.simps smod j_def [symmetric] Let_def by (simp add: c_simps)
  moreover obtain buf' where "shuffle_loop rand n m (p + 2) ?buf = Some (buf', p + 2 + 2 * m)" "mset buf' = mset ?buf"
    using Suc.IH [of ?buf "p + 2"] Suc.prems by auto
  moreover have "mset ?buf = mset buf"
    using i j Suc.prems mset_swap [of "nat j" buf "nat i"] by simp
  ultimately show ?case by simp
qed simp

definition RB_ROOT_INITIALIZER :: "('p::zero, 'n) rb_state \<Rightarrow> ('p, 'n) rb_state" where
  "RB_ROOT_INITIALIZER s = s\<lparr>rb_root := 0\<rparr>"

text \<open>Operations one after the other, with a check of the black heights after each.\<close>

fun test_ops ::
  "('o \<Rightarrow> ('w::len word, 'n) rb_state \<Rightarrow> ('r \<times> ('w word, 'n) rb_state) option)
    \<Rightarrow> ('w word \<Rightarrow> rb_dir \<Rightarrow> ('w word, 'n) rb_state \<Rightarrow> 'w word option)
    \<Rightarrow> ('w word \<Rightarrow> ('w word, 'n) rb_state \<Rightarrow> 'w word option)
    \<Rightarrow> 'o list \<Rightarrow> ('w word, 'n) rb_state \<Rightarrow> ('w word, 'n) rb_state outcome option" where
  "test_ops step child col [] s = Some (Passed s)"
| "test_ops step child col (x # xs) s = do {
     (r, s) \<leftarrow> step x s;
     passed (get_rbtree_black_height child col (rb_root s) s) (\<lambda>_. test_ops step child col xs s) }"

text \<open>
  The bodies of the loops over \<open>run\<close>; \<open>node\<close> is the array of the pointers to the entries, \<open>node_buf\<close>
  the array of the entries.
\<close>

definition insert_random_run ::
  "(('w::len word, int) dict_op \<Rightarrow> ('w word, 'n) rb_state \<Rightarrow> ('w word \<times> ('w word, 'n) rb_state) option)
    \<Rightarrow> ('w word \<Rightarrow> rb_dir \<Rightarrow> ('w word, 'n) rb_state \<Rightarrow> 'w word option)
    \<Rightarrow> ('w word \<Rightarrow> ('w word, 'n) rb_state \<Rightarrow> 'w word option)
    \<Rightarrow> ('w word \<Rightarrow> int) \<Rightarrow> 'w word \<Rightarrow> (nat \<Rightarrow> int) \<Rightarrow> 'w word list \<Rightarrow> nat \<Rightarrow> 'w word list \<Rightarrow> ('w word, 'n) rb_state
    \<Rightarrow> (nat \<times> 'w word list \<times> ('w word, 'n) rb_state) outcome option" where
  "insert_random_run step child col vals offset rand node_buf p node s = do {
     (node, p) \<leftarrow> shuffle rand p node (int (length node_buf));
     passed (test_ops step child col (map RB_INSERT node) (RB_ROOT_INITIALIZER s)) (\<lambda>s.
       passed (validate_rbtree_sorted_order child vals offset (map vals node_buf) (word_of_nat (length node_buf)) s) (\<lambda>_.
         Some (Passed (p, node, s)))) }"

text \<open>The comparator of \<open>qsort\<close> subtracts the members \<open>val\<close>, in \<open>int\<close>.\<close>

definition node_cmp :: "('e \<Rightarrow> int) \<Rightarrow> 'e \<Rightarrow> 'e \<Rightarrow> int option" where
  "node_cmp vals a_node b_node = c_int (vals a_node - vals b_node)"

lemma qsort_node_cmp:
  assumes "\<forall>e\<in>set xs. 0 \<le> vals e \<and> vals e \<le> INT_MAX"
  shows "qsort (node_cmp vals) xs = Some (sort_key vals xs)"
proof (rule qsort_sort_key, intro ballI)
  fix x y assume "x \<in> set xs" "y \<in> set xs"
  then have "0 \<le> vals x" "vals x \<le> INT_MAX" "0 \<le> vals y" "vals y \<le> INT_MAX" using assms by blast+
  then have "node_cmp vals x y = Some (vals x - vals y)"
    unfolding node_cmp_def by (intro c_int_Some) (simp_all add: INT_MIN_def INT_MAX_def)
  then show "\<exists>c. node_cmp vals x y = Some c \<and> (c \<le> 0 \<longleftrightarrow> vals x \<le> vals y)" by simp
qed

definition remove_random_run ::
  "(('w::len word, int) dict_op \<Rightarrow> ('w word, 'n) rb_state \<Rightarrow> ('w word \<times> ('w word, 'n) rb_state) option)
    \<Rightarrow> ('w word \<Rightarrow> rb_dir \<Rightarrow> ('w word, 'n) rb_state \<Rightarrow> 'w word option)
    \<Rightarrow> ('w word \<Rightarrow> ('w word, 'n) rb_state \<Rightarrow> 'w word option)
    \<Rightarrow> ('w word \<Rightarrow> int) \<Rightarrow> 'w word \<Rightarrow> (nat \<Rightarrow> int) \<Rightarrow> 'w word list \<Rightarrow> nat \<Rightarrow> 'w word list \<Rightarrow> ('w word, 'n) rb_state
    \<Rightarrow> (nat \<times> 'w word list \<times> ('w word, 'n) rb_state) outcome option" where
  "remove_random_run step child col vals offset rand node_buf p node s = do {
     let N2 = length node_buf div 4 * 3;
     (node, p) \<leftarrow> shuffle rand p node (int (length node_buf));
     passed (test_ops step child col (map RB_INSERT node) (RB_ROOT_INITIALIZER s)) (\<lambda>s. do {
       (node, p) \<leftarrow> shuffle rand p node (int (length node_buf));
       passed (test_ops step child col (map (\<lambda>e. RB_REMOVE (vals e)) (drop N2 node)) s) (\<lambda>s. do {
         sorted \<leftarrow> qsort (node_cmp vals) (take N2 node);
         let node = sorted @ drop N2 node;
         let sorted_node = map vals (take N2 node);
         passed (validate_rbtree_sorted_order child vals offset sorted_node (word_of_nat N2) s) (\<lambda>_.
           Some (Passed (p, node, s))) }) }) }"

text \<open>The members \<open>val\<close> after the loop that numbers the entries from 1 on.\<close>

fun number_entries :: "'e list \<Rightarrow> int \<Rightarrow> ('e \<Rightarrow> int) \<Rightarrow> ('e \<Rightarrow> int)" where
  "number_entries [] i v = v"
| "number_entries (e # es) i v = number_entries es (i + 1) (v(e := i + 1))"

lemma number_entries_other: "e \<notin> set es \<Longrightarrow> number_entries es i v e = v e"
  by (induction es arbitrary: i v) simp_all

lemma number_entries_map: "distinct es \<Longrightarrow> map (number_entries es i v) es = [i + 1..i + int (length es)]"
proof (induction es arbitrary: i v)
  case (Cons e es)
  then have "map (number_entries (e # es) i v) (e # es) = (i + 1) # [i + 1 + 1..i + 1 + int (length es)]"
    by (simp add: number_entries_other)
  also have "\<dots> = [i + 1..i + int (length (e # es))]" by (subst (2) upto_rec1) (simp_all add: add.assoc)
  finally show ?case .
qed simp

text \<open>What the checks find in an implementation of the trees.\<close>

locale checked_impl = tree_impl cmp key_cmp key_of K offset N enc step + node_access enc get_child get_color set_color
  for cmp :: "'w::len word \<Rightarrow> 'w word \<Rightarrow> int" and key_cmp :: "int \<Rightarrow> 'w word \<Rightarrow> int"
    and key_of :: "'w word \<Rightarrow> int" and K :: "int set" and offset :: "'w word" and N :: "'w word set"
    and enc :: "('w, 'n) layout"
    and step :: "('w word, int) dict_op \<Rightarrow> ('w word, 'n) rb_state \<Rightarrow> ('w word \<times> ('w word, 'n) rb_state) option"
    and get_child :: "'w word \<Rightarrow> rb_dir \<Rightarrow> ('w word, 'n) rb_state \<Rightarrow> 'w word option"
    and get_color :: "'w word \<Rightarrow> ('w word, 'n) rb_state \<Rightarrow> 'w word option"
    and set_color :: "'w word \<Rightarrow> 'w word \<Rightarrow> ('w word, 'n) rb_state \<Rightarrow> ('w word, 'n) rb_state option" +
  assumes width: "int LENGTH('w) \<le> INT_MAX"
begin

lemma black_height_holds:
  assumes "holds enc s t"
  shows "get_rbtree_black_height get_child get_color (rb_root s) s = Some (Passed (int (bh t)))"
proof -
  have "tok t" "invh t" "s = st enc (rb_heap s) [] t" "rb_root s = root_addr t"
    using assms holds_st [OF assms] by (auto simp: holds_def rb_tree_def)
  with black_height_st [of "[]" t "rb_heap s"] width show ?thesis by simp
qed

lemma sorted_order_holds:
  assumes "holds enc s t" and "key_of ` set (entries offset t) = set ys" and "sorted_wrt (<) (map key_of (entries offset t))"
    and "sorted_wrt (<) ys"
  shows "validate_rbtree_sorted_order get_child key_of offset ys (word_of_nat (length ys)) s = Some (Passed ())"
proof -
  have t: "tok t" "s = st enc (rb_heap s) [] t"
    using assms(1) holds_st [OF assms(1)] by (auto simp: holds_def)
  have ys: "map key_of (entries offset t) = ys"
    using assms(2-4) by (intro sorted_distinct_set_unique) (auto simp: strict_sorted_iff)
  then have len: "length ys = length (inorder t)" by (auto simp: entries_def)
  then have "unat (word_of_nat (length ys) :: 'w word) = length ys"
    using length_inorder_less [OF t(1)] unfolding unat_of_nat by simp
  with sorted_order_st [OF t(1), of ys "word_of_nat (length ys)" key_of offset "rb_heap s"] t(2) ys len
  show ?thesis by simp
qed

lemma test_ops_pass:
  assumes "dict_sim enc key_of offset N s m" and "list_all (legal_op K N) ops"
  shows "\<exists>s'. test_ops step get_child get_color ops s = Some (Passed s') \<and>
    dict_sim enc key_of offset N s' (snd (dict_spec_run key_of ops m))"
  using assms
proof (induction ops arbitrary: s m)
  case (Cons x xs)
  then obtain s1 where s1: "step x s = Some (fst (dict_spec key_of x m), s1)"
    "dict_sim enc key_of offset N s1 (snd (dict_spec key_of x m))"
    using step_simulates by fastforce
  then obtain t where "holds enc s1 t" by (auto simp: dict_sim_def)
  with Cons.IH [OF s1(2)] Cons.prems(2) s1(1) black_height_holds show ?case by (auto simp: case_prod_beta)
qed simp

lemma validate_sim:
  assumes "dict_sim enc key_of offset N s m" and "dom m = set ys" and "sorted_wrt (<) ys"
  shows "validate_rbtree_sorted_order get_child key_of offset ys (word_of_nat (length ys)) s = Some (Passed ())"
proof -
  obtain t where t: "tree_ok key_of offset N t" "holds enc s t" "m = tree_map key_of offset t"
    using assms(1) by (auto simp: dict_sim_def)
  then have "key_of ` set (entries offset t) = set ys"
    using assms(2) dom_find_key [of key_of "entries offset t"] by (simp add: tree_map_def)
  moreover have "sorted_wrt (<) (map key_of (entries offset t))" using t(1) by (auto simp: tree_ok_def)
  ultimately show ?thesis using t(2) assms(3) by (intro sorted_order_holds)
qed

end

lemma dom_spec_inserts: "dom (snd (dict_spec_run key_of (map RB_INSERT es) m)) = dom m \<union> key_of ` set es"
proof (induction es arbitrary: m)
  case (Cons e es)
  then show ?case by (cases "m (key_of e)") (auto simp: case_prod_beta)
qed simp

lemma dom_spec_removes: "dom (snd (dict_spec_run key_of (map (\<lambda>e. RB_REMOVE (f e)) es) m)) = dom m - f ` set es"
proof (induction es arbitrary: m)
  case (Cons e es)
  then show ?case by (cases "m (f e)") (auto simp: case_prod_beta split: if_splits)
qed simp

text \<open>The loops over \<open>run\<close>, and the tests; in the source, \<open>runs\<close> and the length of \<open>node_buf\<close> are 1000.\<close>

fun repeat_runs :: "(nat \<Rightarrow> 'a list \<Rightarrow> 's \<Rightarrow> (nat \<times> 'a list \<times> 's) outcome option) \<Rightarrow> nat \<Rightarrow> nat \<Rightarrow> 'a list \<Rightarrow> 's
    \<Rightarrow> (nat \<times> 'a list \<times> 's) outcome option" where
  "repeat_runs body 0 p node s = Some (Passed (p, node, s))"
| "repeat_runs body (Suc m) p node s = passed (body p node s) (\<lambda>(p, node, s). repeat_runs body m p node s)"

definition test_rbtree_insert_random where
  "test_rbtree_insert_random step child col offset rand node_buf v runs s =
    (let vals = number_entries node_buf 0 v
     in repeat_runs (insert_random_run (step vals) child col vals offset rand node_buf) runs 0 node_buf s)"

definition test_rbtree_remove_random where
  "test_rbtree_remove_random step child col offset rand node_buf v runs s =
    (let vals = number_entries node_buf 0 v
     in repeat_runs (remove_random_run (step vals) child col vals offset rand node_buf) runs 0 node_buf s)"

lemma repeat_runs_pass:
  assumes "\<And>p node s. I node s \<Longrightarrow> \<exists>p' node' s'. body p node s = Some (Passed (p', node', s')) \<and> I node' s'"
    and "I node s"
  shows "\<exists>p' node' s'. repeat_runs body runs p node s = Some (Passed (p', node', s')) \<and> I node' s'"
  using assms(2)
proof (induction runs arbitrary: p node s)
  case (Suc m)
  from assms(1) [OF Suc.prems, of p] obtain p' node' s' where "body p node s = Some (Passed (p', node', s'))" "I node' s'"
    by blast
  with Suc.IH [of node' s' p'] show ?case by simp
qed simp

lemma shuffle_mset:
  assumes "\<forall>p. 0 \<le> rand p" and "2 \<le> length buf" and "int (length buf) * 2 \<le> INT_MAX" and "mset buf = mset xs"
  obtains buf' p' where "shuffle rand p buf (int (length xs)) = Some (buf', p')" and "mset buf' = mset xs"
proof -
  have len: "length buf = length xs" using assms(4) by (rule mset_eq_length)
  then have "c_int (int (length xs) * 2) = Some (int (length xs) * 2)" using assms(3) by (intro c_int_Some) (simp_all add: INT_MIN_def)
  with shuffle_loop_mset [OF assms(1), of "int (length xs)" buf "length xs * 2" p] assms(2,4) len show thesis
    using that by (auto simp: shuffle_def nat_mult_distrib)
qed

lemma sorted_part:
  fixes f :: "'a \<Rightarrow> 'b::linorder"
  assumes "distinct (map f xs)" and "n \<le> length xs"
  shows "f ` set xs - f ` set (drop n xs) = set (map f (sort_key f (take n xs)))"
    and "sorted_wrt (<) (map f (sort_key f (take n xs)))" and "length (sort_key f (take n xs)) = n"
proof -
  have d: "distinct (map f (take n xs) @ map f (drop n xs))"
    using assms(1) by (metis append_take_drop_id map_append)
  have "f ` set xs = f ` set (take n xs) \<union> f ` set (drop n xs)"
    by (metis append_take_drop_id image_Un set_append)
  with d show "f ` set xs - f ` set (drop n xs) = set (map f (sort_key f (take n xs)))" by auto
  have "distinct (map f (sort_key f (take n xs)))"
    using d mset_eq_imp_distinct_iff [of "map f (sort_key f (take n xs))" "map f (take n xs)"] by simp
  then show "sorted_wrt (<) (map f (sort_key f (take n xs)))" by (simp add: strict_sorted_iff)
  show "length (sort_key f (take n xs)) = n" using assms(2) by simp
qed

context checked_impl
begin

abbreviation mapped :: "('w word, 'n) rb_state \<Rightarrow> bool" where
  "mapped s \<equiv> \<forall>e\<in>N. rb_heap s (e + offset) \<noteq> None"

lemma initial_sim: "mapped s \<Longrightarrow> dict_sim enc key_of offset N (RB_ROOT_INITIALIZER s) Map.empty"
  by (rule sim_empty) (simp_all add: RB_ROOT_INITIALIZER_def)

lemma inserts_pass:
  assumes "mapped s" and "mset node = mset node_buf" and "set node_buf \<subseteq> N"
  obtains s' m where "test_ops step get_child get_color (map RB_INSERT node) (RB_ROOT_INITIALIZER s) = Some (Passed s')"
    and "dict_sim enc key_of offset N s' m" and "dom m = key_of ` set node_buf"
proof -
  have set: "set node = set node_buf" using assms(2) by (rule mset_eq_setD)
  then have "list_all (legal_op K N) (map RB_INSERT node)" using assms(3) by (auto simp: list_all_iff)
  from test_ops_pass [OF initial_sim [OF assms(1)] this] set show thesis
    using that dom_spec_inserts [of key_of node Map.empty] by auto
qed

lemma sim_mapped: "dict_sim enc key_of offset N s m \<Longrightarrow> mapped s"
  by (simp add: dict_sim_def)

lemma removes_pass:
  assumes "dict_sim enc key_of offset N s m" and "set gone \<subseteq> N"
  obtains s' m' where "test_ops step get_child get_color (map (\<lambda>e. RB_REMOVE (key_of e)) gone) s = Some (Passed s')"
    and "dict_sim enc key_of offset N s' m'" and "dom m' = dom m - key_of ` set gone"
proof -
  have "list_all (legal_op K N) (map (\<lambda>e. RB_REMOVE (key_of e)) gone)"
    using assms(2) entry_key by (auto simp: list_all_iff)
  from test_ops_pass [OF assms(1) this] show thesis
    using that dom_spec_removes [of key_of key_of gone m] by auto
qed

lemma insert_random_run_pass:
  assumes rand: "\<forall>p. 0 \<le> rand p" and len: "2 \<le> length node_buf" "int (length node_buf) * 2 \<le> INT_MAX"
    and N: "set node_buf \<subseteq> N" "sorted_wrt (<) (map key_of node_buf)" and s: "mset node = mset node_buf" "mapped s"
  shows "\<exists>p' node' s'. insert_random_run step get_child get_color key_of offset rand node_buf p node s =
      Some (Passed (p', node', s')) \<and> mset node' = mset node_buf \<and> mapped s'"
proof -
  have l: "length node = length node_buf" using s(1) by (rule mset_eq_length)
  obtain node' p' where sh: "shuffle rand p node (int (length node_buf)) = Some (node', p')" "mset node' = mset node_buf"
    using shuffle_mset [OF rand _ _ s(1)] len l by metis
  obtain s' m where s': "test_ops step get_child get_color (map RB_INSERT node') (RB_ROOT_INITIALIZER s) = Some (Passed s')"
    "dict_sim enc key_of offset N s' m" "dom m = key_of ` set node_buf"
    by (rule inserts_pass [OF s(2) sh(2) N(1)])
  have "validate_rbtree_sorted_order get_child key_of offset (map key_of node_buf) (word_of_nat (length node_buf)) s' = Some (Passed ())"
    using validate_sim [OF s'(2), of "map key_of node_buf"] s'(3) N(2) by simp
  with sh s' sim_mapped [OF s'(2)] show ?thesis by (simp add: insert_random_run_def)
qed

lemma remove_random_run_pass:
  assumes rand: "\<forall>p. 0 \<le> rand p" and len: "2 \<le> length node_buf" "int (length node_buf) * 2 \<le> INT_MAX"
    and N: "set node_buf \<subseteq> N" "sorted_wrt (<) (map key_of node_buf)" and s: "mset node = mset node_buf" "mapped s"
    and small: "\<forall>e\<in>set node_buf. 0 \<le> key_of e \<and> key_of e \<le> INT_MAX"
  shows "\<exists>p' node' s'. remove_random_run step get_child get_color key_of offset rand node_buf p node s =
      Some (Passed (p', node', s')) \<and> mset node' = mset node_buf \<and> mapped s'"
proof -
  define n where "n = length node_buf div 4 * 3"
  have l: "length node = length node_buf" using s(1) by (rule mset_eq_length)
  obtain node1 p1 where sh1: "shuffle rand p node (int (length node_buf)) = Some (node1, p1)" "mset node1 = mset node_buf"
    using shuffle_mset [OF rand _ _ s(1)] len l by metis
  obtain s1 m where s1: "test_ops step get_child get_color (map RB_INSERT node1) (RB_ROOT_INITIALIZER s) = Some (Passed s1)"
    "dict_sim enc key_of offset N s1 m" "dom m = key_of ` set node_buf"
    by (rule inserts_pass [OF s(2) sh1(2) N(1)])
  have l1: "length node1 = length node_buf" using sh1(2) by (rule mset_eq_length)
  obtain node2 p2 where sh2: "shuffle rand p1 node1 (int (length node_buf)) = Some (node2, p2)" "mset node2 = mset node_buf"
    using shuffle_mset [OF rand _ _ sh1(2)] len l1 by metis
  obtain s2 m2 where
    s2: "test_ops step get_child get_color (map (\<lambda>e. RB_REMOVE (key_of e)) (drop n node2)) s1 = Some (Passed s2)"
    "dict_sim enc key_of offset N s2 m2" "dom m2 = dom m - key_of ` set (drop n node2)"
    using removes_pass [OF s1(2), of "drop n node2"] N(1) mset_eq_setD [OF sh2(2)] set_drop_subset [of n node2] by (metis subset_trans)
  have "distinct (map key_of node2)"
    using sh2(2) N(2) mset_eq_imp_distinct_iff [of "map key_of node2" "map key_of node_buf"] by (simp add: strict_sorted_iff)
  moreover have "n \<le> length node2" using mset_eq_length [OF sh2(2)] by (simp add: n_def)
  ultimately have ys: "dom m2 = set (map key_of (sort_key key_of (take n node2)))"
    "sorted_wrt (<) (map key_of (sort_key key_of (take n node2)))" "length (sort_key key_of (take n node2)) = n"
    using s1(3) s2(3) mset_eq_setD [OF sh2(2)] sorted_part [of key_of node2 n] by simp_all
  have "validate_rbtree_sorted_order get_child key_of offset (map key_of (sort_key key_of (take n node2))) (word_of_nat n) s2 =
      Some (Passed ())"
    using validate_sim [OF s2(2) ys(1,2)] ys(3) by simp
  moreover have "mset (sort_key key_of (take n node2) @ drop n node2) = mset node_buf"
    using sh2(2) by (metis append_take_drop_id mset_append mset_sort)
  moreover have "qsort (node_cmp key_of) (take n node2) = Some (sort_key key_of (take n node2))"
    using small mset_eq_setD [OF sh2(2)] set_take_subset [of n node2] by (intro qsort_node_cmp) blast
  ultimately show ?thesis
    using sh1(1) s1(1) sh2(1) s2(1) sim_mapped [OF s2(2)] ys(3)
    unfolding remove_random_run_def Let_def n_def [symmetric] by simp
qed

text \<open>Any number of runs.\<close>

lemma random_runs_pass:
  assumes "\<forall>p. 0 \<le> rand p" and "2 \<le> length node_buf" "int (length node_buf) * 2 \<le> INT_MAX"
    and "set node_buf \<subseteq> N" "sorted_wrt (<) (map key_of node_buf)" and "mapped s"
    and "\<forall>e\<in>set node_buf. 0 \<le> key_of e \<and> key_of e \<le> INT_MAX"
  shows "\<exists>x. repeat_runs (insert_random_run step get_child get_color key_of offset rand node_buf) runs p node_buf s = Some (Passed x)"
    and "\<exists>x. repeat_runs (remove_random_run step get_child get_color key_of offset rand node_buf) runs p node_buf s = Some (Passed x)"
  using repeat_runs_pass [where I = "\<lambda>node s. mset node = mset node_buf \<and> mapped s" and node = node_buf and s = s
      and runs = runs and p = p and body = "insert_random_run step get_child get_color key_of offset rand node_buf"]
    repeat_runs_pass [where I = "\<lambda>node s. mset node = mset node_buf \<and> mapped s" and node = node_buf and s = s
      and runs = runs and p = p and body = "remove_random_run step get_child get_color key_of offset rand node_buf"]
    insert_random_run_pass [OF assms(1-5)] remove_random_run_pass [OF assms(1-5) _ _ assms(7)] assms(6) by blast+

end

end
