(* ===== verification/RB_Fixed_Tests.thy ===== *)
theory RB_Fixed_Tests
  imports RB_Check
begin

text \<open>
  The tests of \<open>rbtree/test_rbtree.c\<close> with fixed sequences of operations, as lists of actions. For every list of actions, what
  the checks find in memory is decided by a computation on trees.
\<close>

section \<open>Scripts\<close>

text \<open>
  A test with a fixed sequence is a list of actions. \<open>Start es\<close> is the beginning of such a test, and of \<open>init_rbtree\<close>: it empties the
  tree and numbers the members \<open>val\<close> of the entries \<open>es\<close> of the array \<open>node\<close> from 1 on. The others are an operation,
  \<open>validate_rbtree_black_height\<close>, \<open>assert_null\<close> or \<open>assert_non_null\<close> of the root, and \<open>validate_rbtree_sorted_order\<close> with the
  array \<open>node\<close>.
\<close>

datatype 'e test_action = Start "'e list" | Do "('e, int) dict_op" | Black_height int | Root_null bool | Sorted_order

text \<open>\<open>es\<close> is the array \<open>node\<close> and \<open>vals\<close> the members \<open>val\<close>; \<open>step vals\<close> are the operations of the header with the comparators.\<close>

fun run_script ::
  "(('w::len word \<Rightarrow> int) \<Rightarrow> ('w word, int) dict_op \<Rightarrow> ('w word, 'n) rb_state \<Rightarrow> ('w word \<times> ('w word, 'n) rb_state) option)
    \<Rightarrow> ('w word \<Rightarrow> rb_dir \<Rightarrow> ('w word, 'n) rb_state \<Rightarrow> 'w word option)
    \<Rightarrow> ('w word \<Rightarrow> ('w word, 'n) rb_state \<Rightarrow> 'w word option)
    \<Rightarrow> 'w word \<Rightarrow> 'w word test_action list \<Rightarrow> 'w word list \<Rightarrow> ('w word \<Rightarrow> int) \<Rightarrow> ('w word, 'n) rb_state
    \<Rightarrow> unit outcome option" where
  "run_script step child col offset [] es vals s = Some (Passed ())"
| "run_script step child col offset (Start es # as) es' vals s =
    run_script step child col offset as es (number_entries es 0 vals) (RB_ROOT_INITIALIZER s)"
| "run_script step child col offset (Do x # as) es vals s =
    do { (r, s) \<leftarrow> step vals x s; run_script step child col offset as es vals s }"
| "run_script step child col offset (Black_height h # as) es vals s =
    passed (validate_rbtree_black_height child col (rb_root s) h s) (\<lambda>_. run_script step child col offset as es vals s)"
| "run_script step child col offset (Root_null b # as) es vals s =
    passed (Some (assert_true ((rb_root s = 0) = b))) (\<lambda>_. run_script step child col offset as es vals s)"
| "run_script step child col offset (Sorted_order # as) es vals s =
    passed (validate_rbtree_sorted_order child vals offset (map vals es) (word_of_nat (length es)) s)
      (\<lambda>_. run_script step child col offset as es vals s)"

text \<open>The same on trees.\<close>

fun tree_script :: "'w::len word \<Rightarrow> 'w word test_action list \<Rightarrow> 'w word list \<Rightarrow> ('w word \<Rightarrow> int) \<Rightarrow> 'w word rbt \<Rightarrow> bool" where
  "tree_script offset [] es vals t \<longleftrightarrow> True"
| "tree_script offset (Start es # as) es' vals t \<longleftrightarrow> tree_script offset as es (number_entries es 0 vals) Leaf"
| "tree_script offset (Do x # as) es vals t \<longleftrightarrow>
    tree_script offset as es vals (snd (tree_step (A_NODE_KEY_CMP vals) vals offset x t))"
| "tree_script offset (Black_height h # as) es vals t \<longleftrightarrow> int (bh t) = h \<and> tree_script offset as es vals t"
| "tree_script offset (Root_null b # as) es vals t \<longleftrightarrow> (t = Leaf) = b \<and> tree_script offset as es vals t"
| "tree_script offset (Sorted_order # as) es vals t \<longleftrightarrow>
    map vals (entries offset t) = map vals es \<and> tree_script offset as es vals t"

text \<open>
  A script is legal if it only inserts entries of the array that it has numbered, whose elements are distinct and among the
  entries \<open>U\<close>, and searches keys for which the comparators do not overflow.
\<close>

definition legal_array :: "'e set \<Rightarrow> 'e list \<Rightarrow> bool" where
  "legal_array U es \<longleftrightarrow> distinct es \<and> set es \<subseteq> U \<and> length es < 2 ^ 30"

fun legal_script :: "'e set \<Rightarrow> 'e list \<Rightarrow> 'e test_action list \<Rightarrow> bool" where
  "legal_script U es [] \<longleftrightarrow> True"
| "legal_script U es' (Start es # as) \<longleftrightarrow> legal_array U es \<and> legal_script U es as"
| "legal_script U es (Do x # as) \<longleftrightarrow> legal_op safe_keys (set es) x \<and> legal_script U es as"
| "legal_script U es (a # as) \<longleftrightarrow> legal_script U es as"

section \<open>What a script finds\<close>

context checked_impl
begin

lemmas checked_step = step_tree
lemmas checked_Leaf = tree_ok_Leaf

lemma check_black_height:
  assumes "tree_ok key_of offset N t"
  shows "validate_rbtree_black_height get_child get_color (rb_root (st enc F [] t)) h (st enc F [] t) =
    Some (if int (bh t) = h then Passed () else Failed)"
proof -
  have "holds enc (st enc F [] t) t" using assms by (intro st_holds) (simp_all add: tree_ok_def)
  from black_height_holds [OF this] show ?thesis by (simp add: validate_rbtree_black_height_def assert_int_equal_def)
qed

lemma check_root: "tree_ok key_of offset N t \<Longrightarrow> rb_root (st enc F [] t) = 0 \<longleftrightarrow> t = Leaf"
proof -
  assume "tree_ok key_of offset N t"
  then have "holds enc (st enc F [] t) t" by (intro st_holds) (simp_all add: tree_ok_def)
  then show ?thesis by (simp add: holds_def)
qed

lemma check_sorted_order:
  assumes t: "tree_ok key_of offset N t" and N: "N = set es" "distinct es"
  shows "validate_rbtree_sorted_order get_child key_of offset (map key_of es) (word_of_nat (length es)) (st enc F [] t) =
    Some (if map key_of (entries offset t) = map key_of es then Passed () else Failed)"
proof -
  have "distinct (entries offset t)"
    using t by (auto simp: tree_ok_def strict_sorted_iff distinct_map)
  then have "length (entries offset t) = card (set (entries offset t))" by (simp add: distinct_card)
  also have "\<dots> \<le> length es"
    using t card_mono [of "set es" "set (entries offset t)"] N distinct_card [of es] by (simp add: tree_ok_def)
  finally have len: "length (inorder t) \<le> length (map key_of es)" by (simp add: entries_def)
  have "card (set es) < card (UNIV :: 'w word set)"
    using entry_nonnull N(1) by (intro psubset_card_mono) auto
  then have "unat (word_of_nat (length es) :: 'w word) = length (map key_of es)"
    using distinct_card [OF N(2)] by (simp add: card_word unat_of_nat)
  then show ?thesis using sorted_order_st [OF _ len] t by (simp add: tree_ok_def)
qed

end

lemma script_decides:
  assumes impl: "\<And>es v. legal_array U es \<Longrightarrow> checked_impl (A_NODE_CMP (number_entries es 0 v)) (A_NODE_KEY_CMP (number_entries es 0 v))
      (number_entries es 0 v) safe_keys offset (set es) enc (step (number_entries es 0 v)) child col set_col"
    and U: "\<forall>e\<in>U. F (e + offset) \<noteq> None"
    and es: "legal_array U es" "vals = number_entries es 0 v" "tree_ok vals offset (set es) t" and legal: "legal_script U es as"
  shows "run_script step child col offset as es vals (st enc F [] t) =
    Some (if tree_script offset as es vals t then Passed () else Failed)"
  using U es legal
proof (induction as arbitrary: es v vals t F)
  case (Cons a as)
  note impl' = impl [OF Cons.prems(2), of v, folded Cons.prems(3)]
  show ?case
  proof (cases a)
    case (Start es')
    let ?F = "rb_heap (st enc F [] t)"
    have init: "RB_ROOT_INITIALIZER (st enc F [] t) = st enc ?F [] Leaf" by (simp add: RB_ROOT_INITIALIZER_def st_def)
    have mapped: "\<forall>e\<in>U. ?F (e + offset) \<noteq> None"
      using rb_heap_st_mapped [of F _ enc t] Cons.prems(1) by simp
    have es': "legal_array U es'" "legal_script U es' as" using Cons.prems(5) Start by simp_all
    show ?thesis
      using Cons.IH [OF mapped es'(1) refl checked_impl.checked_Leaf [OF impl [OF es'(1)]] es'(2), of vals]
      unfolding Start run_script.simps init by simp
  next
    case (Do x)
    obtain e t' where e: "tree_step (A_NODE_KEY_CMP vals) vals offset x t = (e, t')" by fastforce
    have mapped: "\<forall>e\<in>set es. F (e + offset) \<noteq> None" using Cons.prems(1,2) by (auto simp: legal_array_def)
    obtain F' where F': "step vals x (st enc F [] t) = Some (e, st enc F' [] t')" "dom F \<subseteq> dom F'" "tree_ok vals offset (set es) t'"
      using checked_impl.checked_step [OF impl' Cons.prems(4) _ mapped e] Cons.prems(5) Do by auto
    then have "\<forall>e\<in>U. F' (e + offset) \<noteq> None" using Cons.prems(1) by (auto simp: dom_def subset_iff)
    from Cons.IH [OF this Cons.prems(2,3) F'(3)] Cons.prems(5) Do e F'(1) show ?thesis by simp
  next
    case (Black_height b)
    with Cons.IH [OF Cons.prems(1-4)] Cons.prems(5) checked_impl.check_black_height [OF impl' Cons.prems(4)] show ?thesis by simp
  next
    case (Root_null b)
    with Cons.IH [OF Cons.prems(1-4)] Cons.prems(5) checked_impl.check_root [OF impl' Cons.prems(4)] show ?thesis
      by (simp add: assert_true_def)
  next
    case Sorted_order
    with Cons.IH [OF Cons.prems(1-4)] Cons.prems(2,5) checked_impl.check_sorted_order [OF impl' Cons.prems(4) refl] show ?thesis
      by (simp add: legal_array_def)
  qed
qed simp

section \<open>The tests with fixed sequences\<close>

text \<open>\<open>x i\<close> is the address of the entry \<open>node[i]\<close>.\<close>

definition node_array :: "(nat \<Rightarrow> 'e) \<Rightarrow> nat \<Rightarrow> 'e list" where
  "node_array x n = map x [0..<n]"

definition test_rbtree_init :: "(nat \<Rightarrow> 'w word) \<Rightarrow> 'w word test_action list" where
  "test_rbtree_init x = [Start (node_array x 1),
    Do (RB_INSERT (x 0)), Root_null False, Black_height 1, Do (RB_REMOVE 1), Root_null True, Black_height 0]"

definition test_rbtree_insert_left :: "(nat \<Rightarrow> 'w word) \<Rightarrow> 'w word test_action list" where
  "test_rbtree_insert_left x = [Start (node_array x 8),
    Do (RB_INSERT (x 7)), Black_height 1, Do (RB_INSERT (x 6)), Black_height 1, Do (RB_INSERT (x 1)), Black_height 1,
    Do (RB_INSERT (x 3)), Black_height 2, Do (RB_INSERT (x 0)), Black_height 2, Do (RB_INSERT (x 2)), Black_height 2,
    Do (RB_INSERT (x 5)), Black_height 2, Do (RB_INSERT (x 4)), Black_height 2, Sorted_order]"

definition test_rbtree_insert_right :: "(nat \<Rightarrow> 'w word) \<Rightarrow> 'w word test_action list" where
  "test_rbtree_insert_right x = [Start (node_array x 8),
    Do (RB_INSERT (x 0)), Black_height 1, Do (RB_INSERT (x 1)), Black_height 1, Do (RB_INSERT (x 6)), Black_height 1,
    Do (RB_INSERT (x 4)), Black_height 2, Do (RB_INSERT (x 7)), Black_height 2, Do (RB_INSERT (x 5)), Black_height 2,
    Do (RB_INSERT (x 2)), Black_height 2, Do (RB_INSERT (x 3)), Black_height 2, Sorted_order]"

text \<open>\<open>init_rbtree\<close> empties the tree, numbers the entries and inserts them in the order of \<open>seq\<close>, whose length is the argument \<open>N\<close>.\<close>

definition init_rbtree :: "(nat \<Rightarrow> 'w word) \<Rightarrow> nat list \<Rightarrow> 'w word test_action list" where
  "init_rbtree x seq = Start (node_array x (length seq)) # map (\<lambda>i. Do (RB_INSERT (x i))) seq"

definition test_rbtree_remove_simple :: "(nat \<Rightarrow> 'w word) \<Rightarrow> 'w word test_action list" where
  "test_rbtree_remove_simple x =
    init_rbtree x [2, 0, 3, 1] @ [Do (RB_REMOVE 4), Black_height 2] @
    init_rbtree x [2, 0, 3, 1] @ [Do (RB_REMOVE 1), Black_height 2]"

definition test_rbtree_remove_simple2 :: "(nat \<Rightarrow> 'w word) \<Rightarrow> 'w word test_action list" where
  "test_rbtree_remove_simple2 x =
    init_rbtree x [5, 0, 9, 2, 6, 3, 7, 8, 4, 1] @ [Do (RB_REMOVE 3), Black_height 2] @
    init_rbtree x [5, 0, 9, 2, 6, 3, 7, 8, 4, 1] @ [Do (RB_REMOVE 8), Black_height 2]"

definition fixed_tests :: "(nat \<Rightarrow> 'w word) \<Rightarrow> 'w word test_action list list" where
  "fixed_tests x = [test_rbtree_init x, test_rbtree_insert_left x, test_rbtree_insert_right x,
    test_rbtree_remove_simple x, test_rbtree_remove_simple2 x]"

lemmas fixed_test_defs = test_rbtree_init_def test_rbtree_insert_left_def test_rbtree_insert_right_def init_rbtree_def
  test_rbtree_remove_simple_def test_rbtree_remove_simple2_def

lemma numbered_search:
  assumes "vals (x i) = int i + 1" and "i < 10" and "0 \<le> k" "k \<le> 10"
  shows "key_search (A_NODE_KEY_CMP vals) offset k (x i + offset) =
    (if k < int i + 1 then Some RB_LEFT else if int i + 1 < k then Some RB_RIGHT else None)"
  using assms by (simp add: key_search_def A_NODE_KEY_CMP_def c_sub_wrap_exact cmp_dir_def)

lemma un_simps: "un RB_LEFT (Node l c a r) = Some (c, a, l, r)" "un RB_RIGHT (Node l c a r) = Some (c, a, r, l)"
  by simp_all


text \<open>Numbering an array again changes nothing.\<close>

lemma number_entries_nth:
  assumes "distinct es" and "i < length es"
  shows "number_entries es 0 v (es ! i) = int i + 1"
proof -
  have "number_entries es 0 v (es ! i) = map (number_entries es 0 v) es ! i" using assms(2) by simp
  also have "\<dots> = int i + 1" using assms(2) by (simp add: number_entries_map [OF assms(1)] nth_upto)
  finally show ?thesis .
qed

lemma number_entries_idem:
  assumes "distinct es"
  shows "number_entries es 0 (number_entries es 0 v) = number_entries es 0 v"
proof
  fix e
  show "number_entries es 0 (number_entries es 0 v) e = number_entries es 0 v e"
  proof (cases "e \<in> set es")
    case True
    then obtain i where "i < length es" "e = es ! i" by (auto simp: in_set_conv_nth)
    then show ?thesis by (simp add: number_entries_nth assms)
  qed (simp add: number_entries_other)
qed

lemma numbered_array:
  assumes "inj_on x {..<10}" and "n \<le> 10"
  obtains vals where "number_entries (node_array x n) 0 v = vals" and "number_entries (node_array x n) 0 vals = vals"
    and "\<forall>i<n. vals (x i) = int i + 1" and "map vals (node_array x n) = [1..int n]"
proof
  have d: "distinct (node_array x n)"
    using assms by (auto simp: node_array_def distinct_map intro: inj_on_subset)
  show "number_entries (node_array x n) 0 (number_entries (node_array x n) 0 v) = number_entries (node_array x n) 0 v"
    by (rule number_entries_idem [OF d])
  show "\<forall>i<n. number_entries (node_array x n) 0 v (x i) = int i + 1"
    using number_entries_nth [OF d, of _ v] by (simp add: node_array_def)
  show "map (number_entries (node_array x n) 0 v) (node_array x n) = [1..int n]"
    using number_entries_map [OF d, of 0 v] by (simp add: node_array_def)
qed simp

lemma four_Suc: "Suc (Suc (Suc (Suc 0))) = 4"
  by simp

lemmas tree_eval = four_Suc ins_fix.simps(1) rem_rot.simps rem_del_def entries_def fixed_test_defs

text \<open>Each test passes on trees.\<close>

lemma fixed_tests_tree:
  assumes x: "inj_on x {..<10}"
  shows "list_all (\<lambda>as. tree_script offset as es v t) (fixed_tests x)"
proof -
  have s: "key_search (A_NODE_KEY_CMP vals) offset k (x i + offset) =
      (if k < int i + 1 then Some RB_LEFT else if int i + 1 < k then Some RB_RIGHT else None)"
    if "\<forall>i<n. vals (x i) = int i + 1" "n \<le> 10" "i < n" "0 \<le> k" "k \<le> 10" for i k n vals
    using that by (intro numbered_search) simp_all
  have "tree_script offset (test_rbtree_init x) es v t"
  proof -
    obtain vals where v: "number_entries (node_array x 1) 0 v = vals" "\<forall>i<1. vals (x i) = int i + 1"
      by (rule numbered_array [OF x, of 1 v]) simp_all
    have "vals (x 0) = 1" using v(2) by simp
    then show ?thesis by (simp add: v(1) [unfolded One_nat_def] s [OF v(2)] tree_eval)
  qed
  moreover have "tree_script offset (test_rbtree_insert_left x) es v t \<and> tree_script offset (test_rbtree_insert_right x) es v t"
  proof -
    obtain vals where v: "number_entries (node_array x 8) 0 v = vals" "\<forall>i<8. vals (x i) = int i + 1"
      "map vals (node_array x 8) = [1..int 8]"
      by (rule numbered_array [OF x, of 8 v]) simp_all
    have v': "vals (x 0) = 1" "vals (x 1) = 2" "vals (x 2) = 3" "vals (x 3) = 4" "vals (x 4) = 5" "vals (x 5) = 6" "vals (x 6) = 7" "vals (x 7) = 8"
      using v(2) by simp_all
    note s' = s [OF v(2)]
    show ?thesis by (simp add: v v' v' [unfolded One_nat_def] s' s' [where i = "Suc 0"] upto_rec1 [of 1 8] tree_eval)
  qed
  moreover have "tree_script offset (test_rbtree_remove_simple x) es v t"
  proof -
    obtain vals where v: "number_entries (node_array x 4) 0 v = vals" "number_entries (node_array x 4) 0 vals = vals"
      "\<forall>i<4. vals (x i) = int i + 1"
      by (rule numbered_array [OF x, of 4 v]) simp_all
    have v': "vals (x 0) = 1" "vals (x 1) = 2" "vals (x 2) = 3" "vals (x 3) = 4"
      using v(3) by simp_all
    note s' = s [OF v(3)]
    show ?thesis by (simp add: v(1,2) v' v' [unfolded One_nat_def] s' s' [where i = "Suc 0"] tree_eval)
  qed
  moreover have "tree_script offset (test_rbtree_remove_simple2 x) es v t"
  proof -
    obtain vals where v: "number_entries (node_array x 10) 0 v = vals" "number_entries (node_array x 10) 0 vals = vals"
      "\<forall>i<10. vals (x i) = int i + 1"
      by (rule numbered_array [OF x, of 10 v]) simp_all
    have v': "vals (x 0) = 1" "vals (x 1) = 2" "vals (x 2) = 3" "vals (x 3) = 4" "vals (x 4) = 5" "vals (x 5) = 6" "vals (x 6) = 7" "vals (x 7) = 8" "vals (x 8) = 9" "vals (x 9) = 10"
      using v(3) by simp_all
    note s' = s [OF v(3)]
    show ?thesis by (simp add: v(1,2) v' v' [unfolded One_nat_def] s' s' [where i = "Suc 0"] tree_eval)
  qed
  ultimately show ?thesis by (simp add: fixed_tests_def)
qed

lemma fixed_tests_legal:
  assumes "inj_on x {..<10}"
  shows "list_all (legal_script (x ` {..<10}) es) (fixed_tests x)"
proof -
  have "legal_array (x ` {..<10}) (node_array x n)" if "n \<le> 10" for n
    using assms that by (auto simp: legal_array_def node_array_def distinct_map intro: inj_on_subset)
  moreover have "x i \<in> set (node_array x n)" if "i < n" for i n
    using that by (simp add: node_array_def)
  ultimately show ?thesis by (simp add: fixed_tests_def fixed_test_defs safe_keys_def)
qed

end
