(* ===== verification/RB_Tree.thy ===== *)
theory RB_Tree
  imports RB_Access
begin

text \<open>
  The red-black tree with parent pointers: \<open>rbtree/rbtree.h\<close> and \<open>rbtree/rbtree.c\<close>.

  A \<open>RB_NODE\<close> has a word with the parent pointer and, in its lowest bit, the colour, and an
  array of the two child pointers. The state is the field \<open>rb_root\<close> of the \<open>RB_ROOT\<close> that the
  operations are given and the memory of the nodes; an access \<open>p->rb_child[dir]\<close> is the same as
  the accessor function \<open>rb_child\<close>. Loops are \<open>partial_function\<close>s: \<open>None\<close> is a dereference of an
  invalid pointer or an endless loop. The comparators and the offset of the node in the
  user's structure are parameters of the generated functions.
\<close>

section \<open>Nodes\<close>

record 'p RB_NODE =
  rb_parent_color :: 'p
  rb_children :: "rb_dir \<Rightarrow> 'p"

type_synonym 'w rb = "('w word, 'w word RB_NODE) rb_state"

definition RB_ROOT_INIT :: "'w::len rb \<Rightarrow> 'w rb" where
  "RB_ROOT_INIT s = s\<lparr>rb_root := 0\<rparr>"

definition RB_EMPTY :: "'w::len rb \<Rightarrow> bool" where
  "RB_EMPTY s \<longleftrightarrow> rb_root s = 0"

definition rb_parent :: "'w::len word \<Rightarrow> 'w rb \<Rightarrow> 'w word option" where
  "rb_parent node s = do { n \<leftarrow> load node s; Some (rb_parent_color n AND NOT 1) }"

definition rb_set_parent :: "'w::len word \<Rightarrow> 'w word \<Rightarrow> 'w rb \<Rightarrow> 'w rb option" where
  "rb_set_parent node parent s = do {
    n \<leftarrow> load node s;
    store node (n\<lparr>rb_parent_color := parent OR (rb_parent_color n AND 1)\<rparr>) s }"

definition rb_set_parent_color :: "'w::len word \<Rightarrow> 'w word \<Rightarrow> 'w word \<Rightarrow> 'w rb \<Rightarrow> 'w rb option" where
  "rb_set_parent_color node parent col s = do {
    n \<leftarrow> load node s;
    store node (n\<lparr>rb_parent_color := parent OR (col AND 1)\<rparr>) s }"

definition rb_child :: "'w::len word \<Rightarrow> rb_dir \<Rightarrow> 'w rb \<Rightarrow> 'w word option" where
  "rb_child node dir s = do { n \<leftarrow> load node s; Some (rb_children n dir) }"

definition rb_set_child :: "'w::len word \<Rightarrow> rb_dir \<Rightarrow> 'w word \<Rightarrow> 'w rb \<Rightarrow> 'w rb option" where
  "rb_set_child node dir child s = do {
    n \<leftarrow> load node s;
    store node (n\<lparr>rb_children := (rb_children n)(dir := child)\<rparr>) s }"

definition rb_color :: "'w::len word \<Rightarrow> 'w rb \<Rightarrow> 'w word option" where
  "rb_color node s = do { n \<leftarrow> load node s; Some (rb_parent_color n AND 1) }"

definition rb_set_color :: "'w::len word \<Rightarrow> 'w word \<Rightarrow> 'w rb \<Rightarrow> 'w rb option" where
  "rb_set_color node col s = do {
    n \<leftarrow> load node s;
    store node (n\<lparr>rb_parent_color := (rb_parent_color n AND NOT 1) OR col\<rparr>) s }"

section \<open>Rotation and repair\<close>

definition rb_rotate :: "'w::len word \<Rightarrow> rb_dir \<Rightarrow> 'w rb \<Rightarrow> 'w rb option" where
  "rb_rotate node direction s = do {
    pivot \<leftarrow> rb_child node (flip direction) s;
    inner \<leftarrow> rb_child pivot direction s;
    s \<leftarrow> rb_set_child node (flip direction) inner s;
    inner \<leftarrow> rb_child pivot direction s;
    s \<leftarrow> (if inner \<noteq> 0 then rb_set_parent inner node s else Some s);
    node_parent \<leftarrow> rb_parent node s;
    s \<leftarrow> rb_set_parent pivot node_parent s;
    s \<leftarrow> (if node_parent = 0 then Some (s\<lparr>rb_root := pivot\<rparr>)
      else do {
        child \<leftarrow> rb_child node_parent direction s;
        let cdir = (if child = node then direction else flip direction);
        rb_set_child node_parent cdir pivot s });
    s \<leftarrow> rb_set_child pivot direction node s;
    rb_set_parent node pivot s }"

partial_function (option) rb_insert_color_loop :: "'w::len word \<Rightarrow> 'w rb \<Rightarrow> 'w rb option" where
  "rb_insert_color_loop node s = do {
    parent \<leftarrow> rb_parent node s;
    red \<leftarrow> nonnull_red rb_color parent s;
    if \<not> red then Some s
    else do {
      gparent \<leftarrow> rb_parent parent s;
      left \<leftarrow> rb_child gparent RB_LEFT s;
      let dir = (if left = parent then RB_LEFT else RB_RIGHT);
      uncle \<leftarrow> rb_child gparent (flip dir) s;
      red \<leftarrow> nonnull_red rb_color uncle s;
      if red then do {
        s \<leftarrow> rb_set_color parent RB_BLACK s;
        s \<leftarrow> rb_set_color uncle RB_BLACK s;
        s \<leftarrow> rb_set_color gparent RB_RED s;
        rb_insert_color_loop gparent s }
      else do {
        inner \<leftarrow> rb_child parent (flip dir) s;
        s' \<leftarrow> (if inner = node then rb_rotate parent dir s else Some s);
        let (node', parent') = (if inner = node then (parent, node) else (node, parent));
        s' \<leftarrow> rb_set_color parent' RB_BLACK s';
        s' \<leftarrow> rb_set_color gparent RB_RED s';
        s' \<leftarrow> rb_rotate gparent (flip dir) s';
        rb_insert_color_loop node' s' } } }"

definition rb_insert_color :: "'w::len word \<Rightarrow> 'w rb \<Rightarrow> 'w rb option" where
  "rb_insert_color node s = do {
    s \<leftarrow> rb_insert_color_loop node s;
    rb_set_color (rb_root s) RB_BLACK s }"

text \<open>The end of the loop body of \<open>rb_remove_color\<close>, its case 4.\<close>

definition rb_remove_color_end :: "'w::len word \<Rightarrow> 'w word \<Rightarrow> rb_dir \<Rightarrow> 'w rb \<Rightarrow> ('w word \<times> 'w rb) option"
  where
  "rb_remove_color_end parent sibling dir s = do {
    c \<leftarrow> rb_color parent s;
    s \<leftarrow> rb_set_color sibling c s;
    s \<leftarrow> rb_set_color parent RB_BLACK s;
    far \<leftarrow> rb_child sibling (flip dir) s;
    s \<leftarrow> rb_set_color far RB_BLACK s;
    s \<leftarrow> rb_rotate parent dir s;
    Some (rb_root s, s) }"

text \<open>
  The loop body after case 1: case 2 goes on with the next iteration (\<open>Inl\<close>: the new
  \<open>parent\<close> and \<open>node\<close>), the other cases leave the loop (\<open>Inr\<close>: the new \<open>node\<close>).
\<close>

definition rb_remove_color_tail :: "'w::len word \<Rightarrow> 'w word \<Rightarrow> rb_dir \<Rightarrow> 'w rb
    \<Rightarrow> ('w word \<times> 'w word \<times> 'w rb + 'w word \<times> 'w rb) option" where
  "rb_remove_color_tail parent sibling dir s = do {
    far \<leftarrow> rb_child sibling (flip dir) s;
    far_black \<leftarrow> null_or_black rb_color far s;
    if far_black then do {
      near \<leftarrow> rb_child sibling dir s;
      near_black \<leftarrow> null_or_black rb_color near s;
      if near_black then do {
        s \<leftarrow> rb_set_color sibling RB_RED s;
        gparent \<leftarrow> rb_parent parent s;
        Some (Inl (gparent, parent, s)) }
      else do {
        near \<leftarrow> rb_child sibling dir s;
        s \<leftarrow> rb_set_color near RB_BLACK s;
        s \<leftarrow> rb_set_color sibling RB_RED s;
        s \<leftarrow> rb_rotate sibling (flip dir) s;
        sibling \<leftarrow> rb_child parent (flip dir) s;
        r \<leftarrow> rb_remove_color_end parent sibling dir s;
        Some (Inr r) } }
    else do {
      r \<leftarrow> rb_remove_color_end parent sibling dir s;
      Some (Inr r) } }"

partial_function (option) rb_remove_color_loop ::
    "'w::len word \<Rightarrow> 'w word \<Rightarrow> 'w rb \<Rightarrow> ('w word \<times> 'w rb) option" where
  "rb_remove_color_loop parent node s = do {
    black \<leftarrow> null_or_black rb_color node s;
    if \<not> (black \<and> node \<noteq> rb_root s) then Some (node, s)
    else do {
      left \<leftarrow> rb_child parent RB_LEFT s;
      let dir = (if left = node then RB_LEFT else RB_RIGHT);
      sibling \<leftarrow> rb_child parent (flip dir) s;
      c \<leftarrow> rb_color sibling s;
      (sibling, s) \<leftarrow> (if c = RB_RED then do {
          s \<leftarrow> rb_set_color sibling RB_BLACK s;
          s \<leftarrow> rb_set_color parent RB_RED s;
          s \<leftarrow> rb_rotate parent dir s;
          sibling \<leftarrow> rb_child parent (flip dir) s;
          Some (sibling, s) }
        else Some (sibling, s));
      r \<leftarrow> rb_remove_color_tail parent sibling dir s;
      case r of
        Inl (parent, node, s) \<Rightarrow> rb_remove_color_loop parent node s
      | Inr (node, s) \<Rightarrow> Some (node, s) } }"

definition rb_remove_color :: "'w::len word \<Rightarrow> 'w word \<Rightarrow> 'w rb \<Rightarrow> 'w rb option" where
  "rb_remove_color parent node s = do {
    (node, s) \<leftarrow> rb_remove_color_loop parent node s;
    if node \<noteq> 0 then rb_set_color node RB_BLACK s else Some s }"

definition rb_change_child :: "'w::len word \<Rightarrow> 'w word \<Rightarrow> 'w word \<Rightarrow> 'w rb \<Rightarrow> 'w rb option" where
  "rb_change_child parent old_child new_child s = do {
    left \<leftarrow> rb_child parent RB_LEFT s;
    let dir = (if left = old_child then RB_LEFT else RB_RIGHT);
    rb_set_child parent dir new_child s }"

section \<open>Iteration\<close>

text \<open>The loop \<open>while ((q = rb_child(p, dir)) != NULL) p = q;\<close>.\<close>

partial_function (option) rb_descend :: "rb_dir \<Rightarrow> 'w::len word \<Rightarrow> 'w rb \<Rightarrow> 'w word option" where
  "rb_descend dir p s = do {
    q \<leftarrow> rb_child p dir s;
    if q \<noteq> 0 then rb_descend dir q s else Some p }"

definition rb_iter :: "rb_dir \<Rightarrow> 'w::len rb \<Rightarrow> 'w word option" where
  "rb_iter dir s = (let p = rb_root s in if p \<noteq> 0 then rb_descend dir p s else Some p)"

definition rb_first :: "'w::len rb \<Rightarrow> 'w word option" where
  "rb_first s = rb_iter RB_LEFT s"

definition rb_last :: "'w::len rb \<Rightarrow> 'w word option" where
  "rb_last s = rb_iter RB_RIGHT s"

text \<open>The loop \<open>while ((p = rb_parent(node)) != NULL && rb_child(p, dir) == node) node = p;\<close>.\<close>

partial_function (option) rb_ascend :: "rb_dir \<Rightarrow> 'w::len word \<Rightarrow> 'w rb \<Rightarrow> 'w word option" where
  "rb_ascend dir node s = do {
    p \<leftarrow> rb_parent node s;
    if p \<noteq> 0 then do {
      q \<leftarrow> rb_child p dir s;
      if q = node then rb_ascend dir p s else Some p }
    else Some p }"

definition rb_iter_next :: "'w::len word \<Rightarrow> rb_dir \<Rightarrow> 'w rb \<Rightarrow> 'w word option" where
  "rb_iter_next node dir s =
    (if node \<noteq> 0 then do {
       p \<leftarrow> rb_child node dir s;
       if p \<noteq> 0 then rb_descend (flip dir) p s else rb_ascend dir node s }
     else Some 0)"

definition rb_next :: "'w::len word \<Rightarrow> 'w rb \<Rightarrow> 'w word option" where
  "rb_next node s = rb_iter_next node RB_RIGHT s"

definition rb_prev :: "'w::len word \<Rightarrow> 'w rb \<Rightarrow> 'w word option" where
  "rb_prev node s = rb_iter_next node RB_LEFT s"

section \<open>Removal\<close>

definition rb_remove :: "'w::len word \<Rightarrow> 'w rb \<Rightarrow> 'w rb option" where
  "rb_remove node s = do {
    node_parent \<leftarrow> rb_parent node s;
    deleted_color \<leftarrow> rb_color node s;
    left \<leftarrow> rb_child node RB_LEFT s;
    right \<leftarrow> rb_child node RB_RIGHT s;
    (replacement, transplanter, parent, deleted_color, s) \<leftarrow>
      (if left = 0 then do {
         s \<leftarrow> (if right \<noteq> 0 then rb_set_parent right node_parent s else Some s);
         Some (right, right, node_parent, deleted_color, s) }
       else if right = 0 then do {
         s \<leftarrow> rb_set_parent left node_parent s;
         Some (left, left, node_parent, deleted_color, s) }
       else do {
         successor \<leftarrow> rb_descend RB_LEFT right s;
         deleted_color \<leftarrow> rb_color successor s;
         child \<leftarrow> rb_child successor RB_RIGHT s;
         parent \<leftarrow> rb_parent successor s;
         (parent, s) \<leftarrow> (if parent \<noteq> node then do {
             s \<leftarrow> rb_change_child parent successor child s;
             s \<leftarrow> (if child \<noteq> 0 then rb_set_parent child parent s else Some s);
             right \<leftarrow> rb_child node RB_RIGHT s;
             s \<leftarrow> rb_set_child successor RB_RIGHT right s;
             right \<leftarrow> rb_child node RB_RIGHT s;
             s \<leftarrow> rb_set_parent right successor s;
             Some (parent, s) }
           else Some (successor, s));
         left \<leftarrow> rb_child node RB_LEFT s;
         s \<leftarrow> rb_set_child successor RB_LEFT left s;
         left \<leftarrow> rb_child node RB_LEFT s;
         s \<leftarrow> rb_set_parent left successor s;
         n \<leftarrow> load node s;
         m \<leftarrow> load successor s;
         s \<leftarrow> store successor (m\<lparr>rb_parent_color := rb_parent_color n\<rparr>) s;
         Some (child, successor, parent, deleted_color, s) });
    s \<leftarrow> (if node_parent \<noteq> 0 then rb_change_child node_parent node transplanter s
      else Some (s\<lparr>rb_root := transplanter\<rparr>));
    if deleted_color = RB_BLACK then rb_remove_color parent replacement s else Some s }"

section \<open>The generated functions\<close>

text \<open>
  The descent of \<open>RB_GENERATE_INSERT\<close>: it ends at an entry equal to the new one, or below a
  parent in a direction without child.
\<close>

partial_function (option) rb_insert_loop ::
    "'w::len word \<Rightarrow> ('w word \<Rightarrow> 'w word \<Rightarrow> int) \<Rightarrow> 'w word \<Rightarrow> 'w word \<Rightarrow> 'w rb
      \<Rightarrow> ('w word + 'w word \<times> rb_dir) option" where
  "rb_insert_loop offset cmp node p s =
    (let parent = p; ent = RB_ENTRY offset p; c = cmp node ent in
     case cmp_dir c of
       None \<Rightarrow> Some (Inl ent)
     | Some dir \<Rightarrow> do {
         p \<leftarrow> rb_child p dir s;
         if p \<noteq> 0 then rb_insert_loop offset cmp node p s else Some (Inr (parent, dir)) })"

definition rb_insert :: "'w::len word \<Rightarrow> ('w word \<Rightarrow> 'w word \<Rightarrow> int) \<Rightarrow> 'w word \<Rightarrow> 'w rb
    \<Rightarrow> ('w word \<times> 'w rb) option" where
  "rb_insert offset cmp node s =
    (let p = rb_root s; field = node + offset in do {
      place \<leftarrow> (if p \<noteq> 0 then rb_insert_loop offset cmp node p s else Some (Inr (0, RB_LEFT)));
      case place of
        Inl ent \<Rightarrow> Some (ent, s)
      | Inr (parent, dir) \<Rightarrow> do {
          s \<leftarrow> (if p \<noteq> 0 then rb_set_child parent dir field s else Some (s\<lparr>rb_root := field\<rparr>));
          s \<leftarrow> rb_set_parent_color field parent RB_RED s;
          s \<leftarrow> rb_set_child field RB_LEFT 0 s;
          s \<leftarrow> rb_set_child field RB_RIGHT 0 s;
          s \<leftarrow> rb_insert_color field s;
          Some (node, s) } })"

partial_function (option) rb_find_loop ::
    "'w::len word \<Rightarrow> ('k \<Rightarrow> 'w word \<Rightarrow> int) \<Rightarrow> 'k \<Rightarrow> 'w word \<Rightarrow> 'w rb \<Rightarrow> 'w word option" where
  "rb_find_loop offset key_cmp key p s =
    (if p \<noteq> 0 then
       let ent = RB_ENTRY offset p; c = key_cmp key ent in
       case cmp_dir c of
         None \<Rightarrow> Some ent
       | Some dir \<Rightarrow> do { p \<leftarrow> rb_child p dir s; rb_find_loop offset key_cmp key p s }
     else Some 0)"

definition rb_find :: "'w::len word \<Rightarrow> ('k \<Rightarrow> 'w word \<Rightarrow> int) \<Rightarrow> 'k \<Rightarrow> 'w rb \<Rightarrow> 'w word option" where
  "rb_find offset key_cmp key s = rb_find_loop offset key_cmp key (rb_root s) s"

definition rb_remove_key :: "'w::len word \<Rightarrow> ('k \<Rightarrow> 'w word \<Rightarrow> int) \<Rightarrow> 'k \<Rightarrow> 'w rb
    \<Rightarrow> ('w word \<times> 'w rb) option" where
  "rb_remove_key offset key_cmp key s = do {
    node \<leftarrow> rb_find offset key_cmp key s;
    s \<leftarrow> (if node \<noteq> 0 then rb_remove (node + offset) s else Some s);
    Some (node, s) }"

section \<open>The layout of a node\<close>

definition enc :: "('w::len, 'w word RB_NODE) layout" where
  "enc par c d x y = \<lparr>rb_parent_color = par OR color_bit c,
    rb_children = (\<lambda>e. if e = d then x else y)\<rparr>"

lemma enc_flip: "enc par c (flip d) x y = enc par c d y x"
  by (simp add: enc_def fun_eq_iff)

lemma sym_enc [simp]: "sym_layout enc"
  by (simp add: enc_flip [of _ _ RB_LEFT, simplified])

text \<open>Reading and writing the fields of an encoded node.\<close>

lemma enc_read:
  "rb_children (enc par c d x y) d = x"
  "rb_children (enc par c d x y) (flip d) = y"
  "aligned par \<Longrightarrow> rb_parent_color (enc par c d x y) AND - 2 = par"
  "aligned par \<Longrightarrow> rb_parent_color (enc par c d x y) AND 1 = color_bit c"
  by (simp_all add: enc_def untag_word untag_minus_2)

lemma enc_write:
  "(enc par c d x y)\<lparr>rb_children := (rb_children (enc par c d x y))(d := v)\<rparr> = enc par c d v y"
  "(enc par c d x y)\<lparr>rb_children := (rb_children (enc par c d x y))(flip d := v)\<rparr> = enc par c d x v"
  "(enc par c d x y)\<lparr>rb_parent_color := q OR color_bit c'\<rparr> = enc q c' d x y"
  "(enc par c d x y)\<lparr>rb_parent_color := q OR RB_RED\<rparr> = enc q Red d x y"
  "(enc par c d x y)\<lparr>rb_parent_color := q OR RB_BLACK\<rparr> = enc q Black d x y"
  "(enc par c d x y)\<lparr>rb_parent_color := color_bit c'\<rparr> = enc 0 c' d x y"
  "(enc par c d x y)\<lparr>rb_parent_color := RB_RED\<rparr> = enc 0 Red d x y"
  "(enc par c d x y)\<lparr>rb_parent_color := RB_BLACK\<rparr> = enc 0 Black d x y"
  by (auto simp: enc_def fun_eq_iff)

lemmas accessors = rb_parent_def rb_set_parent_def rb_set_parent_color_def rb_child_def
  rb_set_child_def rb_color_def rb_set_color_def store_case load_upd enc_read enc_write enc_flip

section \<open>Rotation\<close>

text \<open>A rotation at the node in focus, whatever its parent is and whether the inner subtree is empty.\<close>

lemma rb_rotate_st:
  assumes "zok k (mk d c a x (mk d c' b y z))"
  shows "rb_rotate a d (st enc F k (mk d c a x (mk d c' b y z))) =
    Some (st enc F k (mk d c' b (mk d c a x y) z))"
proof -
  let ?s = "st enc F k (mk d c a x (mk d c' b y z))"
  have la: "load a ?s = Some (enc (kpar k) c d (root_addr x) b)"
    and lb: "load b ?s = Some (enc a c' d (root_addr y) (root_addr z))"
    using assms by (auto simp: load_tree heap_of_mk_lookup zok_def)
  have ly: "load e ?s = Some (enc b cy d (root_addr y1) (root_addr y2))" "e \<noteq> 0" "e \<noteq> a" "e \<noteq> b"
    if "y = mk d cy e y1 y2" for cy e y1 y2
    using assms that by (auto simp: load_tree heap_of_mk_lookup zok_def node_addr_def)
  have lp: "load p ?s = Some (enc (kpar k') cp e a (root_addr s))" "p \<noteq> 0" "p \<noteq> a" "p \<noteq> b"
      "aligned p" "root_addr s \<noteq> a" "p \<notin> addrs y" if "k = (e, cp, p, s) # k'" for e cp p s k'
    using assms that root_addr_in [of s] by (auto simp: load_ctx zok_def node_addr_def)
  have z: "a \<noteq> 0" "b \<noteq> 0" "a \<noteq> b" "aligned a" "aligned b" "aligned (kpar k)"
    using assms by (auto simp: zok_def node_addr_def aligned_kpar)
  show ?thesis
    using la lb lp ly z unfolding rb_rotate_def
    by (cases y rule: rbt_dir_cases [where d = d]; cases k rule: frame_cases [where d = d];
        simp add: accessors; insert assms; auto simp: heap_eq enc_flip)
qed

section \<open>Reading and painting in a state\<close>

text \<open>At the node in focus.\<close>

lemma focus_load:
  assumes "zok k (mk d c a x y)"
  shows "load a (st enc F k (mk d c a x y)) = Some (enc (kpar k) c d (root_addr x) (root_addr y))"
    and "aligned (kpar k)"
  using assms by (auto simp: load_tree heap_of_mk_lookup zok_def aligned_kpar)

text \<open>The accessor functions satisfy the contract of a node's layout.\<close>

interpretation rb_mem: node_access enc rb_child rb_color rb_set_color
proof
  fix k d c a x y c' and F :: "'a::len word \<Rightarrow> 'a word RB_NODE option"
  assume z: "zok k (mk d c (a :: 'a word) x y)"
  show "rb_child a d (st enc F k (mk d c a x y)) = Some (root_addr x)"
    "rb_color a (st enc F k (mk d c a x y)) = Some (color_bit c)"
    "rb_set_color a (color_bit c') (st enc F k (mk d c a x y)) = Some (st enc F k (mk d c' a x y))"
    using focus_load(1) [OF z, of F] focus_load(2) [OF z] z by (simp_all add: accessors st_cong_root)
qed (rule sym_enc)

lemma focus_parent:
  assumes "zok k t" and "t \<noteq> Leaf"
  shows "rb_parent (root_addr t) (st enc F k t) = Some (kpar k)"
proof -
  from assms(2) obtain c a x y where "t = mk RB_LEFT c a x y" by (cases t) auto
  with assms(1) focus_load [of k RB_LEFT c a x y] show ?thesis by (simp add: accessors)
qed

lemma frame_parent:
  assumes "zok (k1 @ (d, c, a, s) # k2) t"
  shows "rb_parent a (st enc F (k1 @ (d, c, a, s) # k2) t) = Some (kpar k2)"
  using rb_mem.st_at_frame [OF assms] focus_parent [of k2 "mk d c a (zip_up k1 t) s" F] by simp

lemmas focus_child = rb_mem.child_at
lemmas focus_color = rb_mem.color_at
lemmas focus_tests = rb_mem.tests_at
lemmas focus_set_color = rb_mem.set_color_at
lemmas paint_root = rb_mem.at_root

lemmas focus_reads = rb_mem.at_focus focus_parent focus_parent [of _ "mk d c a x y" for d c a x y, simplified]

lemmas parent_reads = rb_mem.at_parent frame_parent [of "[]", simplified]

lemmas grandparent_reads = rb_mem.at_grandparent
  frame_parent [of "[(e', cb, b, sb)]" for e' cb b sb, simplified]

text \<open>Rotations seen from below: at the parent of the focus, and at the grandparent.\<close>

lemma rb_rotate_parent:
  assumes "zok ((flip d, c, p, s) # k) (mk d c' n x y)"
  shows "rb_rotate p d (st enc F ((flip d, c, p, s) # k) (mk d c' n x y)) =
    Some (st enc F ((d, c', n, y) # k) (mk d c p s x))"
proof -
  from assms have z: "zok k (mk d c p s (mk d c' n x y))"
    by (simp add: zok_focus mk_flip)
  moreover from z have "zok k (mk d c' n (mk d c p s x) y)"
    by (auto simp: zok_def)
  ultimately show ?thesis
    using rb_rotate_st [OF z, of F] by (simp add: st_focus mk_flip)
qed

lemma rb_rotate_grandparent:
  assumes "zok ((d, c', p, s) # (d, c, g, u) # k) t"
  shows "rb_rotate g (flip d) (st enc F ((d, c', p, s) # (d, c, g, u) # k) t) =
    Some (st enc F ((d, c', p, mk d c g s u) # k) t)"
proof -
  from assms have z: "zok k (mk d c g (mk d c' p t s) u)"
    by (simp add: zok_focus)
  moreover from z have "zok k (mk d c' p t (mk d c g s u))"
    by (auto simp: zok_def)
  moreover have "st enc F ((d, c', p, s) # (d, c, g, u) # k) t = st enc F k (mk d c g (mk d c' p t s) u)"
    using assms by (intro st_move) auto
  ultimately show ?thesis
    using rb_rotate_st [of k "flip d" c g u c' p s t F] by (simp add: mk_flip st_focus)
qed

section \<open>Repair after an insertion\<close>

lemma rb_insert_color_loop_done:
  assumes "zok ((d, Black, p, s) # k) t" "t \<noteq> Leaf"
  shows "rb_insert_color_loop (root_addr t) (st enc F ((d, Black, p, s) # k) t) =
    Some (st enc F ((d, Black, p, s) # k) t)"
  using assms by (subst rb_insert_color_loop.simps) (simp add: focus_parent parent_reads)

lemmas repair_reads = focus_reads parent_reads grandparent_reads Let_def left_of_eq_iff zok_unfold

lemma rb_insert_color_straight:
  assumes z: "zok ((d, Red, p, s) # (d, Black, g, u) # k) t" and t: "t \<noteq> Leaf" and u: "color u = Black"
  shows "rb_insert_color (root_addr t) (st enc F ((d, Red, p, s) # (d, Black, g, u) # k) t) =
    Some (st enc F [] (ins_fix ((d, Red, p, s) # (d, Black, g, u) # k) t))"
proof -
  have ne: "root_addr u \<noteq> p" "root_addr s \<noteq> root_addr t"
    using z t root_addr_neq [of p u] root_addr_disjoint [of s t] by (auto simp: zok_def)
  have z': "zok ((d, Black, p, mk d Red g s u) # k) t" using z by (auto simp: zok_def)
  show ?thesis
    using z t u ne paint_root(1) [OF z' t, of F] rb_insert_color_loop_done [OF z' t, of F]
    unfolding rb_insert_color_def
    by (subst rb_insert_color_loop.simps)
       (simp add: repair_reads rb_rotate_grandparent ins_fix_straight split del: if_split)
qed

lemma rb_insert_color_bent:
  assumes z: "zok ((flip d, Red, p, s) # (d, Black, g, u) # k) (mk d Red n x y)" and u: "color u = Black"
  shows "rb_insert_color n (st enc F ((flip d, Red, p, s) # (d, Black, g, u) # k) (mk d Red n x y)) =
    Some (st enc F [] (ins_fix ((flip d, Red, p, s) # (d, Black, g, u) # k) (mk d Red n x y)))"
proof -
  let ?k = "(d, Black, n, mk d Red g y u) # k" and ?t = "mk d Red p s x"
  have ne: "root_addr u \<noteq> p"
    using z root_addr_neq [of p u] by (auto simp: zok_def)
  have z': "zok ?k ?t" and z'': "zok ((d, Red, n, y) # (d, Black, g, u) # k) ?t"
    using z by (auto simp: zok_def)
  show ?thesis
    using z z'' u ne paint_root(1) [OF z', of F] rb_insert_color_loop_done [OF z', of F]
    unfolding rb_insert_color_def
    by (subst rb_insert_color_loop.simps)
       (simp add: repair_reads rb_rotate_parent rb_rotate_grandparent ins_fix_bent split del: if_split)
qed

lemma rb_insert_color_st:
  assumes "zok k t" "cctx k Black" "color t = Red"
  shows "rb_insert_color (root_addr t) (st enc F k t) = Some (st enc F [] (ins_fix k t))"
  using assms
proof (induction "length k" arbitrary: k t rule: less_induct)
  case less
  have t: "t \<noteq> Leaf" using less.prems(3) by auto
  note unfold = rb_insert_color_def rb_insert_color_loop.simps [of "root_addr t"]
  from less.prems(2,3) show ?case
  proof (cases rule: ins_fix_cases)
    case Root
    with less.prems t show ?thesis
      using paint_root(1) [OF less.prems(1) t] unfolding unfold by (simp add: repair_reads nonnull_red_def)
  next
    case (Done d p s k')
    with less.prems t show ?thesis
      using paint_root(1) [OF less.prems(1) t] unfolding rb_insert_color_def
      by (simp add: rb_insert_color_loop_done)
  next
    case (Recolor d1 p s d g u k')
    let ?k = "(d1, Black, p, s) # (d, Red, g, paint Black u) # k'"
    have u: "u \<noteq> Leaf" "root_addr u \<noteq> p"
      using Recolor less.prems(1) root_addr_neq [of p u] by (auto simp: zok_def)
    have z: "zok ?k t" using Recolor less.prems(1) by (simp add: zok_def)
    have "rb_insert_color g (st enc F ?k t) = Some (st enc F [] (ins_fix k t))"
      using less.prems Recolor z less.hyps [of k' "mk d Red g (mk d1 Black p t s) (paint Black u)"]
      by (simp add: ins_fix_recolor st_focus zok_focus)
    then show ?thesis
      using Recolor less.prems(1) t u unfolding unfold
      by (simp add: repair_reads split del: if_split)
  next
    case (Straight p s d g u k')
    with less.prems(1) t rb_insert_color_straight show ?thesis by simp
  next
    case (Bent p s d g u k' n x y)
    with less.prems(1) rb_insert_color_bent [of d p s g u k' n x y F] show ?thesis by simp
  qed
qed

end
