(* ===== verification/RB_Tree_Remove.thy ===== *)
theory RB_Tree_Remove
  imports RB_Tree
begin

text \<open>
  \<open>rb_remove_color\<close> and \<open>rb_remove\<close> of \<open>rbtree/rbtree.c\<close> implement \<open>rem_fix\<close> and \<open>rem\<close>: on every
  heap that holds a red-black tree they return, and the new heap holds the tree that the
  specification computes, every other cell being unchanged.
\<close>

section \<open>Repair after a removal\<close>

text \<open>The reads and rotations with the near nephew \<open>x\<close> in focus.\<close>

lemma rb_rotate_up:
  assumes "zok ((d, c', q, y) # (flip d, c, p, t) # k) x"
  shows "rb_rotate p d (st enc F ((d, c', q, y) # (flip d, c, p, t) # k) x) =
    Some (st enc F k (mk d c' q (mk d c p t x) y))"
proof -
  from assms have z: "zok k (mk d c p t (mk d c' q x y))"
    by (simp add: zok_focus mk_flip)
  have "st enc F ((d, c', q, y) # (flip d, c, p, t) # k) x = st enc F k (mk d c p t (mk d c' q x y))"
    using assms by (intro st_move) (auto simp: mk_flip)
  with rb_rotate_st [OF z] show ?thesis by simp
qed

lemma rb_remove_color_end_st:
  assumes "zok ((d, c', q, y) # (flip d, c, p, t) # k) x" and "y \<noteq> Leaf"
    and "s' = st enc F k (mk d c q (mk d Black p t x) (paint Black y))"
  shows "rb_remove_color_end p q d (st enc F ((d, c', q, y) # (flip d, c, p, t) # k) x) =
    Some (rb_root s', s')"
proof -
  have "zok ((d, c, q, paint Black y) # (flip d, Black, p, t) # k) x"
    using assms by (auto simp: zok_def)
  with assms show ?thesis
    unfolding rb_remove_color_end_def by (simp add: repair_reads rb_rotate_up)
qed

lemma rb_remove_color_tail_continue:
  assumes "zok ((d, Black, q, y) # (flip d, c, p, t) # k) x" and "color x = Black" "color y = Black"
  shows "rb_remove_color_tail p q d (st enc F ((d, Black, q, y) # (flip d, c, p, t) # k) x) =
    Some (Inl (kpar k, p, st enc F k (mk d c p t (mk d Red q x y))))"
proof -
  have z: "zok ((d, Red, q, y) # (flip d, c, p, t) # k) x"
    using assms by (auto simp: zok_def)
  then have "st enc F ((d, Red, q, y) # (flip d, c, p, t) # k) x = st enc F k (mk d c p t (mk d Red q x y))"
    by (intro st_move) (simp_all add: mk_flip)
  moreover have "zok k (mk d c p t (mk d Red q x y))"
    using z by (simp add: zok_focus mk_flip)
  ultimately show ?thesis
    using assms unfolding rb_remove_color_tail_def by (simp add: repair_reads)
qed

lemma rb_remove_color_tail_break:
  assumes "zok ((d, Black, q, y) # (flip d, c, p, t) # k) x" and "color x = Red \<or> color y = Red"
    and "s' = st enc F k (rem_rot d c p t q x y)"
  shows "rb_remove_color_tail p q d (st enc F ((d, Black, q, y) # (flip d, c, p, t) # k) x) =
    Some (Inr (rb_root s', s'))"
proof (cases "color y = Red")
  case True
  then have "y \<noteq> Leaf" by auto
  with rb_remove_color_end_st [OF assms(1) this refl, of F] True assms show ?thesis
    unfolding rb_remove_color_tail_def by (simp add: repair_reads rem_rot.simps)
next
  case False
  with assms obtain w x1 x2 where x: "x = mk d Red w x1 x2"
    by (cases x rule: rbt_dir_cases [where d = d]) auto
  let ?k = "(d, Black, w, mk d Red q x2 y) # (flip d, c, p, t) # k"
  have z: "zok ((d, Red, q, y) # (flip d, c, p, t) # k) (mk d Black w x1 x2)"
    "zok ?k x1" "zok ((flip d, Black, w, x1) # (flip d, c, p, t) # k) (mk d Red q x2 y)"
    using assms(1) x by (auto simp: zok_def)
  have "st enc F ((flip d, Black, w, x1) # (flip d, c, p, t) # k) (mk d Red q x2 y) = st enc F ?k x1"
    using z by (intro st_move) (simp_all add: mk_flip)
  with rb_rotate_parent [of "flip d" Red q y _ Black w x2 x1 F] z(1)
  have "rb_rotate q (flip d) (st enc F ((d, Red, q, y) # (flip d, c, p, t) # k) (mk d Black w x1 x2)) =
      Some (st enc F ?k x1)"
    by (simp add: mk_flip)
  with z False x assms rb_remove_color_end_st [OF z(2) _ refl, of F] show ?thesis
    unfolding rb_remove_color_tail_def
    by (simp add: repair_reads rem_rot.simps)
qed

text \<open>One iteration of the loop, with a black and with a red sibling.\<close>

abbreviation remove_next :: "('w::len word \<times> 'w word \<times> 'w rb + 'w word \<times> 'w rb) \<Rightarrow> ('w word \<times> 'w rb) option"
  where
  "remove_next r \<equiv> (case r of
      Inl (parent, node, s) \<Rightarrow> rb_remove_color_loop parent node s
    | Inr (node, s) \<Rightarrow> Some (node, s))"

lemma remove_loop_facts:
  assumes "zok ((d, cs, q, y) # (flip d, c, p, t) # k) x"
  shows "root_addr t \<noteq> kroot p k" "q \<noteq> root_addr t"
proof -
  have "zok ((d, c, p, mk d cs q x y) # k) t"
    using assms by (auto simp: zok_def)
  from kroot_neq_root [OF this] show "root_addr t \<noteq> kroot p k" by (metis kroot.simps(2) list.distinct(1))
  show "q \<noteq> root_addr t"
    using assms root_addr_neq [of q t] by (auto simp: zok_def)
qed

lemma rb_remove_color_loop_black:
  assumes "zok ((d, Black, q, y) # (flip d, c, p, t) # k) x" and "color t = Black"
    and "s = st enc F ((d, Black, q, y) # (flip d, c, p, t) # k) x"
  shows "rb_remove_color_loop p (root_addr t) s = rb_remove_color_tail p q d s \<bind> remove_next"
  using remove_loop_facts [OF assms(1)] assms(1,2) unfolding assms(3)
  by (subst rb_remove_color_loop.simps) (simp add: repair_reads rb_root_st split del: if_split)

lemma rb_remove_color_loop_red:
  assumes "zok ((d, Red, q, y) # (flip d, Black, p, t) # k) x" and "color t = Black"
    and "s = st enc F k (mk d Black q (mk d Red p t x) y)"
  shows "rb_remove_color_loop p (root_addr t) (st enc F ((d, Red, q, y) # (flip d, Black, p, t) # k) x) =
    rb_remove_color_tail p (root_addr x) d s \<bind> remove_next"
proof -
  have z: "zok ((d, Red, p, t) # (d, Black, q, y) # k) x"
    using assms(1) by (auto simp: zok_def)
  then have z': "zok ((flip d, Red, p, t) # (d, Black, q, y) # k) x"
    by (auto simp: zok_def)
  then have "s = st enc F ((flip d, Red, p, t) # (d, Black, q, y) # k) x"
    unfolding assms(3) by (intro st_move [symmetric]) (simp_all add: mk_flip)
  with z' have "rb_child p (flip d) s = Some (root_addr x)"
    by (simp add: parent_reads)
  with remove_loop_facts [OF assms(1)] assms show ?thesis
    by (subst rb_remove_color_loop.simps) (simp add: repair_reads rb_rotate_up rb_root_st split del: if_split)
qed

text \<open>The end of the repair by a rotation.\<close>

lemma rb_remove_color_break:
  assumes z: "zok ((d, Black, q, y) # (flip d, c, p, t) # k) x" and xy: "color x = Red \<or> color y = Red"
  shows "do {
      r \<leftarrow> rb_remove_color_tail p q d (st enc F ((d, Black, q, y) # (flip d, c, p, t) # k) x);
      (node, s) \<leftarrow> remove_next r;
      if node \<noteq> 0 then rb_set_color node RB_BLACK s else Some s } =
    Some (st enc F [] (paint Black (zip_up k (rem_rot d c p t q x y))))"
proof -
  have "zok k (mk d c p t (mk d Black q x y))"
    using z by (simp add: zok_focus mk_flip)
  then have "zok k (rem_rot d c p t q x y)"
    using zok_inorder_cong [OF inorder_rem_rot [OF xy]] by blast
  with paint_root [of k "rem_rot d c p t q x y" F] rem_rot_not_Leaf [OF xy] show ?thesis
    by (simp add: rb_remove_color_tail_break [OF z xy refl])
qed

lemma rb_remove_color_red:
  assumes "zok k t" and "color t = Red"
  shows "rb_remove_color parent (root_addr t) (st enc F k t) = Some (st enc F [] (zip_up k (paint Black t)))"
proof -
  from assms(2) have "t \<noteq> Leaf" by auto
  with assms st_zip_up [of enc k "paint Black t" F] show ?thesis
    unfolding rb_remove_color_def
    by (subst rb_remove_color_loop.simps)
       (auto simp: focus_tests focus_set_color [where c' = Black, simplified] zok_def)
qed

lemma rb_remove_color_sibling:
  assumes z: "zok ((d, Black, p, mk d Red q (mk d Black w x1 x2) y) # k) t" and t: "color t = Black"
  shows "rb_remove_color p (root_addr t) (st enc F ((d, Black, p, mk d Red q (mk d Black w x1 x2) y) # k) t) =
    Some (st enc F [] (rem_fix ((d, Black, p, mk d Red q (mk d Black w x1 x2) y) # k) t))"
proof -
  let ?k = "(d, Red, q, y) # (flip d, Black, p, t) # k" and ?x = "mk d Black w x1 x2"
  let ?k' = "(d, Black, w, x2) # (flip d, Red, p, t) # (d, Black, q, y) # k"
  have z1: "zok ?k ?x" and z2: "zok ?k' x1" using z by (auto simp: zok_def)
  have s: "st enc F ((d, Black, p, mk d Red q ?x y) # k) t = st enc F ?k ?x"
    using z by (intro st_move) (auto simp: mk_flip)
  have s': "st enc F k (mk d Black q (mk d Red p t ?x) y) = st enc F ?k' x1"
    using z2 by (intro st_move [symmetric]) (auto simp: mk_flip)
  note loop = rb_remove_color_loop_red [OF z1 t refl, of F, unfolded s', simplified]
  show ?thesis
  proof (cases "color x1 = Black \<and> color x2 = Black")
    case True
    let ?t = "mk d Red p t (mk d Red w x1 x2)"
    have "rb_remove_color q p (st enc F ((d, Black, q, y) # k) ?t) =
        Some (st enc F [] (zip_up ((d, Black, q, y) # k) (mk d Black p t (mk d Red w x1 x2))))"
      using rb_remove_color_red [of "(d, Black, q, y) # k" ?t q F] z by (auto simp: zok_unfold)
    with True t show ?thesis
      unfolding s rb_remove_color_def
      by (simp add: loop rb_remove_color_tail_continue [OF z2])
  next
    case False
    then show ?thesis
      using t rb_remove_color_break [OF z2, of F]
      unfolding s rb_remove_color_def by (auto simp: loop)
  qed
qed

text \<open>The whole repair.\<close>

lemma rb_remove_color_st:
  assumes "zok k t" "cctx k Black" "hctx k (Suc (bh t))"
  shows "rb_remove_color (kpar k) (root_addr t) (st enc F k t) = Some (st enc F [] (rem_fix k t))"
  using assms
proof (induction "length k" arbitrary: k t rule: less_induct)
  case less
  note unfold = rb_remove_color_def rb_remove_color_loop.simps [of "kpar k" "root_addr t"]
  note paint_t = focus_set_color [where c' = Black, simplified]
  from less.prems(2,3) show ?case
  proof (cases rule: rem_fix_cases)
    case Root
    with less.prems(1) show ?thesis
      unfolding unfold by (cases "t = Leaf") (simp_all add: rb_root_st focus_tests paint_t)
  next
    case (Red d c p s k')
    with less.prems(1) rb_remove_color_red [of k t] show ?thesis by simp
  next
    case (Recolor d c p q x y k')
    let ?k = "(d, Black, q, y) # (flip d, c, p, t) # k'" and ?t = "mk d c p t (mk d Red q x y)"
    have z: "zok ?k x" using less.prems(1) Recolor by (auto simp: zok_def)
    have s: "st enc F k t = st enc F ?k x"
      using less.prems(1) Recolor by (intro st_move) (auto simp: mk_flip)
    have "rb_remove_color (kpar k') p (st enc F k' ?t) = Some (st enc F [] (rem_fix k' ?t))"
      using less.hyps [of k' ?t] less.prems Recolor
      by (auto simp: zok_unfold cctx_Black split: if_splits)
    with Recolor show ?thesis
      unfolding s rb_remove_color_def
      by (simp add: rb_remove_color_loop_black [OF z _ refl] rb_remove_color_tail_continue [OF z])
  next
    case (Rotate d c p q x y k')
    let ?k = "(d, Black, q, y) # (flip d, c, p, t) # k'"
    have z: "zok ?k x" using less.prems(1) Rotate by (auto simp: zok_def)
    have s: "st enc F k t = st enc F ?k x"
      using less.prems(1) Rotate by (intro st_move) (auto simp: mk_flip)
    show ?thesis
      using Rotate rb_remove_color_break [OF z Rotate(3), of F]
      unfolding s rb_remove_color_def
      by (auto simp: rb_remove_color_loop_black [OF z _ refl])
  next
    case (Sibling d p q w x1 x2 y k')
    show ?thesis
      using rb_remove_color_sibling [of d p q w x1 x2 y k' t F] less.prems(1) Sibling(2)
      unfolding Sibling(1) kpar.simps by blast
  qed
qed

section \<open>Removal of a node\<close>

lemma rb_descend_st:
  assumes "t \<noteq> Leaf" and "zok k t"
  shows "rb_descend d (root_addr t) (st enc F k t) = Some (root_addr (snd (outer d k t)))"
  using assms
proof (induction k t rule: outer_induct [where d = d])
  case (Outermost k c a y)
  then show ?case by (subst rb_descend.simps) (simp add: focus_child outer_mk)
next
  case (Step k c a x y)
  then have "rb_child a d (st enc F k (mk d c a x y)) = Some (root_addr x)"
    "root_addr x \<noteq> 0" "st enc F k (mk d c a x y) = st enc F ((d, c, a, y) # k) x"
    by (simp_all add: focus_child st_focus zok_def)
  with Step show ?case by (subst rb_descend.simps) (simp add: outer_mk zok_focus)
qed

text \<open>A node without child in direction \<open>d\<close> is replaced by its other child.\<close>

lemma rb_change_child_load:
  assumes "load p s = Some (enc par c d x y)" and "x \<noteq> y"
  shows "rb_change_child p x v s = Some (upd p (enc par c d v y) s)"
  using assms unfolding rb_change_child_def
  by (cases d) (simp_all add: accessors enc_flip [of _ _ RB_LEFT, simplified]
      enc_write(2) [of _ _ RB_LEFT, simplified])

definition relink :: "'w::len word \<Rightarrow> 'w word \<Rightarrow> 'w word \<Rightarrow> 'w rb \<Rightarrow> 'w rb option" where
  "relink node_parent node transplanter s =
    (if node_parent \<noteq> 0 then rb_change_child node_parent node transplanter s
     else Some (s\<lparr>rb_root := transplanter\<rparr>))"

lemma unlink_facts:
  assumes "zok k (mk d c a Leaf y)" and s: "s = st enc F k (mk d c a Leaf y)"
  shows "y = mk d cy e y1 y2 \<Longrightarrow> load e s = Some (enc a cy d (root_addr y1) (root_addr y2)) \<and> e \<noteq> 0 \<and> e \<noteq> a"
    and "k = (e', cp, p, z) # k' \<Longrightarrow> load p s = Some (enc (kpar k') cp e' a (root_addr z)) \<and>
      p \<noteq> 0 \<and> p \<noteq> a \<and> a \<noteq> root_addr z \<and> p \<notin> addrs y"
    and "a \<noteq> 0" and "aligned a"
  using assms(1) root_addr_neq [of a z] unfolding s
  by (auto simp: load_tree load_ctx heap_of_mk_lookup zok_def node_addr_def)

lemma unlink_st:
  assumes "zok k (mk d c a Leaf y)" and s: "s = st enc F k (mk d c a Leaf y)"
  shows "do {
      s \<leftarrow> (if root_addr y \<noteq> 0 then rb_set_parent (root_addr y) (kpar k) s else Some s);
      relink (kpar k) a (root_addr y) s } =
    Some (st enc (F(a \<mapsto> enc (kpar k) c d 0 (root_addr y))) k y)"
  using unlink_facts [OF assms] unfolding relink_def
  by (cases y rule: rbt_dir_cases [where d = d]; cases k rule: kpar.cases;
      simp add: accessors rb_change_child_load; insert assms(1); auto simp: heap_eq s)

lemma unlink_successor_st:
  assumes "zok k (mk d c a Leaf y)" and s: "s = st enc F k (mk d c a Leaf y)" and "k \<noteq> []"
  shows "do {
      s \<leftarrow> rb_change_child (kpar k) a (root_addr y) s;
      (if root_addr y \<noteq> 0 then rb_set_parent (root_addr y) (kpar k) s else Some s) } =
    Some (st enc (F(a \<mapsto> enc (kpar k) c d 0 (root_addr y))) k y)"
  using unlink_facts [OF assms(1,2)] assms(3)
  by (cases y rule: rbt_dir_cases [where d = d]; cases k rule: kpar.cases;
      simp add: accessors rb_change_child_load; insert assms(1); auto simp: heap_eq s)

text \<open>A detached node \<open>b\<close> takes the place of a node \<open>a\<close> with two children.\<close>

lemma enc_copy:
  "(enc q cb d x y)\<lparr>rb_parent_color := rb_parent_color (enc q' c' d' x' y')\<rparr> = enc q' c' d x y"
  by (simp add: enc_def)

lemmas left_accessors = accessors enc_read(2) [where d = RB_LEFT, simplified]
  enc_write(2) [where d = RB_LEFT, simplified] enc_copy

lemma heap_of_Node_lookup:
  assumes "addrs l \<inter> addrs r = {}"
  shows "heap_of enc par (Node l c a r) b =
    (if b = a then Some (enc par c RB_LEFT (root_addr l) (root_addr r))
     else if b \<in> addrs l then heap_of enc a l b else heap_of enc a r b)"
  using heap_of_mk_lookup [of enc l r par RB_LEFT c a b] assms by simp

lemma replace_facts:
  assumes "zok k (Node l c a r)" and s: "s = st enc F k (Node l c a r)"
  shows "load a s = Some (enc (kpar k) c RB_LEFT (root_addr l) (root_addr r))" "a \<noteq> 0"
    "l = Node l1 cl e l2 \<Longrightarrow> load e s = Some (enc a cl RB_LEFT (root_addr l1) (root_addr l2)) \<and> e \<noteq> 0 \<and> e \<noteq> a"
    "r = Node r1 cr f r2 \<Longrightarrow> load f s = Some (enc a cr RB_LEFT (root_addr r1) (root_addr r2)) \<and> f \<noteq> 0 \<and> f \<noteq> a"
    "l = Node l1 cl e l2 \<Longrightarrow> r = Node r1 cr f r2 \<Longrightarrow> e \<noteq> f"
    "k = (e', cp, p, z) # k' \<Longrightarrow> load p s = Some (enc (kpar k') cp e' a (root_addr z)) \<and>
      p \<noteq> 0 \<and> p \<noteq> a \<and> a \<noteq> root_addr z \<and> p \<notin> addrs l \<and> p \<notin> addrs r"
    "aligned a"
  using assms(1) root_addr_neq [of a z] unfolding s
  by (auto simp: load_tree load_ctx heap_of_Node_lookup zok_def node_addr_def simp del: heap_of.simps)

lemma replace_st:
  assumes z: "zok k (Node l c a r)" and b: "node_addr b" "b \<noteq> a" "b \<notin> addrs l" "b \<notin> addrs r" "b \<notin> kaddrs k"
    and F: "F b = Some (enc q cb RB_LEFT x y)" and lr: "l \<noteq> Leaf" "r \<noteq> Leaf" "aligned q"
    and s: "s = st enc F k (Node l c a r)"
  shows "do {
      right \<leftarrow> rb_child a RB_RIGHT s;
      s \<leftarrow> rb_set_child b RB_RIGHT right s;
      right \<leftarrow> rb_child a RB_RIGHT s;
      s \<leftarrow> rb_set_parent right b s;
      left \<leftarrow> rb_child a RB_LEFT s;
      s \<leftarrow> rb_set_child b RB_LEFT left s;
      left \<leftarrow> rb_child a RB_LEFT s;
      s \<leftarrow> rb_set_parent left b s;
      n \<leftarrow> load a s;
      m \<leftarrow> load b s;
      s \<leftarrow> store b (m\<lparr>rb_parent_color := rb_parent_color n\<rparr>) s;
      relink (kpar k) a b s } =
    Some (st enc (F(a \<mapsto> enc (kpar k) c RB_LEFT (root_addr l) (root_addr r))) k (Node l c b r))"
proof -
  have lb: "load b s = Some (enc q cb RB_LEFT x y)" "b \<noteq> 0"
    using b F unfolding s
    by (simp_all add: load_def st_def heap_of_notin ctx_heap_notin map_add_def node_addr_def del: heap_of.simps)
  obtain l1 cl e l2 r1 cr f r2 where lr': "l = Node l1 cl e l2" "r = Node r1 cr f r2"
    using lr by (cases l; cases r) auto
  have ne: "a \<noteq> 0" "b \<noteq> 0" "e \<noteq> 0" "f \<noteq> 0" "a \<noteq> b" "a \<noteq> e" "a \<noteq> f" "b \<noteq> e" "b \<noteq> f" "e \<noteq> f"
    "aligned a" "aligned q"
    using z b lr(3) lr' by (auto simp: zok_def node_addr_def)
  have ld: "load a s = Some (enc (kpar k) c RB_LEFT e f)" "load b s = Some (enc q cb RB_LEFT x y)"
    "load e s = Some (enc a cl RB_LEFT (root_addr l1) (root_addr l2))"
    "load f s = Some (enc a cr RB_LEFT (root_addr r1) (root_addr r2))"
    using replace_facts [OF z s] lb lr' by simp_all
  show ?thesis
  proof (cases k rule: kpar.cases)
    case 1
    with ne ld show ?thesis
      unfolding relink_def
      by (simp add: left_accessors) (insert z b, auto simp: heap_eq s lr')
  next
    case (2 d cp p z' k')
    with z b lr' have p: "p \<noteq> a" "p \<noteq> b" "p \<noteq> e" "p \<noteq> f" "p \<noteq> 0" "aligned p"
      by (auto simp: zok_def node_addr_def)
    from replace_facts(6) [OF z s 2]
    have lp: "load p s = Some (enc (kpar k') cp d a (root_addr z'))" "a \<noteq> root_addr z'" by simp_all
    from 2 ne ld p lp show ?thesis
      unfolding relink_def
      by (simp add: left_accessors rb_change_child_load) (insert z b, auto simp: heap_eq s lr')
  qed
qed

lemma replace_adjacent_st:
  assumes z: "zok k (Node l c a (Node Leaf cb b r))" and lr: "l \<noteq> Leaf"
    and s: "s = st enc F k (Node l c a (Node Leaf cb b r))"
  shows "do {
      left \<leftarrow> rb_child a RB_LEFT s;
      s \<leftarrow> rb_set_child b RB_LEFT left s;
      left \<leftarrow> rb_child a RB_LEFT s;
      s \<leftarrow> rb_set_parent left b s;
      n \<leftarrow> load a s;
      m \<leftarrow> load b s;
      s \<leftarrow> store b (m\<lparr>rb_parent_color := rb_parent_color n\<rparr>) s;
      relink (kpar k) a b s } =
    Some (st enc (F(a \<mapsto> enc (kpar k) c RB_LEFT (root_addr l) b)) k (Node l c b r))"
proof -
  obtain l1 cl e l2 where lr': "l = Node l1 cl e l2"
    using lr by (cases l) auto
  note facts = replace_facts(1,2,7) [OF z s] replace_facts(3) [OF z s lr']
    replace_facts(4) [OF z s refl] replace_facts(5) [OF z s lr' refl]
  show ?thesis
  proof (cases k rule: kpar.cases)
    case 1
    then show ?thesis
      using facts lr' unfolding relink_def
      by (simp add: left_accessors) (insert z, auto simp: heap_eq s)
  next
    case (2 d cp p z' k')
    then show ?thesis
      using facts replace_facts(6) [OF z s 2] lr' unfolding relink_def
      by (simp add: left_accessors rb_change_child_load) (insert z, auto simp: heap_eq s)
  qed
qed

text \<open>The end of \<open>rb_remove\<close>: the repair if the removed node was black.\<close>

lemma rem_del_st:
  assumes "zok k t" "cctx k c" "hctx k (bh t + (if c = Black then 1 else 0))"
  shows "(if color_bit c = (RB_BLACK :: 'w::len word)
      then rb_remove_color (kpar k) (root_addr t) (st enc F k t) else Some (st enc F k t)) =
    Some (st enc F [] (rem_del k c t))"
  using assms rb_remove_color_st [of k t F] cctx_Black [of k c] st_zip_up [of enc k t F]
  by (cases c) (simp_all add: rem_del_def)

lemma rb_remove_one_child:
  assumes z: "zok k (mk d c a Leaf y)" and rb: "rb_tree (zip_up k (mk d c a Leaf y))"
    and d: "d = RB_LEFT \<or> y \<noteq> Leaf"
  shows "rb_remove a (st enc F k (mk d c a Leaf y)) =
    Some (st enc (F(a \<mapsto> enc (kpar k) c d 0 (root_addr y))) [] (rem_del k c y))"
proof -
  let ?s = "st enc F k (mk d c a Leaf y)" and ?F = "F(a \<mapsto> enc (kpar k) c d 0 (root_addr y))"
  have y: "tok y" "zok k y" using z by (auto simp: zok_def)
  have "rb_remove a ?s = do {
      s \<leftarrow> (if root_addr y \<noteq> 0 then rb_set_parent (root_addr y) (kpar k) ?s else Some ?s);
      s \<leftarrow> relink (kpar k) a (root_addr y) s;
      if color_bit c = (RB_BLACK :: 'a word) then rb_remove_color (kpar k) (root_addr y) s else Some s }"
    using d y(1) focus_child [OF z, of F] focus_parent [OF z mk_not_Leaf(1), of F]
      focus_color [OF z mk_not_Leaf(1), of F]
    by (cases d) (auto simp: rb_remove_def relink_def)
  also have "\<dots> = (if color_bit c = (RB_BLACK :: 'a word)
      then rb_remove_color (kpar k) (root_addr y) (st enc ?F k y) else Some (st enc ?F k y))"
    using unlink_st [OF z refl, of F] by (simp flip: bind_assoc)
  also have "\<dots> = Some (st enc ?F [] (rem_del k c y))"
    using rb by (intro rem_del_st y) (auto simp: rb_tree_zip_up split: if_splits)
  finally show ?thesis .
qed

text \<open>
  The successor \<open>b\<close> of a node \<open>a\<close> with two children: what \<open>rb_remove\<close> reads before it changes
  anything, and its end after \<open>b\<close> has taken the place of \<open>a\<close>.
\<close>

lemma successor_reads:
  assumes z: "zok k (Node l c a r)" and lr: "l \<noteq> Leaf" "r \<noteq> Leaf"
    and out: "outer RB_LEFT [] r = (k', Node Leaf cs b child)"
    and r: "zip_up k' (Node Leaf cs b child) = r" and s: "s = st enc F k (Node l c a r)"
  shows "rb_parent a s = Some (kpar k)" "rb_color a s = Some (color_bit c)"
    "rb_child a RB_LEFT s = Some (root_addr l)" "rb_child a RB_RIGHT s = Some (root_addr r)"
    "root_addr l \<noteq> 0" "root_addr r \<noteq> 0" "rb_descend RB_LEFT (root_addr r) s = Some b"
    "rb_parent b s = Some (kpar (k' @ (RB_RIGHT, c, a, l) # k))" "rb_color b s = Some (color_bit cs)"
    "rb_child b RB_RIGHT s = Some (root_addr child)"
    "s = st enc F (k' @ (RB_RIGHT, c, a, l) # k) (Node Leaf cs b child)"
    "zok (k' @ (RB_RIGHT, c, a, l) # k) (Node Leaf cs b child)"
proof -
  let ?L = "k' @ (RB_RIGHT, c, a, l) # k" and ?b = "Node Leaf cs b child"
  show zL: "zok ?L ?b" using z r by (simp add: zok_append zok_focus)
  show sL: "s = st enc F ?L ?b"
    unfolding s using zL r by (intro st_move [symmetric]) (simp_all add: zip_up_append)
  have "s = st enc F ((RB_RIGHT, c, a, l) # k) r" "zok ((RB_RIGHT, c, a, l) # k) r"
    unfolding s using z by (simp_all add: st_focus zok_focus)
  then show "rb_descend RB_LEFT (root_addr r) s = Some b"
    using rb_descend_st [OF lr(2), of "(RB_RIGHT, c, a, l) # k" RB_LEFT F]
      outer_append [of RB_LEFT "[]" "(RB_RIGHT, c, a, l) # k" r] out by simp
  show "rb_parent a s = Some (kpar k)" "rb_color a s = Some (color_bit c)"
    "rb_child a RB_LEFT s = Some (root_addr l)" "rb_child a RB_RIGHT s = Some (root_addr r)"
    "root_addr l \<noteq> 0" "root_addr r \<noteq> 0"
    unfolding s using z lr focus_parent [OF z] focus_color [OF z] focus_child [of k RB_LEFT c a l r F]
    by (simp_all add: zok_def)
  show "rb_parent b s = Some (kpar ?L)" "rb_color b s = Some (color_bit cs)"
    "rb_child b RB_RIGHT s = Some (root_addr child)"
    unfolding sL using zL focus_parent [OF zL] focus_color [OF zL]
      focus_child [of ?L RB_LEFT cs b Leaf child F] by simp_all
qed

lemma successor_placed:
  assumes "rb_tree (zip_up k (Node l c a (zip_up k' (Node Leaf cs b child))))"
    and "zok (k' @ (RB_RIGHT, c, b, l) # k) child" "s = st enc F k (Node l c b (zip_up k' child))"
    and "p = kpar (k' @ (RB_RIGHT, c, b, l) # k)"
  shows "(if color_bit cs = (RB_BLACK :: 'w::len word) then rb_remove_color p (root_addr child) s else Some s) =
    Some (st enc F [] (rem_del (k' @ (RB_RIGHT, c, b, l) # k) cs child))"
proof -
  have "s = st enc F (k' @ (RB_RIGHT, c, b, l) # k) child"
    unfolding assms(3) using assms(2) by (intro st_move [symmetric]) (simp_all add: zip_up_append)
  with assms(4) rem_del_st [OF assms(2) rem_two_ctx(1,2) [OF assms(1)], of F] show ?thesis
    by (simp only:)
qed

text \<open>The successor is the right child of the removed node.\<close>

lemma rb_remove_adjacent:
  assumes z: "zok k (Node l c a (Node Leaf cs b child))" and l: "l \<noteq> Leaf"
    and rb: "rb_tree (zip_up k (Node l c a (Node Leaf cs b child)))"
  shows "rb_remove a (st enc F k (Node l c a (Node Leaf cs b child))) =
    Some (st enc (F(a \<mapsto> enc (kpar k) c RB_LEFT (root_addr l) b)) [] (rem_del ((RB_RIGHT, c, b, l) # k) cs child))"
proof -
  let ?s = "st enc F k (Node l c a (Node Leaf cs b child))"
  note reads = successor_reads [where F = F and k' = "[]", OF z l _ _ _ refl, simplified]
  have z': "zok ((RB_RIGHT, c, b, l) # k) child" using z by (auto simp: zok_def)
  have "rb_remove a ?s = do {
      s \<leftarrow> do {
        left \<leftarrow> rb_child a RB_LEFT ?s;
        s \<leftarrow> rb_set_child b RB_LEFT left ?s;
        left \<leftarrow> rb_child a RB_LEFT s;
        s \<leftarrow> rb_set_parent left b s;
        n \<leftarrow> load a s;
        m \<leftarrow> load b s;
        s \<leftarrow> store b (m\<lparr>rb_parent_color := rb_parent_color n\<rparr>) s;
        relink (kpar k) a b s };
      if color_bit cs = (RB_BLACK :: 'a word) then rb_remove_color b (root_addr child) s else Some s }"
    using reads by (simp add: rb_remove_def relink_def)
  also have "\<dots> = Some (st enc (F(a \<mapsto> enc (kpar k) c RB_LEFT (root_addr l) b)) []
      (rem_del ((RB_RIGHT, c, b, l) # k) cs child))"
    unfolding replace_adjacent_st [OF z l refl] bind.bind_lunit
    using successor_placed [of k l c a "[]" cs b child] rb z' by simp
  finally show ?thesis .
qed

text \<open>The successor is further down.\<close>

lemma rb_remove_distant:
  assumes z: "zok k (Node l c a r)" and lr: "l \<noteq> Leaf" "r \<noteq> Leaf"
    and rb: "rb_tree (zip_up k (Node l c a (zip_up k' (Node Leaf cs b child))))"
    and out: "outer RB_LEFT [] r = (k', Node Leaf cs b child)"
    and r: "zip_up k' (Node Leaf cs b child) = r" and k': "k' \<noteq> []"
  shows "rb_remove a (st enc F k (Node l c a r)) =
    Some (st enc (F(a \<mapsto> enc (kpar k) c RB_LEFT (root_addr l) (root_addr r))) []
      (rem_del (k' @ (RB_RIGHT, c, b, l) # k) cs child))"
proof -
  let ?s = "st enc F k (Node l c a r)" and ?K = "k' @ (RB_RIGHT, c, b, l) # k"
  let ?L = "k' @ (RB_RIGHT, c, a, l) # k" and ?r = "zip_up k' child"
  let ?F = "F(a \<mapsto> enc (kpar k) c RB_LEFT (root_addr l) (root_addr r))"
    and ?F1 = "F(b \<mapsto> enc (kpar k') cs RB_LEFT 0 (root_addr child))"
  note reads = successor_reads [where F = F, OF z lr out r refl]
  note facts = distant_facts [OF z [folded r] k']
  have kp: "kpar ?L = kpar k'" "kpar ?K = kpar k'" using k' by (simp_all add: kpar_append)
  have z': "zok ?K child" "zok ?L child" using facts(1,2) by (simp_all add: zok_append zok_focus)
  have "st enc ?F1 ?L child = st enc ?F1 k (Node l c a ?r)"
    using z' by (intro st_move) (simp_all add: zip_up_append)
  then have unlinked: "do {
        s \<leftarrow> rb_change_child (kpar k') b (root_addr child) ?s;
        (if root_addr child \<noteq> 0 then rb_set_parent (root_addr child) (kpar k') s else Some s) } =
      Some (st enc ?F1 k (Node l c a ?r))"
    using unlink_successor_st [of ?L RB_LEFT cs b child ?s F, unfolded kp] reads(11,12) by simp
  have "rb_remove a ?s = do {
      s \<leftarrow> do {
        s \<leftarrow> rb_change_child (kpar k') b (root_addr child) ?s;
        (if root_addr child \<noteq> 0 then rb_set_parent (root_addr child) (kpar k') s else Some s) };
      s \<leftarrow> do {
        right \<leftarrow> rb_child a RB_RIGHT s;
        s \<leftarrow> rb_set_child b RB_RIGHT right s;
        right \<leftarrow> rb_child a RB_RIGHT s;
        s \<leftarrow> rb_set_parent right b s;
        left \<leftarrow> rb_child a RB_LEFT s;
        s \<leftarrow> rb_set_child b RB_LEFT left s;
        left \<leftarrow> rb_child a RB_LEFT s;
        s \<leftarrow> rb_set_parent left b s;
        n \<leftarrow> load a s;
        m \<leftarrow> load b s;
        s \<leftarrow> store b (m\<lparr>rb_parent_color := rb_parent_color n\<rparr>) s;
        relink (kpar k) a b s };
      if color_bit cs = (RB_BLACK :: 'a word) then rb_remove_color (kpar k') (root_addr child) s else Some s }"
    using reads(1-10) facts(9) kp by (simp add: rb_remove_def relink_def)
  also have "\<dots> = Some (st enc ?F [] (rem_del ?K cs child))"
    unfolding unlinked bind.bind_lunit
      replace_st [OF facts(1,3-7) fun_upd_same lr(1) facts(10,8) refl]
    using kp facts(11) r st_shadow [of b k "Node l c b ?r" enc ?F]
    by (intro successor_placed [OF rb] z') (simp_all add: fun_upd_twist [OF facts(4)])
  finally show ?thesis .
qed

text \<open>Removal of any node of a tree.\<close>

lemma rb_remove_st:
  assumes z: "zok k (Node l c a r)" and rb: "rb_tree (zip_up k (Node l c a r))"
  shows "rb_remove a (st enc F k (Node l c a r)) =
    Some (st enc (F(a \<mapsto> enc (kpar k) c RB_LEFT (root_addr l) (root_addr r))) [] (rem k (Node l c a r)))"
proof -
  consider (left) "l = Leaf" | (right) "l \<noteq> Leaf" "r = Leaf" | (two) "l \<noteq> Leaf" "r \<noteq> Leaf"
    by blast
  then show ?thesis
  proof cases
    case left
    with rb_remove_one_child [of k RB_LEFT c a r F] z rb show ?thesis by simp
  next
    case right
    with rb_remove_one_child [of k RB_RIGHT c a l F] z rb enc_flip [of _ _ RB_LEFT] show ?thesis
      by (cases l) simp_all
  next
    case two
    then obtain k' cs b child where
      rem: "rem k (Node l c a r) = rem_del (k' @ (RB_RIGHT, c, b, l) # k) cs child"
      and r: "zip_up k' (Node Leaf cs b child) = r"
      and out: "outer RB_LEFT [] r = (k', Node Leaf cs b child)"
      using rem_two by metis
    show ?thesis
    proof (cases "k' = []")
      case True
      with r rem z rb two rb_remove_adjacent [of k l c a cs b child F] show ?thesis by auto
    next
      case False
      with rb_remove_distant [OF z two _ out r] rb r rem show ?thesis by simp
    qed
  qed
qed

end
