(* ===== verification/RB_Tree_Map.thy ===== *)
theory RB_Tree_Map
  imports RB_Tree_Remove RB_Dict
begin

text \<open>
  The tree with parent pointers as a dictionary: the functions that \<open>RB_GEN\<close> of
  \<open>rbtree/rbtree.h\<close> generates and the iteration of \<open>rbtree/rbtree.c\<close>, on a heap that holds a
  red-black tree whose entries are sorted by their keys.
\<close>

section \<open>Lookup\<close>

lemma rb_find_loop_st:
  assumes "zok k t" and f: "\<forall>a. cmp_dir (key_cmp ky (RB_ENTRY offset a)) = f a"
  shows "rb_find_loop offset key_cmp ky (root_addr t) (st enc F k t) =
    Some (case snd (locate f k t) of Leaf \<Rightarrow> 0 | Node l c a r \<Rightarrow> RB_ENTRY offset a)"
  using assms(1)
proof (induction k t rule: locate_induct [where f = f])
  case (Leaf k)
  show ?case by (subst rb_find_loop.simps) simp
next
  case (Found k l c a r)
  then have "a \<noteq> 0" by (simp add: zok_def node_addr_def)
  with Found f show ?case by (subst rb_find_loop.simps) simp
next
  case (Step k d c a x y)
  have "a \<noteq> 0" "zok ((d, c, a, y) # k) x"
    using Step(3) by (simp_all add: zok_focus) (simp add: zok_def node_addr_def)
  with Step f show ?case
    by (subst rb_find_loop.simps) (simp add: focus_child locate_mk st_focus)
qed

section \<open>Insertion\<close>

lemma rb_insert_loop_st:
  assumes "zok k t" and f: "\<forall>a. cmp_dir (cmp node (RB_ENTRY offset a)) = f a" and "t \<noteq> Leaf"
  shows "rb_insert_loop offset cmp node (root_addr t) (st enc F k t) =
    Some (case locate f k t of (k', Leaf) \<Rightarrow> Inr (kpar k', kdir k') | (k', Node l c a r) \<Rightarrow> Inl (RB_ENTRY offset a))"
  using assms(1,3)
proof (induction k t rule: locate_induct [where f = f])
  case (Found k l c a r)
  with f show ?case by (subst rb_insert_loop.simps) simp
next
  case (Step k d c a x y)
  have "root_addr x \<noteq> 0 \<longleftrightarrow> x \<noteq> Leaf" "zok ((d, c, a, y) # k) x"
    using Step(3) by (simp_all add: zok_focus) (simp add: zok_def)
  with Step f show ?case
    by (subst rb_insert_loop.simps) (cases "x = Leaf"; simp add: focus_child locate_mk st_focus Let_def)
qed simp

text \<open>The new node becomes a red leaf in the hole of the context.\<close>

lemma attach_st:
  assumes z: "kok k" and x: "node_addr x" "x \<notin> kaddrs k" "F x = Some n"
    and s: "s = st enc F k Leaf"
  shows "do {
      s \<leftarrow> (if k \<noteq> [] then rb_set_child (kpar k) (kdir k) x s else Some (s\<lparr>rb_root := x\<rparr>));
      s \<leftarrow> rb_set_parent_color x (kpar k) RB_RED s;
      s \<leftarrow> rb_set_child x RB_LEFT 0 s;
      rb_set_child x RB_RIGHT 0 s } =
    Some (st enc F k (Node Leaf Red x Leaf))"
proof -
  have lx: "load x s = Some n" "x \<noteq> 0"
    using x unfolding s
    by (simp_all add: load_def st_def ctx_heap_notin map_add_def node_addr_def)
  have new: "n\<lparr>rb_parent_color := q OR RB_RED, rb_children := (rb_children n)(RB_LEFT := 0, RB_RIGHT := 0)\<rparr> =
      enc q Red RB_LEFT 0 0" for q
  proof -
    have "(rb_children n)(RB_LEFT := 0, RB_RIGHT := 0) = (\<lambda>e. 0)"
      by (auto simp: fun_eq_iff) (metis rb_dir.exhaust)
    then show ?thesis by (cases n) (simp add: enc_def)
  qed
  have red: "(RB_RED :: 'a word) AND 1 = RB_RED" by (simp add: RB_RED_def)
  show ?thesis
  proof (cases k rule: kpar.cases)
    case 1
    with lx new [of 0] red show ?thesis
      by (simp add: accessors) (insert x, auto simp: heap_eq s)
  next
    case (2 d c a t k')
    then have "load a s = Some (enc (kpar k') c d 0 (root_addr t))" "a \<noteq> 0" "x \<noteq> a"
      using z x unfolding s by (auto simp: load_ctx zok_def node_addr_def)
    with 2 lx new [of a] red show ?thesis
      by (simp add: accessors) (insert x z, auto simp: heap_eq s)
  qed
qed

text \<open>Insertion on a state that holds a red-black tree.\<close>

lemma rb_insert_st:
  assumes "tok t" and "rb_tree t" and f: "\<forall>a. cmp_dir (cmp node (RB_ENTRY offset a)) = f a"
    and x: "x = node + offset" "node_addr x" "snd (locate f [] t) = Leaf \<Longrightarrow> x \<notin> addrs t \<and> F x \<noteq> None"
  shows "rb_insert offset cmp node (st enc F [] t) =
    (case locate f [] t of
       (k, Leaf) \<Rightarrow> Some (node, st enc F [] (ins_fix k (Node Leaf Red x Leaf)))
     | (k, Node l c a r) \<Rightarrow> Some (RB_ENTRY offset a, st enc F [] t))"
proof -
  obtain k t' where loc: "locate f [] t = (k, t')" by fastforce
  have zip: "zip_up k t' = t" using zip_up_locate [of f "[]" t] loc by simp
  have z: "zok k t'" using assms(1) zip by (simp add: zok_zip_up)
  have s: "st enc F [] t = st enc F k t'" using z zip by (intro st_move [symmetric]) simp_all
  have t: "t = Leaf \<longleftrightarrow> k = [] \<and> t' = Leaf"
    using zip loc by (cases k) auto
  have loop: "rb_insert_loop offset cmp node (root_addr t) (st enc F [] t) =
      Some (case locate f [] t of (k', Leaf) \<Rightarrow> Inr (kpar k', kdir k') | (k', Node l c a r) \<Rightarrow> Inl (RB_ENTRY offset a))"
    if "t \<noteq> Leaf"
    using that assms(1) by (intro rb_insert_loop_st f) simp_all
  show ?thesis
  proof (cases t')
    case (Node l c a r)
    with loc t loop assms(1) show ?thesis
      by (auto simp: rb_insert_def rb_root_st)
  next
    case Leaf
    have c: "cctx k Black" using assms(2) zip Leaf rb_tree_zip_up [of k t'] by simp
    obtain n where n: "F x = Some n" "x \<notin> addrs t" using x(3) loc Leaf by auto
    have k: "kok k" "x \<notin> kaddrs k" "zok k (Node Leaf Red x Leaf)"
      using z x(2) n(2) zip addrs_zip_up [of k t'] Leaf by (auto simp: zok_def)
    have r: "kroot 0 k \<noteq> 0" if "t \<noteq> Leaf"
      using that assms(1) zip Leaf by (metis root_addr.simps(1) root_addr_eq_0 root_addr_zip_up)
    have "rb_insert offset cmp node (st enc F [] t) = do {
        s \<leftarrow> do {
          s \<leftarrow> (if k \<noteq> [] then rb_set_child (kpar k) (kdir k) x (st enc F k Leaf)
            else Some ((st enc F k Leaf)\<lparr>rb_root := x\<rparr>));
          s \<leftarrow> rb_set_parent_color x (kpar k) RB_RED s;
          s \<leftarrow> rb_set_child x RB_LEFT 0 s;
          rb_set_child x RB_RIGHT 0 s };
        s \<leftarrow> rb_insert_color x s;
        Some (node, s) }"
      using loc Leaf t loop assms(1) x(1) s root_addr_zip_up [of k Leaf] zip
        r
      by (cases "t = Leaf") (simp_all add: rb_insert_def rb_root_st Let_def)
    also have "\<dots> = Some (node, st enc F [] (ins_fix k (Node Leaf Red x Leaf)))"
      unfolding attach_st [where F = F, OF k(1) x(2) k(2) n(1) refl] bind.bind_lunit
      using rb_insert_color_st [OF k(3) c, of F] by simp
    finally show ?thesis by (simp add: loc Leaf)
  qed
qed

section \<open>Iteration\<close>

lemma rb_ascend_st:
  assumes "zok k t" and "t \<noteq> Leaf"
  shows "rb_ascend d (root_addr t) (st enc F k t) = Some (kpar (climb d k))"
  using assms
proof (induction d k arbitrary: t rule: climb.induct)
  case (1 d)
  then show ?case by (subst rb_ascend.simps) (simp add: focus_parent)
next
  case (2 d e c a s k)
  have a: "a \<noteq> 0" "root_addr s \<noteq> root_addr t"
    using 2(2,3) root_addr_disjoint [of s t] by (auto simp: zok_def node_addr_def)
  have "st enc F ((e, c, a, s) # k) t = st enc F k (mk e c a t s)" "zok k (mk e c a t s)"
    using 2(2) by (simp_all add: st_focus zok_focus)
  with 2(1) [of "mk e c a t s"] have up: "rb_ascend d a (st enc F ((e, c, a, s) # k) t) = Some (kpar (climb d k))"
    if "e = d" using that by simp
  have child: "rb_child a d (st enc F ((e, c, a, s) # k) t) = Some (if e = d then root_addr t else root_addr s)"
    using 2(2) parent_reads(1,2) [of e c a s k t F] by (cases "e = d") (auto simp: neq_iff_flip)
  show ?case
    using 2(2,3) a up child by (subst rb_ascend.simps) (simp add: focus_parent)
qed

lemma rb_iter_next_st:
  assumes "zok k (mk d c a x y)"
  shows "rb_iter_next a d (st enc F k (mk d c a x y)) = Some (hd_or_null (dseq d x @ ahead d k))"
proof (cases "x = Leaf")
  case True
  with assms rb_ascend_st [of k "mk d c a x y" d F] focus_child [OF assms, of F] show ?thesis
    by (simp add: rb_iter_next_def hd_climb zok_def node_addr_def)
next
  case False
  have "st enc F k (mk d c a x y) = st enc F ((d, c, a, y) # k) x" "zok ((d, c, a, y) # k) x"
    using assms by (simp_all add: st_focus zok_focus)
  with False assms rb_descend_st [OF False, of "(d, c, a, y) # k" "flip d" F] focus_child [OF assms, of F]
    hd_outer [OF False, of "flip d" "(d, c, a, y) # k"]
  show ?thesis
    by (simp add: rb_iter_next_def hd_or_null_append zok_def node_addr_def)
qed

lemma rb_iter_st:
  assumes "tok t"
  shows "rb_iter d (st enc F [] t) = Some (hd_or_null (dseq (flip d) t))"
  using assms rb_descend_st [of t "[]" d F] hd_outer [of t d "[]"] hd_or_null_append [of "dseq (flip d) t" "[]"]
  by (cases "t = Leaf") (simp_all add: rb_iter_def rb_root_st)

section \<open>The dictionary\<close>

abbreviation rb_holds :: "'w::len rb \<Rightarrow> 'w word rbt \<Rightarrow> bool" where
  "rb_holds \<equiv> holds enc"

text \<open>The operations that a user calls.\<close>

fun rb_step :: "'w::len word \<Rightarrow> ('w word \<Rightarrow> 'w word \<Rightarrow> int) \<Rightarrow> ('k \<Rightarrow> 'w word \<Rightarrow> int)
    \<Rightarrow> ('w word, 'k) dict_op \<Rightarrow> 'w rb \<Rightarrow> ('w word \<times> 'w rb) option" where
  "rb_step offset cmp key_cmp (RB_INSERT node) s = rb_insert offset cmp node s"
| "rb_step offset cmp key_cmp (RB_REMOVE k) s = rb_remove_key offset key_cmp k s"
| "rb_step offset cmp key_cmp (RB_FIND k) s = do { e \<leftarrow> rb_find offset key_cmp k s; Some (e, s) }"

text \<open>On the trees of a client, the generated functions do what the contract of a tree implementation asks for.\<close>

context rb_client
begin

lemma rb_find_tree:
  assumes "tree_ok key_of offset N t" and "locate (key_search key_cmp offset k) [] t = (kk, t')"
  shows "rb_find offset key_cmp k (st enc F [] t) = Some (case t' of Leaf \<Rightarrow> 0 | Node l c a r \<Rightarrow> RB_ENTRY offset a)"
  using assms rb_find_loop_st [where k = "[]" and t = t and f = "key_search key_cmp offset k" and F = F
      and key_cmp = key_cmp and ky = k and offset = offset]
  by (simp add: rb_find_def rb_root_st tree_ok_def key_search_def fun_eq_iff)

lemma rb_insert_tree:
  assumes t: "tree_ok key_of offset N t" and e: "e \<in> N"
    and loc: "locate (key_search key_cmp offset (key_of e)) [] t = (kk, t')"
    and new: "t' = Leaf \<Longrightarrow> e + offset \<notin> addrs t \<and> F (e + offset) \<noteq> None"
  shows "rb_insert offset cmp e (st enc F [] t) =
    (case t' of
       Leaf \<Rightarrow> Some (e, st enc F [] (ins_fix kk (Node Leaf Red (e + offset) Leaf)))
     | Node l c a r \<Rightarrow> Some (RB_ENTRY offset a, st enc F [] t))"
  using t new entry_node [OF e] node_locate [OF t e] loc
    rb_insert_st [of t cmp e offset "\<lambda>a. cmp_dir (cmp e (RB_ENTRY offset a))" "e + offset" F]
  by (simp add: tree_ok_def)

lemma rb_remove_tree:
  assumes t: "tree_ok key_of offset N t"
    and loc: "locate (key_search key_cmp offset k) [] t = (kk, Node l c a r)"
  shows "\<exists>F'. rb_remove a (st enc F [] t) = Some (st enc F' [] (rem kk (Node l c a r))) \<and> dom F \<subseteq> dom F'"
proof -
  have zip: "zip_up kk (Node l c a r) = t"
    using zip_up_locate [of "key_search key_cmp offset k" "[]" t] loc by simp
  then have z: "zok kk (Node l c a r)" "rb_tree (zip_up kk (Node l c a r))"
    using t by (simp_all add: zok_zip_up tree_ok_def)
  then have "st enc F [] t = st enc F kk (Node l c a r)"
    using zip by (intro st_move [symmetric]) simp_all
  with rb_remove_st [OF z, of F] show ?thesis by auto
qed

end

sublocale rb_client \<subseteq> rb: tree_impl cmp key_cmp key_of K offset N enc "rb_step offset cmp key_cmp"
proof
  fix t kk t' k and F :: "'w word \<Rightarrow> 'w word RB_NODE option"
  assume t: "tree_ok key_of offset N t"
  show "rb_step offset cmp key_cmp (RB_FIND k) (st enc F [] t) =
      Some (case t' of Leaf \<Rightarrow> 0 | Node l c a r \<Rightarrow> RB_ENTRY offset a, st enc F [] t)"
    if "locate (key_search key_cmp offset k) [] t = (kk, t')"
    using rb_find_tree [OF t that] by simp
  show "rb_step offset cmp key_cmp (RB_REMOVE k) (st enc F [] t) = Some (0, st enc F [] t)"
    if "locate (key_search key_cmp offset k) [] t = (kk, Leaf)"
    using rb_find_tree [OF t that] by (simp add: rb_remove_key_def)
  show "rb_step offset cmp key_cmp (RB_INSERT e) (st enc F [] t) = Some (RB_ENTRY offset a, st enc F [] t)"
    if "e \<in> N" "locate (key_search key_cmp offset (key_of e)) [] t = (kk, Node l c a r)" for e l c a r
    using rb_insert_tree [OF t that, of F] by simp
  show "rb_step offset cmp key_cmp (RB_INSERT e) (st enc F [] t) =
      Some (e, st enc F [] (ins_fix kk (Node Leaf Red (e + offset) Leaf)))"
    if "e \<in> N" "F (e + offset) = Some n" "e + offset \<notin> addrs t"
      "locate (key_search key_cmp offset (key_of e)) [] t = (kk, Leaf)" for e n
    using rb_insert_tree [OF t that(1,4), of F] that(2,3) by simp
  show "\<exists>F'. rb_step offset cmp key_cmp (RB_REMOVE k) (st enc F [] t) =
      Some (e, st enc F' [] (rem kk (Node l c (e + offset) r))) \<and> dom F \<subseteq> dom F'"
    if loc: "locate (key_search key_cmp offset k) [] t = (kk, Node l c (e + offset) r)" and "e \<noteq> 0" for l c e r
    using rb_find_tree [OF t loc] rb_remove_tree [OF t loc, of F] that(2) by (auto simp: rb_remove_key_def)
qed

context rb_client
begin

lemmas rb_run_from_empty = rb.run_from_empty
lemmas rb_run_tree = rb.run_tree
lemmas rb_sim_empty = rb.sim_empty
lemmas rb_step_simulates = rb.step_simulates
lemmas rb_insert_present = rb.insert_present_map [simplified]
lemmas rb_insert_new = rb.insert_new_map [simplified]

end

section \<open>Properties\<close>

definition ex_state :: "64 rb" where
  "ex_state = st enc (\<lambda>a. Some \<lparr>rb_parent_color = 7, rb_children = (\<lambda>d. 7)\<rparr>) [] ex_tree"

lemma ex_holds: "rb_holds ex_state ex_tree"
  unfolding ex_state_def using ex_tok by (rule st_holds) (simp add: ex_tree_def rb_tree_def)

text \<open>
  C1. Any sequence of insertions, removals and lookups on an initialised tree returns what a finite
  map from keys to entries returns.
\<close>

theorem rb_run_is_map:
  assumes "rb_client cmp key_cmp key_of K offset N" and "\<forall>e\<in>N. rb_heap s (e + offset) \<noteq> None"
    and "list_all (legal_op K N) ops"
  shows "\<exists>s' t. run_ops (rb_step offset cmp key_cmp) ops (RB_ROOT_INIT s) =
      Some (fst (dict_spec_run key_of ops Map.empty), s') \<and>
    rb_holds s' t \<and> sorted_wrt (<) (map key_of (entries offset t)) \<and>
    tree_map key_of offset t = snd (dict_spec_run key_of ops Map.empty)"
  using assms(2) by (intro rb_client.rb_run_from_empty [OF assms(1) _ _ assms(3)]) (simp_all add: RB_ROOT_INIT_def)

theorem rb_run_is_map_witness:
  "\<exists>s' t. run_ops (rb_step 8 (A_NODE_CMP (\<lambda>e. uint e div 8192)) (A_NODE_KEY_CMP (\<lambda>e. uint e div 8192)))
      [RB_INSERT 0x2000, RB_INSERT 0x6000, RB_INSERT 0x4000, RB_INSERT 0x3000, RB_FIND 3, RB_REMOVE 2, RB_FIND 2]
      (RB_ROOT_INIT \<lparr>rb_root = 1, rb_heap = (\<lambda>a :: 64 word. Some \<lparr>rb_parent_color = 7, rb_children = (\<lambda>d. 7)\<rparr>)\<rparr>) =
    Some ([0x2000, 0x6000, 0x4000, 0x2000, 0x6000, 0x4000, 0], s') \<and>
    rb_holds s' t \<and> tree_map (\<lambda>e. uint e div 8192) 8 t = [1 \<mapsto> 0x2000, 3 \<mapsto> 0x6000]"
proof -
  let ?v = "\<lambda>e :: 64 word. uint e div 8192"
  let ?ops = "[RB_INSERT 0x2000, RB_INSERT 0x6000, RB_INSERT 0x4000, RB_INSERT 0x3000, RB_FIND 3, RB_REMOVE 2, RB_FIND 2]"
  have "list_all (legal_op safe_keys (a_nodes ?v 8)) ?ops"
    by (simp add: a_nodes_def node_addr_def aligned_def safe_keys_def)
  then show ?thesis
    using rb_run_is_map [OF a_client.rb_client_axioms, of ?v 8
        "\<lparr>rb_root = 1, rb_heap = (\<lambda>a :: 64 word. Some \<lparr>rb_parent_color = 7, rb_children = (\<lambda>d. 7)\<rparr>)\<rparr>" ?ops]
    by (auto simp: fun_upd_twist)
qed

lemma rb_remove_at:
  assumes "rb_holds s t" and "inorder t = ws @ a # zs"
  shows "\<exists>s' t'. rb_remove a s = Some s' \<and> rb_holds s' t' \<and> inorder t' = ws @ zs \<and>
    (\<forall>b. b \<notin> set (ws @ zs) \<longrightarrow> rb_heap s' b = rb_heap s b)"
proof -
  obtain k c l r where "t = zip_up k (mk RB_LEFT c a l r)"
    using assms(2) by (rule_tac node_position [of a t RB_LEFT]) auto
  then have t: "t = zip_up k (Node l c a r)" by simp
  note node = holds_node [where d = RB_LEFT, unfolded mk.simps, OF assms(1) sym_enc t]
  from rb_remove_st [OF node(1,2), of "rb_heap s"] node(3) holds_remove [OF assms(1) sym_enc t assms(2) refl]
  show ?thesis by auto
qed

text \<open>
  C5. \<open>rb_remove\<close> on any node of a red-black tree returns; the new tree is again a red-black tree,
  its symmetric order is the old one without the node, and no memory outside the tree changes.
\<close>

theorem rb_remove_deletes_node:
  assumes "rb_holds s t" and "inorder t = xs @ a # ys"
  shows "\<exists>s' t'. rb_remove a s = Some s' \<and> rb_holds s' t' \<and> inorder t' = xs @ ys \<and>
    (\<forall>b. b \<notin> set (xs @ ys) \<longrightarrow> rb_heap s' b = rb_heap s b)"
  using assms by (rule rb_remove_at)

theorem rb_remove_deletes_node_witness:
  "\<exists>s' t'. rb_remove 0x2008 ex_state = Some s' \<and> rb_holds s' t' \<and> inorder t' = [0x1008, 0x3008] \<and>
    rb_heap s' 0x4008 = rb_heap ex_state 0x4008"
proof -
  have "inorder ex_tree = [0x1008] @ 0x2008 # [0x3008]" by (simp add: ex_inorder)
  from rb_remove_deletes_node [OF ex_holds this] show ?thesis by force
qed

lemma rb_next_dir:
  assumes h: "rb_holds s t" and seq: "dseq d t = ws @ a # zs"
  shows "rb_iter_next a d s = Some (hd_or_null zs)"
proof -
  have "a \<in> addrs t" using seq by (metis dseq_def in_set_conv_decomp set_rev)
  then obtain k c x y where tk: "t = zip_up k (mk d c a x y)"
    by (rule node_position [of a t d])
  note node = holds_node [OF h sym_enc tk]
  have "zs = dseq d x @ ahead d k"
    using h seq unfolding tk by (intro dseq_after) (auto simp: holds_def)
  with rb_iter_next_st [OF node(1), of "rb_heap s"] node(3) show ?thesis by simp
qed

text \<open>
  C14. Iteration visits the nodes in symmetric order: \<open>rb_first\<close> and \<open>rb_last\<close> return its ends,
  \<open>rb_next\<close> and \<open>rb_prev\<close> the neighbours of a node, or null.
\<close>

theorem rb_iteration_in_order:
  assumes "rb_holds s t"
  shows "rb_first s = Some (hd_or_null (inorder t)) \<and> rb_last s = Some (hd_or_null (rev (inorder t))) \<and>
    (\<forall>xs a ys. inorder t = xs @ a # ys \<longrightarrow>
      rb_next a s = Some (hd_or_null ys) \<and> rb_prev a s = Some (hd_or_null (rev xs)))"
proof (intro conjI allI impI)
  have t: "tok t" and s: "s = st enc (rb_heap s) [] t"
    using assms holds_st by (auto simp: holds_def)
  from rb_iter_st [OF t, of _ "rb_heap s"] s
  show "rb_first s = Some (hd_or_null (inorder t))" "rb_last s = Some (hd_or_null (rev (inorder t)))"
    by (simp_all add: rb_first_def rb_last_def dseq_def)
  fix xs a ys
  assume ino: "inorder t = xs @ a # ys"
  with rb_next_dir [OF assms, of RB_RIGHT xs a ys] rb_next_dir [OF assms, of RB_LEFT "rev ys" a "rev xs"]
  show "rb_next a s = Some (hd_or_null ys)" "rb_prev a s = Some (hd_or_null (rev xs))"
    by (simp_all add: rb_next_def rb_prev_def dseq_def)
qed

theorem rb_iteration_in_order_witness:
  "rb_first ex_state = Some 0x1008 \<and> rb_next 0x1008 ex_state = Some 0x2008 \<and>
    rb_next 0x3008 ex_state = Some 0 \<and> rb_prev 0x3008 ex_state = Some 0x2008"
proof -
  note it = rb_iteration_in_order [OF ex_holds, unfolded ex_inorder]
  have "[0x1008, 0x2008, 0x3008 :: 64 word] = [] @ 0x1008 # [0x2008, 0x3008]"
    "[0x1008, 0x2008, 0x3008 :: 64 word] = [0x1008, 0x2008] @ 0x3008 # []"
    by simp_all
  with it show ?thesis by (metis hd_or_null_simps rev.simps append_Nil append_Cons)
qed

text \<open>
  C7. \<open>RB_INSERT\<close> on each branch: an entry with an equal key is returned and nothing changes;
  otherwise the new entry takes its place between the smaller and the larger ones.
\<close>

theorem rb_insert_branches:
  assumes "rb_client cmp key_cmp key_of K offset N" and "rb_holds s t" and "tree_ok key_of offset N t"
    and "e \<in> N" and "rb_heap s (e + offset) \<noteq> None"
  shows "(\<forall>e'\<in>set (entries offset t). key_of e' = key_of e \<longrightarrow> rb_insert offset cmp e s = Some (e', s)) \<and>
    (key_of e \<notin> key_of ` set (entries offset t) \<longrightarrow>
      (\<exists>s' t'. rb_insert offset cmp e s = Some (e, s') \<and> rb_holds s' t' \<and>
        entries offset t' = filter (\<lambda>x. key_of x < key_of e) (entries offset t) @ e #
          filter (\<lambda>x. key_of e < key_of x) (entries offset t)))"
proof -
  have s: "s = st enc (rb_heap s) [] t" by (rule holds_st [OF assms(2)])
  note dist = rb_client.tree_map_distinct [OF assms(1,3)]
  show ?thesis
  proof (intro conjI ballI impI)
    fix e' assume "e' \<in> set (entries offset t)" "key_of e' = key_of e"
    then have "tree_map key_of offset t (key_of e) = Some e'"
      using dist by (simp add: tree_map_def find_key_eq_Some_iff)
    from rb_client.rb_insert_present [OF assms(1,3,4) this, of "rb_heap s"] s
    show "rb_insert offset cmp e s = Some (e', s)" by simp
  next
    assume "key_of e \<notin> key_of ` set (entries offset t)"
    then have none: "tree_map key_of offset t (key_of e) = None"
      by (simp add: tree_map_def find_key_eq_None_iff)
    obtain t' where t': "rb_insert offset cmp e (st enc (rb_heap s) [] t) = Some (e, st enc (rb_heap s) [] t')"
      "tree_ok key_of offset N t'" "entries offset t' = filter (\<lambda>x. key_of x < key_of e) (entries offset t) @ e #
          filter (\<lambda>x. key_of e < key_of x) (entries offset t)"
      using rb_client.rb_insert_new [OF assms(1,3,4) none, of "rb_heap s"] assms(5) by blast
    then have "rb_holds (st enc (rb_heap s) [] t') t'" by (intro st_holds) (auto simp: tree_ok_def)
    with s t' show "\<exists>s' t'. rb_insert offset cmp e s = Some (e, s') \<and> rb_holds s' t' \<and>
        entries offset t' = filter (\<lambda>x. key_of x < key_of e) (entries offset t) @ e #
          filter (\<lambda>x. key_of e < key_of x) (entries offset t)"
      by metis
  qed
qed

theorem rb_insert_branches_witness:
  "rb_insert 8 (A_NODE_CMP (\<lambda>e. uint e div 4096)) 0x2100 ex_state = Some (0x2000, ex_state) \<and>
    (\<exists>s' t'. rb_insert 8 (A_NODE_CMP (\<lambda>e. uint e div 4096)) 0x4000 ex_state = Some (0x4000, s') \<and>
      rb_holds s' t' \<and> entries 8 t' = [0x1000, 0x2000, 0x3000, 0x4000])"
proof -
  let ?v = "\<lambda>e :: 64 word. uint e div 4096"
  have ent: "entries 8 ex_tree = [0x1000, 0x2000, 0x3000]"
    by (simp add: entries_def ex_inorder RB_ENTRY_def)
  have ok: "tree_ok ?v 8 (a_nodes ?v 8) ex_tree"
    using ex_holds by (simp add: tree_ok_def holds_def ent a_nodes_def node_addr_def aligned_def safe_keys_def)
  have e: "0x2100 \<in> a_nodes ?v 8" "0x4000 \<in> a_nodes ?v 8"
    by (simp_all add: a_nodes_def node_addr_def aligned_def safe_keys_def)
  have h: "rb_heap ex_state a \<noteq> None" for a
    by (simp add: ex_state_def rb_heap_st_mapped)
  show ?thesis
    using rb_insert_branches [OF a_client.rb_client_axioms ex_holds ok e(1) h]
      rb_insert_branches [OF a_client.rb_client_axioms ex_holds ok e(2) h]
    by (simp add: ent)
qed


text \<open>
  C20. A rotation replaces a subtree by one with the same symmetric order, whatever the parent is,
  and changes no other memory.
\<close>

theorem rb_rotate_keeps_order:
  assumes "tok (zip_up k (mk d c a x (mk d c' b y z)))"
  shows "rb_rotate a d (st enc F [] (zip_up k (mk d c a x (mk d c' b y z)))) =
      Some (st enc F [] (zip_up k (mk d c' b (mk d c a x y) z))) \<and>
    inorder (zip_up k (mk d c' b (mk d c a x y) z)) = inorder (zip_up k (mk d c a x (mk d c' b y z)))"
proof
  have z: "zok k (mk d c a x (mk d c' b y z))" using assms by (simp add: zok_zip_up)
  have eq: "inorder (mk d c' b (mk d c a x y) z) = inorder (mk d c a x (mk d c' b y z))"
    by (rule inorder_rotate [symmetric])
  then have "zok k (mk d c' b (mk d c a x y) z)" using z zok_inorder_cong by blast
  with z rb_rotate_st [OF z, of F] show "rb_rotate a d (st enc F [] (zip_up k (mk d c a x (mk d c' b y z)))) =
      Some (st enc F [] (zip_up k (mk d c' b (mk d c a x y) z)))"
    by (simp add: st_zip_up [OF sym_enc, symmetric])
  from eq show "inorder (zip_up k (mk d c' b (mk d c a x y) z)) = inorder (zip_up k (mk d c a x (mk d c' b y z)))"
    by (rule inorder_zip_up_cong)
qed

theorem rb_rotate_keeps_order_witness:
  "rb_rotate 0x2008 RB_RIGHT (st enc Map.empty [] ex_tree) =
    Some (st enc Map.empty [] (Node Leaf Red 0x1008 (Node Leaf Black 0x2008 (Node Leaf Red 0x3008 Leaf))))"
  using rb_rotate_keeps_order [where k = "[]" and d = RB_RIGHT and c = Black and a = "0x2008 :: 64 word"
      and x = "Node Leaf Red 0x3008 Leaf" and c' = Red and b = "0x1008" and y = Leaf and z = Leaf and F = Map.empty]
    ex_tok by (simp add: ex_tree_def)

text \<open>
  C21. Parent pointer and colour share one word without disturbing each other: after
  \<open>rb_set_parent\<close> and \<open>rb_set_color\<close> in either order, the accessors return what was written and
  the children are unchanged.
\<close>

theorem rb_parent_color_roundtrip:
  assumes "aligned p" and "load node s = Some n"
  shows "\<exists>s'. do { s \<leftarrow> rb_set_parent node p s; rb_set_color node (color_bit c) s } = Some s' \<and>
    do { s \<leftarrow> rb_set_color node (color_bit c) s; rb_set_parent node p s } = Some s' \<and>
    rb_parent node s' = Some p \<and> rb_color node s' = Some (color_bit c) \<and>
    (\<forall>d. rb_child node d s' = rb_child node d s)"
proof -
  obtain c' where c': "rb_parent_color n AND 1 = color_bit c'" by (rule low_bit_color)
  have node: "node \<noteq> 0" using assms(2) by auto
  let ?n = "n\<lparr>rb_parent_color := p OR color_bit c\<rparr>"
  have a: "rb_set_parent node p s = Some (upd node (n\<lparr>rb_parent_color := p OR color_bit c'\<rparr>) s)"
    using assms(2) c' by (simp add: rb_set_parent_def store_case)
  have b: "rb_set_color node (color_bit c) s =
      Some (upd node (n\<lparr>rb_parent_color := (rb_parent_color n AND - 2) OR color_bit c\<rparr>) s)"
    using assms(2) by (simp add: rb_set_color_def store_case)
  have "do { s \<leftarrow> rb_set_parent node p s; rb_set_color node (color_bit c) s } = Some (upd node ?n s)"
    using assms node unfolding a
    by (simp add: rb_set_color_def store_case load_upd untag_minus_2) (simp add: upd_def)
  moreover have "do { s \<leftarrow> rb_set_color node (color_bit c) s; rb_set_parent node p s } = Some (upd node ?n s)"
    using assms node unfolding b
    by (simp add: rb_set_parent_def store_case load_upd untag_word(2) [OF aligned_untagged]) (simp add: upd_def)
  ultimately show ?thesis
    using assms node
    by (simp add: rb_parent_def rb_color_def rb_child_def load_upd untag_minus_2 untag_word)
qed

theorem rb_parent_color_roundtrip_witness:
  "\<exists>s'. do { s \<leftarrow> rb_set_parent 0x1008 0x3008 ex_state; rb_set_color 0x1008 RB_BLACK s } = Some s' \<and>
    rb_parent 0x1008 s' = Some 0x3008 \<and> rb_color 0x1008 s' = Some RB_BLACK"
proof -
  have "rb_heap ex_state 0x1008 \<noteq> None" by (simp add: ex_state_def rb_heap_st_mapped)
  then obtain n where "load 0x1008 ex_state = Some n" by (auto simp: load_def)
  with rb_parent_color_roundtrip [where p = "0x3008" and node = "0x1008" and s = ex_state and n = n and c = Black] show ?thesis
    by (auto simp: aligned_def)
qed

text \<open>The loop of a client that visits the nodes one after the other.\<close>

partial_function (option) rb_walk :: "rb_dir \<Rightarrow> 'w::len word \<Rightarrow> 'w rb \<Rightarrow> 'w word list option" where
  "rb_walk dir iter s =
    (if iter \<noteq> 0 then do { next \<leftarrow> rb_iter_next iter dir s; xs \<leftarrow> rb_walk dir next s; Some (iter # xs) }
     else Some [])"

lemma rb_walk_st:
  assumes "rb_holds s t" and "dseq d t = ws @ zs"
  shows "rb_walk d (hd_or_null zs) s = Some zs"
  using assms(2)
proof (induction zs arbitrary: ws)
  case Nil
  show ?case by (subst rb_walk.simps) simp
next
  case (Cons z zs)
  have "z \<in> addrs t" using Cons.prems by (metis dseq_def in_set_conv_decomp set_rev)
  then have "z \<noteq> 0" using assms(1) by (auto simp: holds_def dest: addrs_node_addr node_addr_nonnull)
  moreover have "rb_iter_next z d s = Some (hd_or_null zs)" by (rule rb_next_dir [OF assms(1) Cons.prems])
  moreover have "rb_walk d (hd_or_null zs) s = Some zs" using Cons.IH [of "ws @ [z]"] Cons.prems by simp
  ultimately show ?case by (subst rb_walk.simps) simp
qed

text \<open>
  C17. The loop that starts with \<open>rb_first\<close> and goes on with \<open>rb_next\<close> until it gets null ends, after it
  has visited every node exactly once in symmetric order; and from \<open>rb_last\<close> on with \<open>rb_prev\<close> in the
  reverse order.
\<close>

theorem rb_walk_visits_all:
  assumes "rb_holds s t"
  shows "do { iter \<leftarrow> rb_first s; rb_walk RB_RIGHT iter s } = Some (inorder t) \<and>
    do { iter \<leftarrow> rb_last s; rb_walk RB_LEFT iter s } = Some (rev (inorder t))"
proof -
  have "rb_iter d s = Some (hd_or_null (dseq (flip d) t))" for d
    using rb_iter_st [of t d "rb_heap s"] holds_st [OF assms] assms by (simp add: holds_def)
  then show ?thesis
    using rb_walk_st [OF assms, of RB_RIGHT "[]"] rb_walk_st [OF assms, of RB_LEFT "[]"]
    by (simp add: rb_first_def rb_last_def dseq_def)
qed

theorem rb_walk_visits_all_witness:
  "do { iter \<leftarrow> rb_first ex_state; rb_walk RB_RIGHT iter ex_state } = Some [0x1008, 0x2008, 0x3008]"
  using rb_walk_visits_all [OF ex_holds] by (simp add: ex_inorder)

section \<open>Reachable states\<close>

text \<open>
  The states of a tree that is initialised and then used through the generated functions, and through
  \<open>rb_remove\<close> on a node that \<open>RB_FIND\<close> returned, in any order.
\<close>

inductive rb_reach :: "'w::len word \<Rightarrow> ('w word \<Rightarrow> 'w word \<Rightarrow> int) \<Rightarrow> ('k \<Rightarrow> 'w word \<Rightarrow> int) \<Rightarrow> 'k set \<Rightarrow> 'w word set
    \<Rightarrow> 'w rb \<Rightarrow> 'w rb \<Rightarrow> bool"
  for offset cmp key_cmp K N s0 where
  initialised: "rb_reach offset cmp key_cmp K N s0 (RB_ROOT_INIT s0)"
| operation: "rb_reach offset cmp key_cmp K N s0 s'" if "rb_reach offset cmp key_cmp K N s0 s" and "legal_op K N x"
    and "rb_step offset cmp key_cmp x s = Some (e, s')"
| unlinked: "rb_reach offset cmp key_cmp K N s0 s'" if "rb_reach offset cmp key_cmp K N s0 s" and "k \<in> K"
    and "rb_find offset key_cmp k s = Some e" and "e \<noteq> 0" and "rb_remove (e + offset) s = Some s'"

inductive_cases rb_reachE: "rb_reach offset cmp key_cmp K N s0 s"

lemma rb_reach_sim:
  assumes "rb_reach offset cmp key_cmp K N s0 s" and "rb_client cmp key_cmp key_of K offset N"
    and "\<forall>e\<in>N. rb_heap s0 (e + offset) \<noteq> None"
  shows "\<exists>m. dict_sim enc key_of offset N s m"
  using assms(1)
proof (induction rule: rb_reach.induct)
  case initialised
  show ?case
    using rb_client.rb_sim_empty [OF assms(2), of "RB_ROOT_INIT s0"] assms(3) by (auto simp: RB_ROOT_INIT_def)
next
  case (operation s x e s')
  then show ?case using rb_client.rb_step_simulates [OF assms(2)] by fastforce
next
  case (unlinked s k e s')
  then have "rb_step offset cmp key_cmp (RB_REMOVE k) s = Some (e, s')" "legal_op K N (RB_REMOVE k :: ('a word, 'b) dict_op)"
    by (simp_all add: rb_remove_key_def)
  with unlinked.IH show ?case using rb_client.rb_step_simulates [OF assms(2)] by fastforce
qed

text \<open>
  C4. In every reachable state the memory holds a red-black tree, sorted by key, of entries of the
  client, that is at most twice as high as the logarithm of the number of its nodes plus one; and
  every operation returns. \<open>RB_EMPTY\<close> tells whether there are entries.
\<close>

theorem rb_reachable_well_formed:
  assumes "rb_client cmp key_cmp key_of K offset N" and "\<forall>e\<in>N. rb_heap s0 (e + offset) \<noteq> None"
    and "rb_reach offset cmp key_cmp K N s0 s"
  shows "\<exists>t. rb_holds s t \<and> sorted_wrt (<) (map key_of (entries offset t)) \<and> set (entries offset t) \<subseteq> N \<and>
    2 ^ rb_height t \<le> (Suc (length (inorder t)))\<^sup>2 \<and> (RB_EMPTY s \<longleftrightarrow> entries offset t = []) \<and>
    (\<forall>x. legal_op K N x \<longrightarrow> rb_step offset cmp key_cmp x s \<noteq> None)"
proof -
  obtain m where m: "dict_sim enc key_of offset N s m"
    using rb_reach_sim [OF assms(3,1,2)] by blast
  then obtain t where "tree_ok key_of offset N t" "rb_holds s t" by (auto simp: dict_sim_def)
  moreover have "\<forall>x. legal_op K N x \<longrightarrow> rb_step offset cmp key_cmp x s \<noteq> None"
    using rb_client.rb_step_simulates [OF assms(1) m] by fastforce
  moreover from calculation(2) have "RB_EMPTY s \<longleftrightarrow> entries offset t = []"
    by (cases t) (auto simp: RB_EMPTY_def holds_def entries_def node_addr_def)
  ultimately show ?thesis using rb_height_bound [of t] by (auto simp: tree_ok_def)
qed

theorem rb_reachable_well_formed_witness:
  "\<exists>e s e' s' t. rb_step 8 (A_NODE_CMP (\<lambda>e. uint e div 4096)) (A_NODE_KEY_CMP (\<lambda>e. uint e div 4096)) (RB_INSERT 0x2000)
      (RB_ROOT_INIT ex_state) = Some (e, s) \<and> rb_holds s t \<and>
    rb_step 8 (A_NODE_CMP (\<lambda>e. uint e div 4096)) (A_NODE_KEY_CMP (\<lambda>e. uint e div 4096)) (RB_REMOVE 2) s = Some (e', s')"
proof -
  let ?v = "\<lambda>e :: 64 word. uint e div 4096" and ?x = "RB_INSERT 0x2000 :: (64 word, int) dict_op"
  have mapped: "\<forall>e\<in>a_nodes ?v 8. rb_heap ex_state (e + 8) \<noteq> None"
    by (simp add: ex_state_def rb_heap_st_mapped)
  note wf = rb_reachable_well_formed [OF a_client.rb_client_axioms mapped]
  have x: "legal_op safe_keys (a_nodes ?v 8) ?x" "legal_op safe_keys (a_nodes ?v 8) (RB_REMOVE 2)"
    by (simp_all add: a_nodes_def node_addr_def aligned_def safe_keys_def)
  have "rb_step 8 (A_NODE_CMP ?v) (A_NODE_KEY_CMP ?v) ?x (RB_ROOT_INIT ex_state) \<noteq> None"
    using wf [OF rb_reach.initialised] x(1) by blast
  then obtain e s where s: "rb_step 8 (A_NODE_CMP ?v) (A_NODE_KEY_CMP ?v) ?x (RB_ROOT_INIT ex_state) = Some (e, s)"
    by (auto simp del: rb_step.simps)
  obtain t where "rb_holds s t" "rb_step 8 (A_NODE_CMP ?v) (A_NODE_KEY_CMP ?v) (RB_REMOVE 2) s \<noteq> None"
    using wf [OF rb_reach.operation [OF rb_reach.initialised x(1) s]] x(2) by blast
  with s show ?thesis by (auto simp del: rb_step.simps)
qed

end
