(* ===== verification/RB_Compact.thy ===== *)
theory RB_Compact
  imports RB_Access RB_Dict
begin

text \<open>
  The red-black tree without parent pointers: \<open>rbtree/rbtree_compact.h\<close> and
  \<open>rbtree/rbtree_compact.c\<close>. The names of the C functions have the suffix \<open>_c\<close> here, since
  \<open>rbtree.h\<close> declares functions with the same names.

  A node is an array of two child pointers; the colour is the lowest bit of the left one. The way
  from the root to a node is kept in a \<open>RB_PATH\<close>: an array of as many entries as a pointer has
  bits, and the pointer \<open>cur\<close> into it, here an index. The first entry is a sentinel with a null
  parent. An access outside the array is undefined behaviour. A local \<open>RB_PATH\<close> is not initialised:
  its initial contents are the parameter \<open>rp0\<close> of the functions that declare one.
\<close>

section \<open>Nodes\<close>

record 'p RB_NODE_c =
  rb_child_color :: "rb_dir \<Rightarrow> 'p"

type_synonym 'w rbc = "('w word, 'w word RB_NODE_c) rb_state"

definition RB_ROOT_INIT_c :: "'w::len rbc \<Rightarrow> 'w rbc" where
  "RB_ROOT_INIT_c s = s\<lparr>rb_root := 0\<rparr>"

definition RB_EMPTY_c :: "'w::len rbc \<Rightarrow> bool" where
  "RB_EMPTY_c s \<longleftrightarrow> rb_root s = 0"

definition rb_child_c :: "'w::len word \<Rightarrow> rb_dir \<Rightarrow> 'w rbc \<Rightarrow> 'w word option" where
  "rb_child_c node dir s = do { n \<leftarrow> load node s; Some (rb_child_color n dir AND NOT 1) }"

definition rb_set_child_c :: "'w::len word \<Rightarrow> rb_dir \<Rightarrow> 'w word \<Rightarrow> 'w rbc \<Rightarrow> 'w rbc option" where
  "rb_set_child_c node dir child s = do {
    n \<leftarrow> load node s;
    store node (n\<lparr>rb_child_color := (rb_child_color n)(dir := child OR (rb_child_color n dir AND 1))\<rparr>) s }"

definition rb_set_left_child_color_c :: "'w::len word \<Rightarrow> 'w word \<Rightarrow> 'w word \<Rightarrow> 'w rbc \<Rightarrow> 'w rbc option" where
  "rb_set_left_child_color_c node child col s = do {
    n \<leftarrow> load node s;
    store node (n\<lparr>rb_child_color := (rb_child_color n)(RB_LEFT := child OR col)\<rparr>) s }"

definition rb_copy_left_child_color_c :: "'w::len word \<Rightarrow> 'w word \<Rightarrow> 'w rbc \<Rightarrow> 'w rbc option" where
  "rb_copy_left_child_color_c dest src s = do {
    m \<leftarrow> load src s;
    n \<leftarrow> load dest s;
    store dest (n\<lparr>rb_child_color := (rb_child_color n)(RB_LEFT := rb_child_color m RB_LEFT)\<rparr>) s }"

definition rb_set_right_child_c :: "'w::len word \<Rightarrow> 'w word \<Rightarrow> 'w rbc \<Rightarrow> 'w rbc option" where
  "rb_set_right_child_c node child s = do {
    n \<leftarrow> load node s;
    store node (n\<lparr>rb_child_color := (rb_child_color n)(RB_RIGHT := child)\<rparr>) s }"

definition rb_copy_right_child_c :: "'w::len word \<Rightarrow> 'w word \<Rightarrow> 'w rbc \<Rightarrow> 'w rbc option" where
  "rb_copy_right_child_c dest src s = do {
    m \<leftarrow> load src s;
    n \<leftarrow> load dest s;
    store dest (n\<lparr>rb_child_color := (rb_child_color n)(RB_RIGHT := rb_child_color m RB_RIGHT)\<rparr>) s }"

definition rb_color_c :: "'w::len word \<Rightarrow> 'w rbc \<Rightarrow> 'w word option" where
  "rb_color_c node s = do { n \<leftarrow> load node s; Some (rb_child_color n RB_LEFT AND 1) }"

definition rb_set_color_c :: "'w::len word \<Rightarrow> 'w word \<Rightarrow> 'w rbc \<Rightarrow> 'w rbc option" where
  "rb_set_color_c node col s = do {
    n \<leftarrow> load node s;
    store node (n\<lparr>rb_child_color :=
      (rb_child_color n)(RB_LEFT := (rb_child_color n RB_LEFT AND NOT 1) OR col)\<rparr>) s }"

section \<open>Paths\<close>

record 'p RB_PATH_ENTRY =
  rpe_parent :: 'p
  rpe_dir :: rb_dir

record 'p RB_PATH =
  rp_path :: "'p RB_PATH_ENTRY list"
  rp_cur :: int

definition RB_PATH_INIT :: "'w::len word RB_PATH \<Rightarrow> 'w word RB_PATH option" where
  "RB_PATH_INIT rp = do {
    e \<leftarrow> c_nth (rp_path rp) 0;
    path \<leftarrow> c_upd (rp_path rp) 0 (e\<lparr>rpe_parent := 0\<rparr>);
    Some (rp\<lparr>rp_path := path, rp_cur := 0\<rparr>) }"

text \<open>The reads \<open>rp->cur[i].parent\<close> and \<open>rp->cur[i].dir\<close>.\<close>

definition rp_parent :: "'w::len word RB_PATH \<Rightarrow> int \<Rightarrow> 'w word option" where
  "rp_parent rp i = do { e \<leftarrow> c_nth (rp_path rp) (rp_cur rp + i); Some (rpe_parent e) }"

definition rp_dir :: "'w::len word RB_PATH \<Rightarrow> int \<Rightarrow> rb_dir option" where
  "rp_dir rp i = do { e \<leftarrow> c_nth (rp_path rp) (rp_cur rp + i); Some (rpe_dir e) }"

text \<open>The statements \<open>++rp->cur; rp->cur->parent = p; rp->cur->dir = dir;\<close>.\<close>

definition rp_push :: "'w::len word \<Rightarrow> rb_dir \<Rightarrow> 'w word RB_PATH \<Rightarrow> 'w word RB_PATH option" where
  "rp_push p dir rp = do {
    path \<leftarrow> c_upd (rp_path rp) (rp_cur rp + 1) \<lparr>rpe_parent = p, rpe_dir = dir\<rparr>;
    Some (rp\<lparr>rp_path := path, rp_cur := rp_cur rp + 1\<rparr>) }"

definition rp_up :: "int \<Rightarrow> 'w::len word RB_PATH \<Rightarrow> 'w word RB_PATH" where
  "rp_up i rp = rp\<lparr>rp_cur := rp_cur rp - i\<rparr>"

section \<open>Rotation and repair\<close>

definition rb_rotate_c :: "'w::len word \<Rightarrow> rb_dir \<Rightarrow> 'w rbc \<Rightarrow> ('w word \<times> 'w rbc) option" where
  "rb_rotate_c node direction s = do {
    pivot \<leftarrow> rb_child_c node (flip direction) s;
    inner \<leftarrow> rb_child_c pivot direction s;
    s \<leftarrow> rb_set_child_c node (flip direction) inner s;
    s \<leftarrow> rb_set_child_c pivot direction node s;
    Some (pivot, s) }"

text \<open>
  The statement that hooks a rotated subtree \<open>t\<close> below the parent in \<open>rp->cur[i]\<close>, or makes it
  the root.
\<close>

definition rb_hook_c :: "'w::len word RB_PATH \<Rightarrow> int \<Rightarrow> 'w word \<Rightarrow> 'w rbc \<Rightarrow> 'w rbc option" where
  "rb_hook_c rp i t s = do {
    parent \<leftarrow> rp_parent rp i;
    if parent \<noteq> 0 then do { dir \<leftarrow> rp_dir rp i; rb_set_child_c parent dir t s }
    else Some (s\<lparr>rb_root := t\<rparr>) }"

partial_function (option) rb_insert_color_loop_c :: "'w::len word RB_PATH \<Rightarrow> 'w rbc \<Rightarrow> 'w rbc option" where
  "rb_insert_color_loop_c rp s = do {
    parent \<leftarrow> rp_parent rp 0;
    red \<leftarrow> nonnull_red rb_color_c parent s;
    if \<not> red then Some s
    else do {
      gparent \<leftarrow> rp_parent rp (-1);
      dir \<leftarrow> rp_dir rp (-1);
      uncle \<leftarrow> rb_child_c gparent (flip dir) s;
      red \<leftarrow> nonnull_red rb_color_c uncle s;
      if red then do {
        s \<leftarrow> rb_set_color_c parent RB_BLACK s;
        s \<leftarrow> rb_set_color_c uncle RB_BLACK s;
        s \<leftarrow> rb_set_color_c gparent RB_RED s;
        rb_insert_color_loop_c (rp_up 2 rp) s }
      else do {
        cur_dir \<leftarrow> rp_dir rp 0;
        (parent, s) \<leftarrow> (if cur_dir \<noteq> dir then do {
            (parent, s) \<leftarrow> rb_rotate_c parent dir s;
            s \<leftarrow> rb_set_child_c gparent dir parent s;
            Some (parent, s) }
          else Some (parent, s));
        s \<leftarrow> rb_set_color_c parent RB_BLACK s;
        s \<leftarrow> rb_set_color_c gparent RB_RED s;
        (t, s) \<leftarrow> rb_rotate_c gparent (flip dir) s;
        rb_hook_c rp (-2) t s } } }"

definition rb_insert_color_c :: "'w::len word RB_PATH \<Rightarrow> 'w rbc \<Rightarrow> 'w rbc option" where
  "rb_insert_color_c rp s = do {
    s \<leftarrow> rb_insert_color_loop_c rp s;
    rb_set_color_c (rb_root s) RB_BLACK s }"

text \<open>The end of the loop body of \<open>rb_remove_color\<close>, its case 4.\<close>

definition rb_remove_color_end_c :: "'w::len word \<Rightarrow> 'w word \<Rightarrow> 'w word \<Rightarrow> rb_dir \<Rightarrow> 'w word RB_PATH \<Rightarrow> 'w rbc
    \<Rightarrow> ('w word \<times> 'w rbc) option" where
  "rb_remove_color_end_c parent sibling nibling dir rp s = do {
    c \<leftarrow> rb_color_c parent s;
    s \<leftarrow> rb_set_color_c sibling c s;
    s \<leftarrow> rb_set_color_c parent RB_BLACK s;
    s \<leftarrow> rb_set_color_c nibling RB_BLACK s;
    (t, s) \<leftarrow> rb_rotate_c parent dir s;
    s \<leftarrow> rb_hook_c rp (-1) t s;
    Some (rb_root s, s) }"

text \<open>
  The loop body after case 1: case 2 goes on with the next iteration (\<open>Inl\<close>), the other cases
  leave the loop (\<open>Inr\<close>).
\<close>

definition rb_remove_color_tail_c :: "'w::len word \<Rightarrow> 'w word \<Rightarrow> rb_dir \<Rightarrow> 'w word RB_PATH \<Rightarrow> 'w rbc
    \<Rightarrow> ('w word \<times> 'w word RB_PATH \<times> 'w rbc + 'w word \<times> 'w rbc) option" where
  "rb_remove_color_tail_c parent sibling dir rp s = do {
    nibling \<leftarrow> rb_child_c sibling (flip dir) s;
    black \<leftarrow> null_or_black rb_color_c nibling s;
    if black then do {
      nibling2 \<leftarrow> rb_child_c sibling dir s;
      black2 \<leftarrow> null_or_black rb_color_c nibling2 s;
      if black2 then do {
        s \<leftarrow> rb_set_color_c sibling RB_RED s;
        Some (Inl (parent, rp_up 1 rp, s)) }
      else do {
        s \<leftarrow> rb_set_color_c nibling2 RB_BLACK s;
        s \<leftarrow> rb_set_color_c sibling RB_RED s;
        let nibling = sibling;
        (t, s) \<leftarrow> rb_rotate_c sibling (flip dir) s;
        s \<leftarrow> rb_set_child_c parent (flip dir) t s;
        r \<leftarrow> rb_remove_color_end_c parent t nibling dir rp s;
        Some (Inr r) } }
    else do {
      r \<leftarrow> rb_remove_color_end_c parent sibling nibling dir rp s;
      Some (Inr r) } }"

text \<open>
  The path after a rotation at the parent in case 1:
  \<open>rp->cur[1] = rp->cur[0]; rp->cur->parent = t; rp->cur->dir = dir; ++rp->cur;\<close>.
\<close>

definition rp_insert_above :: "'w::len word \<Rightarrow> rb_dir \<Rightarrow> 'w word RB_PATH \<Rightarrow> 'w word RB_PATH option" where
  "rp_insert_above t dir rp = do {
    e \<leftarrow> c_nth (rp_path rp) (rp_cur rp);
    path \<leftarrow> c_upd (rp_path rp) (rp_cur rp + 1) e;
    path \<leftarrow> c_upd path (rp_cur rp) \<lparr>rpe_parent = t, rpe_dir = dir\<rparr>;
    Some (rp\<lparr>rp_path := path, rp_cur := rp_cur rp + 1\<rparr>) }"

partial_function (option) rb_remove_color_loop_c ::
    "'w::len word \<Rightarrow> 'w word RB_PATH \<Rightarrow> 'w rbc \<Rightarrow> ('w word \<times> 'w rbc) option" where
  "rb_remove_color_loop_c node rp s = do {
    black \<leftarrow> null_or_black rb_color_c node s;
    if \<not> (black \<and> node \<noteq> rb_root s) then Some (node, s)
    else do {
      parent \<leftarrow> rp_parent rp 0;
      dir \<leftarrow> rp_dir rp 0;
      sibling \<leftarrow> rb_child_c parent (flip dir) s;
      c \<leftarrow> rb_color_c sibling s;
      (sibling, rp, s) \<leftarrow> (if c = RB_RED then do {
          s \<leftarrow> rb_set_color_c sibling RB_BLACK s;
          s \<leftarrow> rb_set_color_c parent RB_RED s;
          (t, s) \<leftarrow> rb_rotate_c parent dir s;
          s \<leftarrow> rb_hook_c rp (-1) t s;
          rp \<leftarrow> rp_insert_above t dir rp;
          sibling \<leftarrow> rb_child_c parent (flip dir) s;
          Some (sibling, rp, s) }
        else Some (sibling, rp, s));
      r \<leftarrow> rb_remove_color_tail_c parent sibling dir rp s;
      case r of
        Inl (node, rp, s) \<Rightarrow> rb_remove_color_loop_c node rp s
      | Inr (node, s) \<Rightarrow> Some (node, s) } }"

definition rb_remove_color_c :: "'w::len word \<Rightarrow> 'w word RB_PATH \<Rightarrow> 'w rbc \<Rightarrow> 'w rbc option" where
  "rb_remove_color_c node rp s = do {
    (node, s) \<leftarrow> rb_remove_color_loop_c node rp s;
    if node \<noteq> 0 then rb_set_color_c node RB_BLACK s else Some s }"

section \<open>Iteration\<close>

text \<open>The loop that goes down in one direction and records the way: \<open>rb_iter\<close>, \<open>rb_iter_next\<close>, \<open>rb_remove\<close>.\<close>

partial_function (option) rb_descend_c :: "rb_dir \<Rightarrow> 'w::len word \<Rightarrow> 'w word RB_PATH \<Rightarrow> 'w rbc
    \<Rightarrow> ('w word \<times> 'w word RB_PATH) option" where
  "rb_descend_c dir p rp s = do {
    q \<leftarrow> rb_child_c p dir s;
    if q \<noteq> 0 then do { rp \<leftarrow> rp_push p dir rp; rb_descend_c dir q rp s }
    else Some (p, rp) }"

definition rb_iter_c :: "rb_dir \<Rightarrow> 'w::len word RB_PATH \<Rightarrow> 'w rbc \<Rightarrow> ('w word \<times> 'w word RB_PATH) option" where
  "rb_iter_c dir rp s = do {
    rp \<leftarrow> RB_PATH_INIT rp;
    let p = rb_root s;
    if p \<noteq> 0 then rb_descend_c dir p rp s else Some (p, rp) }"

definition rb_first_c :: "'w::len word RB_PATH \<Rightarrow> 'w rbc \<Rightarrow> ('w word \<times> 'w word RB_PATH) option" where
  "rb_first_c rp s = rb_iter_c RB_LEFT rp s"

definition rb_last_c :: "'w::len word RB_PATH \<Rightarrow> 'w rbc \<Rightarrow> ('w word \<times> 'w word RB_PATH) option" where
  "rb_last_c rp s = rb_iter_c RB_RIGHT rp s"

partial_function (option) rb_ascend_c :: "rb_dir \<Rightarrow> 'w::len word RB_PATH \<Rightarrow> ('w word \<times> 'w word RB_PATH) option"
  where
  "rb_ascend_c dir rp = do {
    parent \<leftarrow> rp_parent rp 0;
    if parent \<noteq> 0 then do {
      cur_dir \<leftarrow> rp_dir rp 0;
      if cur_dir = flip dir then Some (parent, rp_up 1 rp) else rb_ascend_c dir (rp_up 1 rp) }
    else Some (0, rp) }"

definition rb_iter_next_c :: "'w::len word \<Rightarrow> rb_dir \<Rightarrow> 'w word RB_PATH \<Rightarrow> 'w rbc
    \<Rightarrow> ('w word \<times> 'w word RB_PATH) option" where
  "rb_iter_next_c node dir rp s =
    (if node \<noteq> 0 then do {
       p \<leftarrow> rb_child_c node dir s;
       if p \<noteq> 0 then do { rp \<leftarrow> rp_push node dir rp; rb_descend_c (flip dir) p rp s }
       else rb_ascend_c dir rp }
     else Some (0, rp))"

definition rb_next_c :: "'w::len word \<Rightarrow> 'w word RB_PATH \<Rightarrow> 'w rbc \<Rightarrow> ('w word \<times> 'w word RB_PATH) option" where
  "rb_next_c node rp s = rb_iter_next_c node RB_RIGHT rp s"

definition rb_prev_c :: "'w::len word \<Rightarrow> 'w word RB_PATH \<Rightarrow> 'w rbc \<Rightarrow> ('w word \<times> 'w word RB_PATH) option" where
  "rb_prev_c node rp s = rb_iter_next_c node RB_LEFT rp s"

section \<open>Removal\<close>

text \<open>The assignment \<open>node_rpe->parent = successor\<close> through a pointer into the path.\<close>

definition rp_set_parent :: "int \<Rightarrow> 'w::len word \<Rightarrow> 'w word RB_PATH \<Rightarrow> 'w word RB_PATH option" where
  "rp_set_parent i p rp = do {
    e \<leftarrow> c_nth (rp_path rp) i;
    path \<leftarrow> c_upd (rp_path rp) i (e\<lparr>rpe_parent := p\<rparr>);
    Some (rp\<lparr>rp_path := path\<rparr>) }"

definition rb_remove_c :: "'w::len word \<Rightarrow> 'w word RB_PATH \<Rightarrow> 'w rbc \<Rightarrow> 'w rbc option" where
  "rb_remove_c node rp s = do {
    node_parent \<leftarrow> rp_parent rp 0;
    node_dir \<leftarrow> rp_dir rp 0;
    deleted_color \<leftarrow> rb_color_c node s;
    left \<leftarrow> rb_child_c node RB_LEFT s;
    right \<leftarrow> rb_child_c node RB_RIGHT s;
    (replacement, transplanter, deleted_color, rp, s) \<leftarrow>
      (if left = 0 then Some (right, right, deleted_color, rp, s)
       else if right = 0 then Some (left, left, deleted_color, rp, s)
       else do {
         rp \<leftarrow> rp_push node RB_RIGHT rp;
         let node_rpe = rp_cur rp;
         (successor, rp) \<leftarrow> rb_descend_c RB_LEFT right rp s;
         deleted_color \<leftarrow> rb_color_c successor s;
         child \<leftarrow> rb_child_c successor RB_RIGHT s;
         parent \<leftarrow> rp_parent rp 0;
         s \<leftarrow> (if parent \<noteq> node then do {
             dir \<leftarrow> rp_dir rp 0;
             s \<leftarrow> rb_set_child_c parent dir child s;
             rb_copy_right_child_c successor node s }
           else Some s);
         s \<leftarrow> rb_copy_left_child_color_c successor node s;
         rp \<leftarrow> rp_set_parent node_rpe successor rp;
         Some (child, successor, deleted_color, rp, s) });
    s \<leftarrow> (if node_parent \<noteq> 0 then rb_set_child_c node_parent node_dir transplanter s
      else Some (s\<lparr>rb_root := transplanter\<rparr>));
    if deleted_color = RB_BLACK then rb_remove_color_c replacement rp s else Some s }"

section \<open>The generated functions\<close>

partial_function (option) rb_insert_loop_c ::
    "'w::len word \<Rightarrow> ('w word \<Rightarrow> 'w word \<Rightarrow> int) \<Rightarrow> 'w word \<Rightarrow> 'w word \<Rightarrow> 'w word RB_PATH \<Rightarrow> 'w rbc
      \<Rightarrow> ('w word + rb_dir \<times> 'w word RB_PATH) option" where
  "rb_insert_loop_c offset cmp node p rp s =
    (let ent = RB_ENTRY offset p; c = cmp node ent in
     case cmp_dir c of
       None \<Rightarrow> Some (Inl ent)
     | Some dir \<Rightarrow> do {
         rp \<leftarrow> rp_push p dir rp;
         p \<leftarrow> rb_child_c p dir s;
         if p \<noteq> 0 then rb_insert_loop_c offset cmp node p rp s else Some (Inr (dir, rp)) })"

definition rb_insert_c :: "'w::len word \<Rightarrow> ('w word \<Rightarrow> 'w word \<Rightarrow> int) \<Rightarrow> 'w word RB_PATH \<Rightarrow> 'w word \<Rightarrow> 'w rbc
    \<Rightarrow> ('w word \<times> 'w rbc) option" where
  "rb_insert_c offset cmp rp0 node s =
    (let field = node + offset in do {
      rp \<leftarrow> RB_PATH_INIT rp0;
      let p = rb_root s;
      place \<leftarrow> (if p \<noteq> 0 then rb_insert_loop_c offset cmp node p rp s else Some (Inr (RB_LEFT, rp)));
      case place of
        Inl ent \<Rightarrow> Some (ent, s)
      | Inr (dir, rp) \<Rightarrow> do {
          s \<leftarrow> (if p \<noteq> 0 then do { parent \<leftarrow> rp_parent rp 0; rb_set_child_c parent dir field s }
            else Some (s\<lparr>rb_root := field\<rparr>));
          s \<leftarrow> rb_set_left_child_color_c field 0 RB_RED s;
          s \<leftarrow> rb_set_right_child_c field 0 s;
          s \<leftarrow> rb_insert_color_c rp s;
          Some (node, s) } })"

partial_function (option) rb_find_loop_c ::
    "'w::len word \<Rightarrow> ('k \<Rightarrow> 'w word \<Rightarrow> int) \<Rightarrow> 'k \<Rightarrow> 'w word \<Rightarrow> 'w word RB_PATH \<Rightarrow> 'w rbc
      \<Rightarrow> ('w word \<times> 'w word RB_PATH) option" where
  "rb_find_loop_c offset key_cmp k p rp s =
    (if p \<noteq> 0 then
       let ent = RB_ENTRY offset p; c = key_cmp k ent in
       case cmp_dir c of
         None \<Rightarrow> Some (ent, rp)
       | Some dir \<Rightarrow> do {
           rp \<leftarrow> rp_push p dir rp;
           p \<leftarrow> rb_child_c p dir s;
           rb_find_loop_c offset key_cmp k p rp s }
     else Some (0, rp))"

definition rb_find_c :: "'w::len word \<Rightarrow> ('k \<Rightarrow> 'w word \<Rightarrow> int) \<Rightarrow> 'k \<Rightarrow> 'w word RB_PATH \<Rightarrow> 'w rbc
    \<Rightarrow> ('w word \<times> 'w word RB_PATH) option" where
  "rb_find_c offset key_cmp k rp s = do {
    rp \<leftarrow> RB_PATH_INIT rp;
    rb_find_loop_c offset key_cmp k (rb_root s) rp s }"

definition rb_remove_key_c :: "'w::len word \<Rightarrow> ('k \<Rightarrow> 'w word \<Rightarrow> int) \<Rightarrow> 'w word RB_PATH \<Rightarrow> 'k \<Rightarrow> 'w rbc
    \<Rightarrow> ('w word \<times> 'w rbc) option" where
  "rb_remove_key_c offset key_cmp rp0 k s = do {
    (node, rp) \<leftarrow> rb_find_c offset key_cmp k rp0 s;
    s \<leftarrow> (if node \<noteq> 0 then rb_remove_c (node + offset) rp s else Some s);
    Some (node, s) }"

section \<open>The layout of a node\<close>

definition enc_c :: "('w::len, 'w word RB_NODE_c) layout" where
  "enc_c par c d x y = \<lparr>rb_child_color =
    (\<lambda>e. (if e = d then x else y) OR (if e = RB_LEFT then color_bit c else 0))\<rparr>"

lemma rb_dir_fun_eq: "f = g \<longleftrightarrow> f RB_LEFT = g RB_LEFT \<and> f RB_RIGHT = g RB_RIGHT" for f g :: "rb_dir \<Rightarrow> 'a"
  by (metis ext rb_dir.exhaust)

lemma enc_c_flip: "enc_c par c (flip d) x y = enc_c par c d y x"
  by (cases d) (simp_all add: enc_c_def rb_dir_fun_eq)

lemma enc_c_read:
  "rb_child_color (enc_c par c d x y) RB_LEFT = left_of d x y OR color_bit c"
  "rb_child_color (enc_c par c d x y) RB_RIGHT = left_of d y x"
  by (cases d; simp add: enc_c_def left_of_def)+

lemma sym_enc_c [simp]: "sym_layout enc_c"
  by (simp add: enc_c_flip [of _ _ RB_LEFT, simplified])

lemma enc_c_parent: "enc_c par c d x y = enc_c 0 c d x y"
  by (simp add: enc_c_def)

lemma heap_of_parent: "heap_of enc_c par t = heap_of enc_c 0 t"
  by (cases t) (simp_all add: enc_c_parent [of par])

lemma aligned_root_addr: "tok t \<Longrightarrow> aligned (root_addr t)"
  by (cases t) (simp_all add: node_addr_def)

lemma aligned_AND_1: "aligned x \<Longrightarrow> x AND 1 = 0"
  by (simp add: aligned_def)

lemma aligned_AND_minus_2: "aligned x \<Longrightarrow> x AND - 2 = x"
  using untag_minus_2 [of x Red] by (simp add: RB_RED_def)

text \<open>The accessor functions on a node that is encoded in memory.\<close>

lemma node_ops_c:
  assumes "load a s = Some (enc_c par c d x y)" and "aligned x" and "aligned y"
  shows "rb_child_c a e s = Some (if e = d then x else y)"
    and "rb_color_c a s = Some (color_bit c)"
    and "rb_set_color_c a (color_bit c') s = Some (upd a (enc_c par c' d x y) s)"
    and "rb_set_child_c a e v s = Some (upd a (if e = d then enc_c par c d v y else enc_c par c d x v) s)"
proof -
  let ?n = "enc_c par c d x y"
  note un = untag_minus_2 [OF assms(2)] untag_minus_2 [OF assms(3)] untag_word(2) [OF assms(2)] untag_word(2) [OF assms(3)]
    aligned_AND_1 [OF assms(2)] aligned_AND_1 [OF assms(3)] aligned_AND_minus_2 [OF assms(2)] aligned_AND_minus_2 [OF assms(3)]
  note defs = enc_c_def rb_dir_fun_eq un
  have "rb_child_color ?n e AND - 2 = (if e = d then x else y)" "rb_child_color ?n RB_LEFT AND 1 = color_bit c"
    by (cases e; cases d; simp add: defs)+
  then show "rb_child_c a e s = Some (if e = d then x else y)" "rb_color_c a s = Some (color_bit c)"
    by (simp_all add: rb_child_c_def rb_color_c_def assms(1))
  have "?n\<lparr>rb_child_color := (rb_child_color ?n)(RB_LEFT := rb_child_color ?n RB_LEFT AND - 2 OR color_bit c')\<rparr> =
      enc_c par c' d x y"
    "?n\<lparr>rb_child_color := (rb_child_color ?n)(e := v OR rb_child_color ?n e AND 1)\<rparr> =
      (if e = d then enc_c par c d v y else enc_c par c d x v)"
    by (cases e; cases d; simp add: defs)+
  then show "rb_set_color_c a (color_bit c') s = Some (upd a (enc_c par c' d x y) s)"
    "rb_set_child_c a e v s = Some (upd a (if e = d then enc_c par c d v y else enc_c par c d x v) s)"
    by (simp_all add: rb_set_color_c_def rb_set_child_c_def store_case assms(1))
qed

lemma focus_load_c:
  assumes "zok k (mk d c a x y)"
  shows "load a (st enc_c F k (mk d c a x y)) = Some (enc_c (kpar k) c d (root_addr x) (root_addr y))"
    and "aligned (root_addr x)" and "aligned (root_addr y)"
  using assms by (auto simp: load_tree heap_of_mk_lookup zok_def aligned_root_addr)

interpretation compact_mem: node_access enc_c rb_child_c rb_color_c rb_set_color_c
proof
  fix k d c a x y c' and F :: "'a::len word \<Rightarrow> 'a word RB_NODE_c option"
  assume z: "zok k (mk d c (a :: 'a word) x y)"
  note ops = node_ops_c [OF focus_load_c(1) [OF z, of F] focus_load_c(2,3) [OF z]]
  show "rb_child_c a d (st enc_c F k (mk d c a x y)) = Some (root_addr x)"
    "rb_color_c a (st enc_c F k (mk d c a x y)) = Some (color_bit c)"
    "rb_set_color_c a (color_bit c') (st enc_c F k (mk d c a x y)) = Some (st enc_c F k (mk d c' a x y))"
    using z by (simp_all add: ops st_cong_root)
qed (rule sym_enc_c)


section \<open>Rotation\<close>

text \<open>The parents in the memory of a tree do not matter.\<close>

lemma enc_c_norm: "NO_MATCH 0 par \<Longrightarrow> enc_c par c d x y = enc_c 0 c d x y"
  by (rule enc_c_parent)

lemma heap_of_norm: "NO_MATCH 0 par \<Longrightarrow> heap_of enc_c par t = heap_of enc_c 0 t"
  by (rule heap_of_parent)

lemmas heap_eq_c = heap_eq enc_c_norm heap_of_norm

text \<open>A subtree with the root \<open>t\<close> is hung into the hole of the context.\<close>

definition hang :: "'w::len word frame list \<Rightarrow> 'w word \<Rightarrow> 'w rbc \<Rightarrow> 'w rbc option" where
  "hang k t s = (if k = [] then Some (s\<lparr>rb_root := t\<rparr>) else rb_set_child_c (kpar k) (kdir k) t s)"

text \<open>The parent of the subtree in focus.\<close>

lemma parent_load_c:
  assumes "zok k t" and "k = (e, cp, p, w) # k'"
  shows "load p (st enc_c F k t) = Some (enc_c (kpar k') cp e (root_addr t) (root_addr w))" and "p \<noteq> 0"
    and "p \<notin> addrs t" and "aligned (root_addr t)" and "aligned (root_addr w)"
  using assms by (auto simp: load_ctx zok_def node_addr_def aligned_root_addr)

lemma hang_Cons:
  assumes "k = (e, cp, p, w) # k'" and "load p s = Some (enc_c q cp e x y)" and "aligned x" and "aligned y"
  shows "hang k v s = Some (upd p (enc_c q cp e v y) s)"
  using assms by (simp add: hang_def node_ops_c)

lemma rb_rotate_c_st:
  assumes "zok k (mk d c a x (mk d c' b y z))"
  obtains s1 where "rb_rotate_c a d (st enc_c F k (mk d c a x (mk d c' b y z))) = Some (b, s1)"
    and "hang k b s1 = Some (st enc_c F k (mk d c' b (mk d c a x y) z))"
proof -
  let ?s = "st enc_c F k (mk d c a x (mk d c' b y z))"
  let ?s1 = "upd b (enc_c a c' d a (root_addr z)) (upd a (enc_c (kpar k) c d (root_addr x) (root_addr y)) ?s)"
  have la: "load a ?s = Some (enc_c (kpar k) c d (root_addr x) b)"
    and lb: "load b ?s = Some (enc_c a c' d (root_addr y) (root_addr z))"
    using assms by (auto simp: load_tree heap_of_mk_lookup zok_def)
  have ne: "a \<noteq> 0" "b \<noteq> 0" "a \<noteq> b" "aligned a" "aligned b" "aligned (root_addr x)" "aligned (root_addr y)"
    "aligned (root_addr z)"
    using assms by (auto simp: zok_def node_addr_def aligned_root_addr)
  have "rb_rotate_c a d ?s = Some (b, ?s1)"
    unfolding rb_rotate_c_def
    using la lb ne by (simp add: node_ops_c load_upd)
  moreover have "hang k b ?s1 = Some (st enc_c F k (mk d c' b (mk d c a x y) z))"
  proof (cases k rule: kpar.cases)
    case 1
    then show ?thesis using assms by (auto simp: hang_def heap_eq_c)
  next
    case (2 e cp p s k')
    note p = parent_load_c(2-) [OF assms 2]
    have "load p ?s1 = Some (enc_c (kpar k') cp e a (root_addr s))"
      using parent_load_c(1) [OF assms 2, of F] p ne by (auto simp: load_upd)
    from hang_Cons [OF 2 this ne(4) p(4)] show ?thesis
      by (rule trans) (insert assms 2, auto simp: heap_eq_c)
  qed
  ultimately show thesis by (rule that)
qed


section \<open>Paths\<close>

text \<open>
  A \<open>RB_PATH\<close> at the node with the context \<open>k\<close> has the entries \<open>steps k\<close> in reverse order above the
  sentinel, whose direction \<open>sd\<close> is arbitrary; the entries \<open>J\<close> beyond \<open>cur\<close> are unused.
\<close>

fun steps :: "'p frame list \<Rightarrow> (rb_dir \<times> 'p) list" where
  "steps [] = []"
| "steps ((d, c, a, s) # k) = (d, a) # steps k"

definition rp_entry :: "rb_dir \<times> 'p \<Rightarrow> 'p RB_PATH_ENTRY" where
  "rp_entry x = \<lparr>rpe_parent = snd x, rpe_dir = fst x\<rparr>"

definition rp_at :: "rb_dir \<Rightarrow> (rb_dir \<times> 'w::len word) list \<Rightarrow> 'w word RB_PATH_ENTRY list \<Rightarrow> 'w word RB_PATH" where
  "rp_at sd ps J = \<lparr>rp_path = map rp_entry (rev (ps @ [(sd, 0)])) @ J, rp_cur = int (length ps)\<rparr>"

lemma length_steps [simp]: "length (steps k) = length k"
  by (induction k rule: steps.induct) simp_all

lemma steps_append [simp]: "steps (k @ k') = steps k @ steps k'"
  by (induction k rule: steps.induct) simp_all

lemma rp_nth:
  assumes "i \<le> length ps"
  shows "c_nth (rp_path (rp_at sd ps J)) (rp_cur (rp_at sd ps J) - int i) = Some (rp_entry ((ps @ [(sd, 0)]) ! i))"
proof -
  have "nat (int (length ps) - int i) = length ps - i" "length ps - i < length (rev (ps @ [(sd, 0)]))"
    using assms by auto
  moreover from this have "rev (ps @ [(sd, 0)]) ! (length ps - i) = (ps @ [(sd, 0)]) ! i"
    using assms by (subst rev_nth) simp_all
  ultimately show ?thesis
    using assms by (simp add: rp_at_def c_nth_def nth_append del: rev_append)
qed

lemma rp_reads [simp]:
  "rp_parent (rp_at sd [] J) 0 = Some 0" "rp_dir (rp_at sd [] J) 0 = Some sd"
  "rp_parent (rp_at sd ((d, a) # ps) J) 0 = Some a" "rp_dir (rp_at sd ((d, a) # ps) J) 0 = Some d"
  "rp_parent (rp_at sd (x # ps) J) (- 1) = rp_parent (rp_at sd ps J) 0"
  "rp_dir (rp_at sd (x # ps) J) (- 1) = rp_dir (rp_at sd ps J) 0"
  "rp_parent (rp_at sd (x # y # ps) J) (- 2) = rp_parent (rp_at sd ps J) 0"
  "rp_dir (rp_at sd (x # y # ps) J) (- 2) = rp_dir (rp_at sd ps J) 0"
  using rp_nth [of 0 "[]" sd J] rp_nth [of 0 "(d, a) # ps" sd J] rp_nth [of 0 ps sd J]
    rp_nth [of 1 "x # ps" sd J] rp_nth [of 2 "x # y # ps" sd J]
  by (simp_all add: rp_parent_def rp_dir_def rp_entry_def)

lemma rp_up_at [simp]:
  "rp_up 1 (rp_at sd (x # ps) J) = rp_at sd ps (rp_entry x # J)"
  "rp_up 2 (rp_at sd (x # y # ps) J) = rp_at sd ps (rp_entry y # rp_entry x # J)"
  by (simp_all add: rp_up_def rp_at_def)

lemma rp_push_at [simp]:
  "rp_push a d (rp_at sd ps (j # J)) = Some (rp_at sd ((d, a) # ps) J)"
  "rp_push a d (rp_at sd ps []) = None"
  by (simp_all add: rp_push_def rp_at_def c_upd_def nat_add_distrib list_update_append rp_entry_def)

lemma RB_PATH_INIT_at:
  assumes "rp_path rp = j # J"
  shows "RB_PATH_INIT rp = Some (rp_at (rpe_dir j) [] J)"
  using assms by (cases j) (simp add: RB_PATH_INIT_def rp_at_def c_nth_def c_upd_def rp_entry_def)

lemma rp_insert_above_at [simp]:
  "rp_insert_above t d (rp_at sd (x # ps) (j # J)) = Some (rp_at sd (x # (d, t) # ps) J)"
  using rp_nth [of 0 "x # ps" sd "j # J"]
  by (simp add: rp_insert_above_def rp_at_def c_upd_def nat_add_distrib list_update_append rp_entry_def)

lemma rp_set_parent_at [simp]:
  "rp_set_parent (int (Suc (length ps))) b (rp_at sd (qs @ (d, a) # ps) J) =
    Some (rp_at sd (qs @ (d, b) # ps) J)"
  by (simp add: rp_set_parent_def rp_at_def c_nth_def c_upd_def nth_append list_update_append rp_entry_def nat_add_distrib)

text \<open>The parent and the direction in the first entry.\<close>

lemma rp_parent_steps: "rp_parent (rp_at sd (steps k) J) 0 = Some (kpar k)"
  by (cases k rule: kpar.cases) simp_all

lemma rb_hook_hang:
  assumes "kok k"
  shows "rp_parent rp i = Some (kpar k) \<Longrightarrow> (k \<noteq> [] \<Longrightarrow> rp_dir rp i = Some (kdir k)) \<Longrightarrow> rb_hook_c rp i t s = hang k t s"
  using assms by (cases k rule: kpar.cases) (simp_all add: rb_hook_c_def hang_def node_addr_def)


section \<open>Repair after an insertion\<close>

lemma rotate_parent_c:
  assumes "zok ((flip d, c, p, s) # k) (mk d c' n x y)"
  obtains s1 where "rb_rotate_c p d (st enc_c F ((flip d, c, p, s) # k) (mk d c' n x y)) = Some (n, s1)"
    and "hang k n s1 = Some (st enc_c F ((d, c', n, y) # k) (mk d c p s x))"
proof -
  from assms have z: "zok k (mk d c p s (mk d c' n x y))"
    by (simp add: zok_focus mk_flip)
  moreover from z have "zok k (mk d c' n (mk d c p s x) y)"
    by (auto simp: zok_def)
  ultimately show thesis
    using rb_rotate_c_st [OF z, of F] that by (auto simp: st_focus mk_flip)
qed

lemma rotate_grandparent_c:
  assumes "zok ((d, c', p, s) # (d, c, g, u) # k) t"
  obtains s1 where "rb_rotate_c g (flip d) (st enc_c F ((d, c', p, s) # (d, c, g, u) # k) t) = Some (p, s1)"
    and "hang k p s1 = Some (st enc_c F ((d, c', p, mk d c g s u) # k) t)"
proof -
  from assms have z: "zok k (mk d c g (mk d c' p t s) u)"
    by (simp add: zok_focus)
  moreover from z have "zok k (mk d c' p t (mk d c g s u))"
    by (auto simp: zok_def)
  moreover have "st enc_c F ((d, c', p, s) # (d, c, g, u) # k) t = st enc_c F k (mk d c g (mk d c' p t s) u)"
    using assms by (intro st_move) auto
  ultimately show thesis
    using rb_rotate_c_st [of k "flip d" c g u c' p s t F] that by (auto simp: mk_flip st_focus)
qed

lemmas reads_c = compact_mem.at_focus compact_mem.at_parent compact_mem.at_grandparent Let_def zok_unfold

lemma hook_steps:
  assumes "kok k"
  shows "rb_hook_c (rp_at sd (x # y # steps k) J) (- 2) t s = hang k t s"
    and "rb_hook_c (rp_at sd (x # steps k) J) (- 1) t s = hang k t s"
  using assms by (cases k rule: kpar.cases; intro rb_hook_hang; simp)+

lemma insert_color_straight_c:
  assumes z: "zok ((d, Red, p, s) # (d, Black, g, u) # k) t" and t: "t \<noteq> Leaf" and u: "color u = Black"
  shows "rb_insert_color_c (rp_at sd ((d, p) # (d, g) # steps k) J) (st enc_c F ((d, Red, p, s) # (d, Black, g, u) # k) t) =
    Some (st enc_c F [] (ins_fix ((d, Red, p, s) # (d, Black, g, u) # k) t))"
proof -
  have z': "zok ((d, Black, p, mk d Red g s u) # k) t" "zok ((d, Black, p, s) # (d, Red, g, u) # k) t"
    using z by (auto simp: zok_def)
  obtain s1 where "rb_rotate_c g (flip d) (st enc_c F ((d, Black, p, s) # (d, Red, g, u) # k) t) = Some (p, s1)"
    "hang k p s1 = Some (st enc_c F ((d, Black, p, mk d Red g s u) # k) t)"
    by (rule rotate_grandparent_c [OF z'(2)])
  then show ?thesis
    using z t u compact_mem.at_root(1) [OF z'(1) t, of F] unfolding rb_insert_color_c_def
    by (subst rb_insert_color_loop_c.simps) (simp add: reads_c hook_steps ins_fix_straight split del: if_split)
qed

lemma insert_color_bent_c:
  assumes z: "zok ((flip d, Red, p, s) # (d, Black, g, u) # k) (mk d Red n x y)" and u: "color u = Black"
  shows "rb_insert_color_c (rp_at sd ((flip d, p) # (d, g) # steps k) J)
      (st enc_c F ((flip d, Red, p, s) # (d, Black, g, u) # k) (mk d Red n x y)) =
    Some (st enc_c F [] (ins_fix ((flip d, Red, p, s) # (d, Black, g, u) # k) (mk d Red n x y)))"
proof -
  let ?k = "(d, Black, n, mk d Red g y u) # k" and ?t = "mk d Red p s x"
  have z': "zok ?k ?t" "zok ((d, Red, n, y) # (d, Black, g, u) # k) ?t" "zok ((d, Black, n, y) # (d, Red, g, u) # k) ?t"
    using z by (auto simp: zok_def)
  obtain s1 where s1: "rb_rotate_c p d (st enc_c F ((flip d, Red, p, s) # (d, Black, g, u) # k) (mk d Red n x y)) = Some (n, s1)"
    "hang ((d, Black, g, u) # k) n s1 = Some (st enc_c F ((d, Red, n, y) # (d, Black, g, u) # k) ?t)"
    by (rule rotate_parent_c [OF z])
  obtain s2 where "rb_rotate_c g (flip d) (st enc_c F ((d, Black, n, y) # (d, Red, g, u) # k) ?t) = Some (n, s2)"
    "hang k n s2 = Some (st enc_c F ?k ?t)"
    by (rule rotate_grandparent_c [OF z'(3)])
  with s1 show ?thesis
    using z z' u compact_mem.at_root(1) [OF z'(1), of F] unfolding rb_insert_color_c_def
    by (subst rb_insert_color_loop_c.simps)
       (simp add: reads_c hook_steps ins_fix_bent hang_def [of "_ # _"] split del: if_split)
qed

lemma rb_insert_color_c_st:
  assumes "zok k t" "cctx k Black" "color t = Red"
  shows "rb_insert_color_c (rp_at sd (steps k) J) (st enc_c F k t) = Some (st enc_c F [] (ins_fix k t))"
  using assms
proof (induction "length k" arbitrary: k t J rule: less_induct)
  case less
  have t: "t \<noteq> Leaf" using less.prems(3) by auto
  note root = compact_mem.at_root(1)
  note unfold = rb_insert_color_c_def rb_insert_color_loop_c.simps [of "rp_at sd (steps k) J"]
  from less.prems(2,3) show ?case
  proof (cases rule: ins_fix_cases)
    case Root
    with less.prems t show ?thesis
      using root [OF less.prems(1) t] unfolding unfold by simp
  next
    case (Done d p s k')
    with less.prems t show ?thesis
      using root [OF less.prems(1) t] unfolding unfold by (simp add: reads_c)
  next
    case (Recolor d1 p s d g u k')
    let ?k = "(d1, Black, p, s) # (d, Red, g, paint Black u) # k'"
    let ?J = "rp_entry (d, g) # rp_entry (d1, p) # J"
    have u: "u \<noteq> Leaf" using Recolor by auto
    have z: "zok ?k t" using Recolor less.prems(1) by (simp add: zok_def)
    have "rb_insert_color_c (rp_at sd (steps k') ?J) (st enc_c F ?k t) = Some (st enc_c F [] (ins_fix k t))"
      using less.prems Recolor z less.hyps [of k' "mk d Red g (mk d1 Black p t s) (paint Black u)" ?J]
      by (simp add: ins_fix_recolor st_focus zok_focus)
    then show ?thesis
      using Recolor less.prems(1) t u unfolding unfold
      by (simp add: reads_c split del: if_split)
  next
    case (Straight p s d g u k')
    with less.prems(1) t insert_color_straight_c show ?thesis by simp
  next
    case (Bent p s d g u k' n x y)
    with less.prems(1) insert_color_bent_c [of d p s g u k' n x y] show ?thesis by simp
  qed
qed

end
