(* ===== verification/RB_Compact_Remove.thy ===== *)
theory RB_Compact_Remove
  imports RB_Compact
begin

text \<open>
  \<open>rb_remove_color\<close> and \<open>rb_remove\<close> of \<open>rbtree/rbtree_compact.c\<close> implement the same \<open>rem_fix\<close> and
  \<open>rem\<close> as the functions of \<open>rbtree/rbtree.c\<close>, when the path to the node is given and has room for
  the way to the successor and for one entry more.
\<close>

section \<open>Repair after a removal\<close>

lemma rotate_up_c:
  assumes "zok ((d, c', q, y) # (flip d, c, p, t) # k) x"
  obtains s1 where "rb_rotate_c p d (st enc_c F ((d, c', q, y) # (flip d, c, p, t) # k) x) = Some (q, s1)"
    and "hang k q s1 = Some (st enc_c F k (mk d c' q (mk d c p t x) y))"
proof -
  from assms have z: "zok k (mk d c p t (mk d c' q x y))"
    by (simp add: zok_focus mk_flip)
  have "st enc_c F ((d, c', q, y) # (flip d, c, p, t) # k) x = st enc_c F k (mk d c p t (mk d c' q x y))"
    using assms by (intro st_move) (auto simp: mk_flip)
  with rb_rotate_c_st [OF z, of F] that show thesis by auto
qed

lemma rb_remove_color_end_c_st:
  assumes "zok ((d, c', q, y) # (flip d, c, p, t) # k) x" and "y \<noteq> Leaf" and "n = root_addr y"
    and "s' = st enc_c F k (mk d c q (mk d Black p t x) (paint Black y))"
  shows "rb_remove_color_end_c p q n d (rp_at sd (z # steps k) J) (st enc_c F ((d, c', q, y) # (flip d, c, p, t) # k) x) =
    Some (rb_root s', s')"
proof -
  have z: "zok ((d, c, q, paint Black y) # (flip d, Black, p, t) # k) x"
    using assms by (auto simp: zok_def)
  obtain s1 where "rb_rotate_c p d (st enc_c F ((d, c, q, paint Black y) # (flip d, Black, p, t) # k) x) = Some (q, s1)"
    "hang k q s1 = Some s'"
    unfolding assms(4) by (rule rotate_up_c [OF z])
  with assms z show ?thesis
    unfolding rb_remove_color_end_c_def by (simp add: reads_c hook_steps)
qed

lemma rb_remove_color_tail_c_continue:
  assumes "zok ((d, Black, q, y) # (flip d, c, p, t) # k) x" and "color x = Black" "color y = Black"
  shows "rb_remove_color_tail_c p q d (rp_at sd (z # ps) J) (st enc_c F ((d, Black, q, y) # (flip d, c, p, t) # k) x) =
    Some (Inl (p, rp_at sd ps (rp_entry z # J), st enc_c F k (mk d c p t (mk d Red q x y))))"
proof -
  have z: "zok ((d, Red, q, y) # (flip d, c, p, t) # k) x"
    using assms by (auto simp: zok_def)
  then have "st enc_c F ((d, Red, q, y) # (flip d, c, p, t) # k) x = st enc_c F k (mk d c p t (mk d Red q x y))"
    by (intro st_move) (simp_all add: mk_flip)
  then show ?thesis
    using assms unfolding rb_remove_color_tail_c_def by (simp add: reads_c)
qed

lemma rb_remove_color_tail_c_break:
  assumes "zok ((d, Black, q, y) # (flip d, c, p, t) # k) x" and "color x = Red \<or> color y = Red"
    and "s' = st enc_c F k (rem_rot d c p t q x y)"
  shows "rb_remove_color_tail_c p q d (rp_at sd (z # steps k) J) (st enc_c F ((d, Black, q, y) # (flip d, c, p, t) # k) x) =
    Some (Inr (rb_root s', s'))"
proof (cases "color y = Red")
  case True
  then have "y \<noteq> Leaf" by auto
  with rb_remove_color_end_c_st [where sd = sd and z = z and J = J and F = F, OF assms(1) this refl refl] True assms show ?thesis
    unfolding rb_remove_color_tail_c_def by (simp add: reads_c rem_rot.simps)
next
  case False
  with assms obtain w x1 x2 where x: "x = mk d Red w x1 x2"
    by (cases x rule: rbt_dir_cases [where d = d]) auto
  let ?k = "(d, Black, w, mk d Red q x2 y) # (flip d, c, p, t) # k"
  have z: "zok ((d, Red, q, y) # (flip d, c, p, t) # k) (mk d Black w x1 x2)"
    "zok ?k x1" "zok ((flip d, Black, w, x1) # (flip d, c, p, t) # k) (mk d Red q x2 y)"
    using assms(1) x by (auto simp: zok_def)
  have "st enc_c F ((flip d, Black, w, x1) # (flip d, c, p, t) # k) (mk d Red q x2 y) = st enc_c F ?k x1"
    using z by (intro st_move) (simp_all add: mk_flip)
  with rotate_parent_c [of "flip d" Red q y "(flip d, c, p, t) # k" Black w x2 x1 F] z(1)
  obtain s1 where "rb_rotate_c q (flip d) (st enc_c F ((d, Red, q, y) # (flip d, c, p, t) # k) (mk d Black w x1 x2)) = Some (w, s1)"
    "hang ((flip d, c, p, t) # k) w s1 = Some (st enc_c F ?k x1)"
    by (auto simp: mk_flip)
  with z False x assms rb_remove_color_end_c_st [where sd = sd and z = z and J = J and F = F, OF z(2) _ refl refl] show ?thesis
    unfolding rb_remove_color_tail_c_def
    by (simp add: reads_c rem_rot.simps hang_def [of "_ # _"])
qed

text \<open>One iteration of the loop, with a black and with a red sibling.\<close>

abbreviation remove_next_c :: "('w::len word \<times> 'w word RB_PATH \<times> 'w rbc + 'w word \<times> 'w rbc) \<Rightarrow> ('w word \<times> 'w rbc) option"
  where
  "remove_next_c r \<equiv> (case r of
      Inl (node, rp, s) \<Rightarrow> rb_remove_color_loop_c node rp s
    | Inr (node, s) \<Rightarrow> Some (node, s))"

lemma focus_not_root:
  assumes "zok ((d, cs, q, y) # (e, c, p, t) # k) x"
  shows "root_addr t \<noteq> kroot p k"
proof -
  have "zok ((flip e, c, p, mk d cs q x y) # k) t"
    using assms by (auto simp: zok_def)
  from kroot_neq_root [OF this] show ?thesis by (metis kroot.simps(2) list.distinct(1))
qed

lemma rb_remove_color_loop_c_black:
  assumes "zok ((d, Black, q, y) # (flip d, c, p, t) # k) x" and "color t = Black"
    and "s = st enc_c F ((d, Black, q, y) # (flip d, c, p, t) # k) x"
  shows "rb_remove_color_loop_c (root_addr t) (rp_at sd ((d, p) # ps) J) s =
    rb_remove_color_tail_c p q d (rp_at sd ((d, p) # ps) J) s \<bind> remove_next_c"
  using focus_not_root [OF assms(1)] assms(1,2) unfolding assms(3)
  by (subst rb_remove_color_loop_c.simps) (simp add: reads_c rb_root_st split del: if_split)

lemma rb_remove_color_loop_c_red:
  assumes "zok ((d, Red, q, y) # (flip d, Black, p, t) # k) x" and "color t = Black"
    and "s = st enc_c F k (mk d Black q (mk d Red p t x) y)"
  shows "rb_remove_color_loop_c (root_addr t) (rp_at sd ((d, p) # steps k) (j # J))
      (st enc_c F ((d, Red, q, y) # (flip d, Black, p, t) # k) x) =
    rb_remove_color_tail_c p (root_addr x) d (rp_at sd ((d, p) # (d, q) # steps k) J) s \<bind> remove_next_c"
proof -
  have z: "zok ((flip d, Red, p, t) # (d, Black, q, y) # k) x" "zok ((d, Black, q, y) # (flip d, Red, p, t) # k) x"
    using assms(1) by (auto simp: zok_def)
  have "s = st enc_c F ((flip d, Red, p, t) # (d, Black, q, y) # k) x"
    unfolding assms(3) using z by (intro st_move [symmetric]) (simp_all add: mk_flip)
  with z have c: "rb_child_c p (flip d) s = Some (root_addr x)"
    by (simp add: reads_c)
  obtain s1 where "rb_rotate_c p d (st enc_c F ((d, Black, q, y) # (flip d, Red, p, t) # k) x) = Some (q, s1)"
    "hang k q s1 = Some s"
    unfolding assms(3) by (rule rotate_up_c [OF z(2)])
  with c focus_not_root [OF assms(1)] assms show ?thesis
    by (subst rb_remove_color_loop_c.simps) (simp add: reads_c hook_steps rb_root_st split del: if_split)
qed

text \<open>The end of the repair by a rotation.\<close>

lemma rb_remove_color_c_break:
  assumes z: "zok ((d, Black, q, y) # (flip d, c, p, t) # k) x" and xy: "color x = Red \<or> color y = Red"
  shows "do {
      r \<leftarrow> rb_remove_color_tail_c p q d (rp_at sd (e # steps k) J) (st enc_c F ((d, Black, q, y) # (flip d, c, p, t) # k) x);
      (node, s) \<leftarrow> remove_next_c r;
      if node \<noteq> 0 then rb_set_color_c node RB_BLACK s else Some s } =
    Some (st enc_c F [] (paint Black (zip_up k (rem_rot d c p t q x y))))"
proof -
  have "zok k (mk d c p t (mk d Black q x y))"
    using z by (simp add: zok_focus mk_flip)
  then have "zok k (rem_rot d c p t q x y)"
    using zok_inorder_cong [OF inorder_rem_rot [OF xy]] by blast
  with compact_mem.at_root [of k "rem_rot d c p t q x y" F] rem_rot_not_Leaf [OF xy] show ?thesis
    by (simp add: rb_remove_color_tail_c_break [OF z xy refl])
qed

lemma rb_remove_color_c_red:
  assumes "zok k t" and "color t = Red"
  shows "rb_remove_color_c (root_addr t) rp (st enc_c F k t) = Some (st enc_c F [] (zip_up k (paint Black t)))"
proof -
  from assms(2) have "t \<noteq> Leaf" by auto
  with assms st_zip_up [of enc_c k "paint Black t" F] show ?thesis
    unfolding rb_remove_color_c_def
    by (subst rb_remove_color_loop_c.simps)
       (auto simp: compact_mem.tests_at compact_mem.set_color_at [where c' = Black, simplified] zok_def)
qed

lemma remove_color_sibling_c:
  assumes z: "zok ((d, Black, p, mk d Red q (mk d Black w x1 x2) y) # k) t" and t: "color t = Black" and "J \<noteq> []"
  shows "rb_remove_color_c (root_addr t) (rp_at sd ((d, p) # steps k) J)
      (st enc_c F ((d, Black, p, mk d Red q (mk d Black w x1 x2) y) # k) t) =
    Some (st enc_c F [] (rem_fix ((d, Black, p, mk d Red q (mk d Black w x1 x2) y) # k) t))"
proof -
  let ?k = "(d, Red, q, y) # (flip d, Black, p, t) # k" and ?x = "mk d Black w x1 x2"
  let ?k' = "(d, Black, w, x2) # (flip d, Red, p, t) # (d, Black, q, y) # k"
  obtain j J' where J: "J = j # J'" using assms(3) by (cases J) auto
  have z1: "zok ?k ?x" and z2: "zok ?k' x1" using z by (auto simp: zok_def)
  have s: "st enc_c F ((d, Black, p, mk d Red q ?x y) # k) t = st enc_c F ?k ?x"
    using z by (intro st_move) (auto simp: mk_flip)
  have s': "st enc_c F k (mk d Black q (mk d Red p t ?x) y) = st enc_c F ?k' x1"
    using z2 by (intro st_move [symmetric]) (auto simp: mk_flip)
  note loop = rb_remove_color_loop_c_red [OF z1 t refl, of sd j J' F, unfolded s', simplified]
  show ?thesis
  proof (cases "color x1 = Black \<and> color x2 = Black")
    case True
    let ?t = "mk d Red p t (mk d Red w x1 x2)" and ?rp = "rp_at sd ((d, q) # steps k) (rp_entry (d, p) # J')"
    have "rb_remove_color_c p ?rp (st enc_c F ((d, Black, q, y) # k) ?t) =
        Some (st enc_c F [] (zip_up ((d, Black, q, y) # k) (mk d Black p t (mk d Red w x1 x2))))"
      using rb_remove_color_c_red [of "(d, Black, q, y) # k" ?t ?rp F] z by (auto simp: zok_unfold)
    with True t J show ?thesis
      unfolding s rb_remove_color_c_def
      by (simp add: loop rb_remove_color_tail_c_continue [OF z2])
  next
    case False
    then show ?thesis
      using t J rb_remove_color_c_break [OF z2, where F = F and e = "(d, p)" and sd = sd and J = J']
      unfolding s rb_remove_color_c_def by (auto simp: loop)
  qed
qed

text \<open>The whole repair. The path needs one free entry, for the case of a red sibling.\<close>

lemma rb_remove_color_c_st:
  assumes "zok k t" "cctx k Black" "hctx k (Suc (bh t))" "J \<noteq> []"
  shows "rb_remove_color_c (root_addr t) (rp_at sd (steps k) J) (st enc_c F k t) = Some (st enc_c F [] (rem_fix k t))"
  using assms
proof (induction "length k" arbitrary: k t J rule: less_induct)
  case less
  from less.prems(2,3) show ?case
  proof (cases rule: rem_fix_cases)
    case Root
    with less.prems(1) show ?thesis
      unfolding rb_remove_color_c_def rb_remove_color_loop_c.simps [of "root_addr t"]
      by (cases "t = Leaf") (simp_all add: rb_root_st reads_c compact_mem.set_color_at [where c' = Black, simplified])
  next
    case (Red d c p s k')
    with less.prems(1) rb_remove_color_c_red [of k t] show ?thesis by simp
  next
    case (Recolor d c p q x y k')
    let ?k = "(d, Black, q, y) # (flip d, c, p, t) # k'" and ?t = "mk d c p t (mk d Red q x y)"
    have z: "zok ?k x" using less.prems(1) Recolor by (auto simp: zok_def)
    have s: "st enc_c F k t = st enc_c F ?k x"
      using less.prems(1) Recolor by (intro st_move) (auto simp: mk_flip)
    have "rb_remove_color_c p (rp_at sd (steps k') (rp_entry (d, p) # J)) (st enc_c F k' ?t) =
        Some (st enc_c F [] (rem_fix k' ?t))"
      using less.hyps [of k' ?t "rp_entry (d, p) # J"] less.prems Recolor
      by (auto simp: zok_unfold cctx_Black split: if_splits)
    with Recolor show ?thesis
      unfolding s rb_remove_color_c_def
      by (simp add: rb_remove_color_loop_c_black [OF z _ refl] rb_remove_color_tail_c_continue [OF z])
  next
    case (Rotate d c p q x y k')
    let ?k = "(d, Black, q, y) # (flip d, c, p, t) # k'"
    have z: "zok ?k x" using less.prems(1) Rotate by (auto simp: zok_def)
    have s: "st enc_c F k t = st enc_c F ?k x"
      using less.prems(1) Rotate by (intro st_move) (auto simp: mk_flip)
    show ?thesis
      using Rotate rb_remove_color_c_break [OF z Rotate(3), where F = F and e = "(d, p)" and sd = sd and J = J]
      unfolding s rb_remove_color_c_def
      by (auto simp: rb_remove_color_loop_c_black [OF z _ refl])
  next
    case (Sibling d p q w x1 x2 y k')
    show ?thesis
      using remove_color_sibling_c [of d p q w x1 x2 y k' t J sd F] less.prems(1,4) Sibling(2)
      unfolding Sibling(1) steps.simps by blast
  qed
qed

section \<open>The way down\<close>

lemma rb_height_mk [simp]: "rb_height (mk d c a x y) = Suc (max (rb_height x) (rb_height y))"
  by (cases d) simp_all

lemma length_le_height: "length k + rb_height t \<le> rb_height (zip_up k t)"
  by (induction k t rule: zip_up.induct) (auto simp: max_def split: if_splits)

lemma length_outer: "length k \<le> length (fst (outer d k t))"
proof (cases "t = Leaf")
  case False
  then obtain k' c a y where "outer d k t = (k' @ k, mk d c a Leaf y)" by (rule outer_spec)
  then show ?thesis by simp
qed (cases d; simp)

lemma rp_cur_at [simp]: "rp_cur (rp_at sd ps J) = int (length ps)"
  by (simp add: rp_at_def)

text \<open>The descent returns if and only if its way fits into the path.\<close>

lemma rb_descend_c_st:
  assumes "t \<noteq> Leaf" and "zok k t"
  shows "rb_descend_c d (root_addr t) (rp_at sd (steps k) J) (st enc_c F k t) =
    (if length (fst (outer d k t)) \<le> length k + length J
     then Some (root_addr (snd (outer d k t)),
       rp_at sd (steps (fst (outer d k t))) (drop (length (fst (outer d k t)) - length k) J))
     else None)"
  using assms
proof (induction k t arbitrary: J rule: outer_induct [where d = d])
  case (Outermost k c a y)
  then show ?case by (subst rb_descend_c.simps) (simp add: compact_mem.child_at outer_mk)
next
  case (Step k c a x y)
  let ?k = "(d, c, a, y) # k"
  have x: "rb_child_c a d (st enc_c F k (mk d c a x y)) = Some (root_addr x)"
    "root_addr x \<noteq> 0" "st enc_c F k (mk d c a x y) = st enc_c F ?k x" "zok ?k x"
    using Step(1,3) by (simp_all add: compact_mem.child_at st_focus zok_focus) (simp add: zok_def)
  have len: "Suc (length k) \<le> length (fst (outer d ?k x))" using length_outer [of ?k d x] by simp
  show ?case
  proof (cases J)
    case Nil
    with x len Step(1) show ?thesis by (subst rb_descend_c.simps) (simp add: outer_mk)
  next
    case (Cons j J')
    have "drop (length (fst (outer d ?k x)) - length k) J = drop (length (fst (outer d ?k x)) - Suc (length k)) J'"
      using Cons len by (simp add: drop_Cons' )
    with x Step Cons show ?thesis by (subst rb_descend_c.simps) (simp add: outer_mk)
  qed
qed

section \<open>Removal of a node\<close>

lemma unlink_c:
  assumes z: "zok k (mk d c a Leaf y)" and s: "s = st enc_c F k (mk d c a Leaf y)"
  shows "hang k (root_addr y) s = Some (st enc_c (F(a \<mapsto> enc_c (kpar k) c d 0 (root_addr y))) k y)"
proof (cases k rule: kpar.cases)
  case 1
  then show ?thesis using z s by (auto simp: hang_def heap_eq_c)
next
  case (2 e cp p w k')
  from hang_Cons [OF 2 parent_load_c(1,4,5) [OF z 2], of "root_addr y" F, folded s] show ?thesis
    by (rule trans) (insert z 2, auto simp: s heap_eq_c)
qed

text \<open>A detached node \<open>b\<close> takes the place of a node \<open>a\<close>, its contents copied from \<open>a\<close>.\<close>

lemma node_c_eq: "n\<lparr>rb_child_color := (rb_child_color n)(RB_RIGHT := rb_child_color m RB_RIGHT,
    RB_LEFT := rb_child_color m RB_LEFT)\<rparr> = m" for m n :: "'p RB_NODE_c"
  by (cases m; cases n) (simp add: rb_dir_fun_eq)

lemma replace_c:
  assumes z: "zok k (Node l c a r)" and b: "node_addr b" "b \<noteq> a" "b \<notin> addrs l" "b \<notin> addrs r" "b \<notin> kaddrs k"
    and F: "F b = Some n" and s: "s = st enc_c F k (Node l c a r)"
  shows "do {
      s \<leftarrow> rb_copy_right_child_c b a s;
      s \<leftarrow> rb_copy_left_child_color_c b a s;
      hang k b s } =
    Some (st enc_c (F(a \<mapsto> enc_c (kpar k) c RB_LEFT (root_addr l) (root_addr r))) k (Node l c b r))"
proof -
  let ?n = "enc_c (kpar k) c RB_LEFT (root_addr l) (root_addr r)"
  have ld: "load a s = Some ?n" "load b s = Some n" and ne: "a \<noteq> 0" "b \<noteq> 0" "aligned b" "aligned a"
    using z b F unfolding s
    by (auto simp: load_def st_def zok_def node_addr_def heap_of_notin ctx_heap_notin map_add_def split: option.splits)
  have "do { s \<leftarrow> rb_copy_right_child_c b a s; rb_copy_left_child_color_c b a s } = Some (upd b ?n s)"
    using ld ne b(2) node_c_eq [of n ?n]
    by (simp add: rb_copy_right_child_c_def rb_copy_left_child_color_c_def store_case load_upd) (simp add: upd_def)
  moreover have "hang k b (upd b ?n s) = Some (st enc_c (F(a \<mapsto> ?n)) k (Node l c b r))"
  proof (cases k rule: kpar.cases)
    case 1
    then show ?thesis using z b by (auto simp: hang_def heap_eq_c s)
  next
    case (2 e cp p w k')
    note p = parent_load_c(2-) [OF z 2]
    have "load p (upd b ?n s) = Some (enc_c (kpar k') cp e a (root_addr w))"
      using parent_load_c(1) [OF z 2, of F] p ne b 2 by (auto simp: load_upd s)
    from hang_Cons [OF 2 this ne(4) p(4)] show ?thesis
      by (rule trans) (insert z b 2, auto simp: heap_eq_c s)
  qed
  ultimately show ?thesis by (simp flip: bind_assoc)
qed

lemma replace_adjacent_c:
  assumes z: "zok k (Node l c a (Node Leaf cb b r))" and s: "s = st enc_c F k (Node l c a (Node Leaf cb b r))"
  shows "do {
      s \<leftarrow> rb_copy_left_child_color_c b a s;
      hang k b s } =
    Some (st enc_c (F(a \<mapsto> enc_c (kpar k) c RB_LEFT (root_addr l) b)) k (Node l c b r))"
proof -
  let ?m = "enc_c (kpar k) c RB_LEFT (root_addr l) b" and ?n = "enc_c a cb RB_LEFT 0 (root_addr r)"
  have ld: "load a s = Some ?m" "load b s = Some ?n" and ne: "a \<noteq> 0" "b \<noteq> 0" "a \<noteq> b" "aligned b" "aligned a"
    using z unfolding s
    by (auto simp: load_def st_def zok_def node_addr_def heap_of_notin map_add_def split: option.splits)
  have "?n\<lparr>rb_child_color := (rb_child_color ?n)(RB_LEFT := rb_child_color ?m RB_LEFT)\<rparr> =
      enc_c (kpar k) c RB_LEFT (root_addr l) (root_addr r)"
    by (simp add: enc_c_def rb_dir_fun_eq)
  then have "rb_copy_left_child_color_c b a s = Some (upd b (enc_c (kpar k) c RB_LEFT (root_addr l) (root_addr r)) s)"
    using ld by (simp add: rb_copy_left_child_color_c_def store_case)
  moreover have "hang k b (upd b (enc_c (kpar k) c RB_LEFT (root_addr l) (root_addr r)) s) =
      Some (st enc_c (F(a \<mapsto> ?m)) k (Node l c b r))"
  proof (cases k rule: kpar.cases)
    case 1
    then show ?thesis using z by (auto simp: hang_def heap_eq_c s)
  next
    case (2 e cp p w k')
    note p = parent_load_c(2-) [OF z 2]
    have "load p (upd b (enc_c (kpar k) c RB_LEFT (root_addr l) (root_addr r)) s) = Some (enc_c (kpar k') cp e a (root_addr w))"
      using parent_load_c(1) [OF z 2, of F] p ne by (auto simp: load_upd s)
    from hang_Cons [OF 2 this ne(5) p(4)] show ?thesis
      by (rule trans) (insert z 2, auto simp: heap_eq_c s)
  qed
  ultimately show ?thesis by simp
qed

text \<open>The entry of the path at the removed node, and the assignment to its parent's child.\<close>

lemma rp_dir_steps: "rp_dir (rp_at sd (steps k) J) 0 = Some (if k = [] then sd else kdir k)"
  by (cases k rule: kpar.cases) simp_all

lemma hang_if:
  assumes "kok k"
  shows "(if kpar k \<noteq> 0 then rb_set_child_c (kpar k) (if k = [] then sd else kdir k) t s
    else Some (s\<lparr>rb_root := t\<rparr>)) = hang k t s"
  using assms by (cases k rule: kpar.cases) (simp_all add: hang_def node_addr_def)

lemma rp_set_parent_steps: "rp_set_parent (1 + int (length k)) b (rp_at sd (qs @ (d, a) # steps k) J) =
    Some (rp_at sd (qs @ (d, b) # steps k) J)"
  using rp_set_parent_at [of "steps k" b sd qs d a J] by simp

lemma rem_del_c_st:
  assumes "zok k t" "cctx k c" "hctx k (bh t + (if c = Black then 1 else 0))" "J \<noteq> []"
  shows "(if color_bit c = (RB_BLACK :: 'w::len word)
      then rb_remove_color_c (root_addr t) (rp_at sd (steps k) J) (st enc_c F k t) else Some (st enc_c F k t)) =
    Some (st enc_c F [] (rem_del k c t))"
  using assms rb_remove_color_c_st [of k t J sd F] cctx_Black [of k c] st_zip_up [of enc_c k t F]
  by (cases c) (simp_all add: rem_del_def)

lemma rb_remove_c_one_child:
  assumes z: "zok k (mk d c a Leaf y)" and rb: "rb_tree (zip_up k (mk d c a Leaf y))"
    and d: "d = RB_LEFT \<or> y \<noteq> Leaf" and J: "J \<noteq> []"
  shows "rb_remove_c a (rp_at sd (steps k) J) (st enc_c F k (mk d c a Leaf y)) =
    Some (st enc_c (F(a \<mapsto> enc_c (kpar k) c d 0 (root_addr y))) [] (rem_del k c y))"
proof -
  let ?s = "st enc_c F k (mk d c a Leaf y)" and ?F = "F(a \<mapsto> enc_c (kpar k) c d 0 (root_addr y))"
  have y: "tok y" "zok k y" "kok k" using z by (auto simp: zok_def)
  have "rb_remove_c a (rp_at sd (steps k) J) ?s = do {
      s \<leftarrow> hang k (root_addr y) ?s;
      if color_bit c = (RB_BLACK :: 'a word) then rb_remove_color_c (root_addr y) (rp_at sd (steps k) J) s else Some s }"
    using d y(1,3) compact_mem.child_at [OF z, of F] compact_mem.color_at [OF z mk_not_Leaf(1), of F]
    unfolding hang_if [OF y(3), of sd, symmetric]
    by (cases d) (auto simp: rb_remove_c_def rp_parent_steps rp_dir_steps)
  also have "\<dots> = Some (st enc_c ?F [] (rem_del k c y))"
    unfolding unlink_c [OF z refl] bind.bind_lunit
    using rb J by (intro rem_del_c_st y) (auto simp: rb_tree_zip_up split: if_splits)
  finally show ?thesis .
qed

lemma successor_reads_c:
  assumes z: "zok k (Node l c a r)" and lr: "l \<noteq> Leaf" "r \<noteq> Leaf"
    and out: "outer RB_LEFT [] r = (k', Node Leaf cs b child)" and fits: "length k' < length J"
    and r: "zip_up k' (Node Leaf cs b child) = r" and s: "s = st enc_c F k (Node l c a r)"
  shows "rb_color_c a s = Some (color_bit c)"
    "rb_child_c a RB_LEFT s = Some (root_addr l)" "rb_child_c a RB_RIGHT s = Some (root_addr r)"
    "root_addr l \<noteq> 0" "root_addr r \<noteq> 0"
    "rb_descend_c RB_LEFT (root_addr r) (rp_at sd ((RB_RIGHT, a) # steps k) (tl J)) s =
      Some (b, rp_at sd (steps (k' @ (RB_RIGHT, c, a, l) # k)) (drop (length k') (tl J)))"
    "rb_color_c b s = Some (color_bit cs)" "rb_child_c b RB_RIGHT s = Some (root_addr child)"
    "s = st enc_c F (k' @ (RB_RIGHT, c, a, l) # k) (Node Leaf cs b child)"
    "zok (k' @ (RB_RIGHT, c, a, l) # k) (Node Leaf cs b child)"
proof -
  let ?L = "k' @ (RB_RIGHT, c, a, l) # k" and ?b = "Node Leaf cs b child"
  show zL: "zok ?L ?b" using z r by (simp add: zok_append zok_focus)
  show sL: "s = st enc_c F ?L ?b"
    unfolding s using zL r by (intro st_move [symmetric]) (simp_all add: zip_up_append)
  have "s = st enc_c F ((RB_RIGHT, c, a, l) # k) r" "zok ((RB_RIGHT, c, a, l) # k) r"
    unfolding s using z by (simp_all add: st_focus zok_focus)
  then show "rb_descend_c RB_LEFT (root_addr r) (rp_at sd ((RB_RIGHT, a) # steps k) (tl J)) s =
      Some (b, rp_at sd (steps (k' @ (RB_RIGHT, c, a, l) # k)) (drop (length k') (tl J)))"
    using rb_descend_c_st [OF lr(2), of "(RB_RIGHT, c, a, l) # k" RB_LEFT sd "tl J" F] fits
      outer_append [of RB_LEFT "[]" "(RB_RIGHT, c, a, l) # k" r] out by simp
  show "rb_color_c a s = Some (color_bit c)"
    "rb_child_c a RB_LEFT s = Some (root_addr l)" "rb_child_c a RB_RIGHT s = Some (root_addr r)"
    "root_addr l \<noteq> 0" "root_addr r \<noteq> 0"
    unfolding s using z lr compact_mem.color_at [OF z] compact_mem.child_at [of k RB_LEFT c a l r F]
    by (simp_all add: zok_def)
  show "rb_color_c b s = Some (color_bit cs)"
    "rb_child_c b RB_RIGHT s = Some (root_addr child)"
    unfolding sL using zL compact_mem.color_at [OF zL]
      compact_mem.child_at [of ?L RB_LEFT cs b Leaf child F] by simp_all
qed

lemma successor_placed_c:
  assumes "rb_tree (zip_up k (Node l c a (zip_up k' (Node Leaf cs b child))))"
    and "zok (k' @ (RB_RIGHT, c, b, l) # k) child" "s = st enc_c F k (Node l c b (zip_up k' child))"
    and "ps = steps (k' @ (RB_RIGHT, c, b, l) # k)" and "J \<noteq> []"
  shows "(if color_bit cs = (RB_BLACK :: 'w::len word) then rb_remove_color_c (root_addr child) (rp_at sd ps J) s else Some s) =
    Some (st enc_c F [] (rem_del (k' @ (RB_RIGHT, c, b, l) # k) cs child))"
proof -
  have "s = st enc_c F (k' @ (RB_RIGHT, c, b, l) # k) child"
    unfolding assms(3) using assms(2) by (intro st_move [symmetric]) (simp_all add: zip_up_append)
  with assms(4) rem_del_c_st [OF assms(2) rem_two_ctx(1,2) [OF assms(1)] assms(5), of sd F] show ?thesis
    by (simp only:)
qed

text \<open>The successor is the right child of the removed node.\<close>

lemma rb_remove_c_adjacent:
  assumes z: "zok k (Node l c a (Node Leaf cs b child))" and l: "l \<noteq> Leaf"
    and rb: "rb_tree (zip_up k (Node l c a (Node Leaf cs b child)))" and J: "1 < length J"
  shows "rb_remove_c a (rp_at sd (steps k) J) (st enc_c F k (Node l c a (Node Leaf cs b child))) =
    Some (st enc_c (F(a \<mapsto> enc_c (kpar k) c RB_LEFT (root_addr l) b)) [] (rem_del ((RB_RIGHT, c, b, l) # k) cs child))"
proof -
  let ?s = "st enc_c F k (Node l c a (Node Leaf cs b child))"
  obtain j J' where J': "J = j # J'" "J' \<noteq> []" using J by (cases J) auto
  note reads = successor_reads_c(1-5,7-10) [where F = F and k' = "[]" and J = J, OF z l _ _ _ _ refl, simplified J', simplified]
    successor_reads_c(6) [where F = F and k' = "[]" and J = J and sd = sd, OF z l _ _ _ _ refl, simplified J', simplified]
  have k: "kok k" and z': "zok ((RB_RIGHT, c, b, l) # k) child" using z by (auto simp: zok_def)
  have "rb_remove_c a (rp_at sd (steps k) J) ?s = do {
      s \<leftarrow> do { s \<leftarrow> rb_copy_left_child_color_c b a ?s; hang k b s };
      if color_bit cs = (RB_BLACK :: 'a word)
      then rb_remove_color_c (root_addr child) (rp_at sd ((RB_RIGHT, b) # steps k) J') s else Some s }"
    using reads J' rp_set_parent_steps [of k b sd "[]"] unfolding hang_if [OF k, of sd, symmetric]
    by (simp add: rb_remove_c_def rp_parent_steps rp_dir_steps Let_def split del: if_split)
  also have "\<dots> = Some (st enc_c (F(a \<mapsto> enc_c (kpar k) c RB_LEFT (root_addr l) b)) []
      (rem_del ((RB_RIGHT, c, b, l) # k) cs child))"
    unfolding replace_adjacent_c [OF z refl] bind.bind_lunit
    using successor_placed_c [of k l c a "[]" cs b child] rb z' J' by simp
  finally show ?thesis .
qed

text \<open>The successor is further down.\<close>

lemma rb_remove_c_distant:
  assumes z: "zok k (Node l c a r)" and lr: "l \<noteq> Leaf" "r \<noteq> Leaf"
    and rb: "rb_tree (zip_up k (Node l c a (zip_up k' (Node Leaf cs b child))))"
    and out: "outer RB_LEFT [] r = (k', Node Leaf cs b child)"
    and r: "zip_up k' (Node Leaf cs b child) = r" and k': "k' \<noteq> []" and J: "Suc (length k') < length J"
  shows "rb_remove_c a (rp_at sd (steps k) J) (st enc_c F k (Node l c a r)) =
    Some (st enc_c (F(a \<mapsto> enc_c (kpar k) c RB_LEFT (root_addr l) (root_addr r))) []
      (rem_del (k' @ (RB_RIGHT, c, b, l) # k) cs child))"
proof -
  let ?s = "st enc_c F k (Node l c a r)" and ?K = "k' @ (RB_RIGHT, c, b, l) # k"
  let ?L = "k' @ (RB_RIGHT, c, a, l) # k" and ?r = "zip_up k' child"
  let ?F = "F(a \<mapsto> enc_c (kpar k) c RB_LEFT (root_addr l) (root_addr r))"
    and ?F1 = "F(b \<mapsto> enc_c (kpar k') cs RB_LEFT 0 (root_addr child))"
  obtain j J' where J': "J = j # J'" using J by (cases J) auto
  let ?rp = "drop (length k') J'"
  have fits: "length k' < length J" "?rp \<noteq> []" using J J' by auto
  note reads = successor_reads_c(1-5,7-10) [where F = F, OF z lr out fits(1) r refl]
    successor_reads_c(6) [where F = F and sd = sd, OF z lr out fits(1) r refl]
  note facts = distant_facts [OF z [folded r] k']
  have kp: "kpar ?L = kpar k'" "kdir ?L = kdir k'" "kok k"
    using k' z by (simp_all add: kpar_append zok_def) (cases k' rule: kpar.cases; simp)
  have par: "rp_parent (rp_at sd (steps ?L) ?rp) 0 = Some (kpar k')" "rp_dir (rp_at sd (steps ?L) ?rp) 0 = Some (kdir k')"
    unfolding rp_parent_steps rp_dir_steps kp by simp_all
  have z': "zok ?K child" "zok ?L child" using facts(1,2) by (simp_all add: zok_append zok_focus)
  have "st enc_c ?F1 ?L child = st enc_c ?F1 k (Node l c a ?r)"
    using z' by (intro st_move) (simp_all add: zip_up_append)
  then have unlinked: "rb_set_child_c (kpar k') (kdir k') (root_addr child) ?s = Some (st enc_c ?F1 k (Node l c a ?r))"
    using unlink_c [of ?L RB_LEFT cs b child ?s F] reads(8,9) kp by (simp add: hang_def)
  have "rb_remove_c a (rp_at sd (steps k) J) ?s = do {
      s \<leftarrow> rb_set_child_c (kpar k') (kdir k') (root_addr child) ?s;
      s \<leftarrow> do {
        s \<leftarrow> rb_copy_right_child_c b a s;
        s \<leftarrow> rb_copy_left_child_color_c b a s;
        hang k b s };
      if color_bit cs = (RB_BLACK :: 'a word)
      then rb_remove_color_c (root_addr child) (rp_at sd (steps k' @ (RB_RIGHT, b) # steps k) ?rp) s else Some s }"
    using reads(1-7,10) par facts(9) J' unfolding hang_if [OF kp(3), of sd, symmetric]
    by (simp add: rb_remove_c_def rp_parent_steps rp_dir_steps rp_set_parent_steps Let_def split del: if_split)
  also have "\<dots> = Some (st enc_c ?F [] (rem_del ?K cs child))"
    unfolding unlinked bind.bind_lunit replace_c [OF facts(1,3-7) fun_upd_same refl]
    using fits facts(11) r st_shadow [of b k "Node l c b ?r" enc_c ?F]
    by (intro successor_placed_c [OF rb] z') (simp_all add: fun_upd_twist [OF facts(4)])
  finally show ?thesis .
qed


text \<open>Removal of any node of a tree whose height is less than the length of the path.\<close>

lemma rb_remove_c_st:
  assumes z: "zok k (Node l c a r)" and rb: "rb_tree (zip_up k (Node l c a r))"
    and room: "rb_height (zip_up k (Node l c a r)) \<le> length k + length J"
  shows "rb_remove_c a (rp_at sd (steps k) J) (st enc_c F k (Node l c a r)) =
    Some (st enc_c (F(a \<mapsto> enc_c (kpar k) c RB_LEFT (root_addr l) (root_addr r))) [] (rem k (Node l c a r)))"
proof -
  have J: "J \<noteq> []" using room length_le_height [of k "Node l c a r"] by auto
  consider (left) "l = Leaf" | (right) "l \<noteq> Leaf" "r = Leaf" | (two) "l \<noteq> Leaf" "r \<noteq> Leaf"
    by blast
  then show ?thesis
  proof cases
    case left
    with rb_remove_c_one_child [of k RB_LEFT c a r J sd F] z rb J show ?thesis by simp
  next
    case right
    with rb_remove_c_one_child [of k RB_RIGHT c a l J sd F] z rb J enc_c_flip [of _ _ RB_LEFT] show ?thesis
      by (cases l) simp_all
  next
    case two
    then obtain k' cs b child where
      rem: "rem k (Node l c a r) = rem_del (k' @ (RB_RIGHT, c, b, l) # k) cs child"
      and r: "zip_up k' (Node Leaf cs b child) = r"
      and out: "outer RB_LEFT [] r = (k', Node Leaf cs b child)"
      using rem_two by metis
    have fits: "Suc (length k') < length J"
      using room length_le_height [of "k' @ (RB_RIGHT, c, a, l) # k" "Node Leaf cs b child"] r
      by (simp add: zip_up_append)
    show ?thesis
    proof (cases "k' = []")
      case True
      with r rem z rb two fits rb_remove_c_adjacent [of k l c a cs b child J sd F] show ?thesis by auto
    next
      case False
      with rb_remove_c_distant [OF z two _ out r _ fits, of sd F] rb r rem show ?thesis by simp
    qed
  qed
qed

end
