(* ===== verification/RB_Compact_Map.thy ===== *)
theory RB_Compact_Map
  imports RB_Compact_Remove
begin

text \<open>
  The tree without parent pointers as a dictionary: the functions that \<open>RB_GEN\<close> of
  \<open>rbtree/rbtree_compact.h\<close> generates and the iteration of \<open>rbtree/rbtree_compact.c\<close>. A search
  returns exactly when its way down fits into the array of the \<open>RB_PATH\<close>; with a bound on the number
  of entries it always does.
\<close>

section \<open>The way to a key\<close>

lemma length_locate: "length k \<le> length (fst (locate f k t))"
proof (induction f k t rule: locate.induct)
  case (2 f k l c a r)
  then show ?case by (cases "f a"; cases "the (f a)") fastforce+
qed simp

lemma length_locate_height: "length (fst (locate f [] t)) \<le> rb_height t"
  using length_le_height [of "fst (locate f [] t)" "snd (locate f [] t)"] zip_up_locate [of f "[]" t] by simp

text \<open>The path after a search that started with the path \<open>rp_at sd (steps k) J\<close>, if it fits.\<close>

definition located :: "rb_dir \<Rightarrow> 'w::len word frame list \<Rightarrow> 'w word RB_PATH_ENTRY list \<Rightarrow> 'w word frame list
    \<Rightarrow> 'w word RB_PATH option" where
  "located sd k J k' = (if length k' \<le> length k + length J
    then Some (rp_at sd (steps k') (drop (length k' - length k) J)) else None)"

lemma located_same [simp]: "located sd k J k = Some (rp_at sd (steps k) J)"
  by (simp add: located_def)

lemma located_step:
  assumes "Suc (length k) \<le> length k'"
  shows "located sd k [] k' = None" and "located sd k (j # J) k' = located sd (f # k) J k'"
  using assms by (auto simp: located_def drop_Cons')

lemma rb_find_loop_c_st:
  assumes "zok k t" and f: "\<forall>a. cmp_dir (key_cmp ky (RB_ENTRY offset a)) = f a"
  shows "rb_find_loop_c offset key_cmp ky (root_addr t) (rp_at sd (steps k) J) (st enc_c F k t) =
    do { rp \<leftarrow> located sd k J (fst (locate f k t));
      Some (case snd (locate f k t) of Leaf \<Rightarrow> 0 | Node l c a r \<Rightarrow> RB_ENTRY offset a, rp) }"
  using assms(1)
proof (induction k t arbitrary: J rule: locate_induct [where f = f])
  case (Leaf k)
  show ?case by (subst rb_find_loop_c.simps) simp
next
  case (Found k l c a r)
  then have "a \<noteq> 0" by (simp add: zok_def node_addr_def)
  with Found f show ?case by (subst rb_find_loop_c.simps) simp
next
  case (Step k d c a x y)
  let ?k = "(d, c, a, y) # k"
  have "a \<noteq> 0" "zok ?k x" using Step(3) by (simp_all add: zok_focus) (simp add: zok_def node_addr_def)
  moreover have "Suc (length k) \<le> length (fst (locate f ?k x))" using length_locate [of ?k f x] by simp
  note step = located_step(1) [OF this] located_step(2) [OF this, of sd _ _ "(d, c, a, y)"]
  ultimately show ?case
    using Step f by (subst rb_find_loop_c.simps)
      (cases J; simp add: compact_mem.child_at locate_mk st_focus step)
qed

lemma rb_find_c_st:
  assumes "tok t" and "rp_path rp = j # J" and "locate (key_search key_cmp offset ky) [] t = (k, t')"
  shows "rb_find_c offset key_cmp ky rp (st enc_c F [] t) =
    do { rp \<leftarrow> located (rpe_dir j) [] J k;
      Some (case t' of Leaf \<Rightarrow> 0 | Node l c a r \<Rightarrow> RB_ENTRY offset a, rp) }"
  using assms rb_find_loop_c_st [where f = "key_search key_cmp offset ky" and k = "[]" and t = t
      and key_cmp = key_cmp and ky = ky and offset = offset and sd = "rpe_dir j" and J = J and F = F]
  by (simp add: rb_find_c_def RB_PATH_INIT_at rb_root_st key_search_def)

section \<open>Insertion\<close>

lemma rb_insert_loop_c_st:
  assumes "zok k t" and f: "\<forall>a. cmp_dir (cmp node (RB_ENTRY offset a)) = f a" and "t \<noteq> Leaf"
  shows "rb_insert_loop_c offset cmp node (root_addr t) (rp_at sd (steps k) J) (st enc_c F k t) =
    do { rp \<leftarrow> located sd k J (fst (locate f k t));
      Some (case snd (locate f k t) of Leaf \<Rightarrow> Inr (kdir (fst (locate f k t)), rp) | Node l c a r \<Rightarrow> Inl (RB_ENTRY offset a)) }"
  using assms(1,3)
proof (induction k t arbitrary: J rule: locate_induct [where f = f])
  case (Found k l c a r)
  with f show ?case by (subst rb_insert_loop_c.simps) simp
next
  case (Step k d c a x y)
  let ?k = "(d, c, a, y) # k"
  have "root_addr x \<noteq> 0 \<longleftrightarrow> x \<noteq> Leaf" "zok ?k x" using Step(3) by (simp_all add: zok_focus) (simp add: zok_def)
  moreover have "Suc (length k) \<le> length (fst (locate f ?k x))" using length_locate [of ?k f x] by simp
  note step = located_step(1) [OF this] located_step(2) [OF this, of sd _ _ "(d, c, a, y)"]
  ultimately show ?case
    using Step f unfolding locate_mk [where f = f, OF Step(1)] by (subst rb_insert_loop_c.simps)
      (cases J; cases "x = Leaf"; simp add: compact_mem.child_at st_focus step Let_def)
qed simp

text \<open>The new node becomes a red leaf in the hole of the context.\<close>

lemma attach_c:
  assumes z: "kok k" and x: "node_addr x" "x \<notin> kaddrs k" "F x = Some n" and s: "s = st enc_c F k Leaf"
  shows "do {
      s \<leftarrow> hang k x s;
      s \<leftarrow> rb_set_left_child_color_c x 0 RB_RED s;
      rb_set_right_child_c x 0 s } =
    Some (st enc_c F k (Node Leaf Red x Leaf))"
proof -
  have lx: "load x s = Some n" "x \<noteq> 0"
    using x unfolding s
    by (simp_all add: load_def st_def ctx_heap_notin map_add_def node_addr_def)
  have new: "n\<lparr>rb_child_color := (rb_child_color n)(RB_LEFT := RB_RED, RB_RIGHT := 0)\<rparr> = enc_c q Red RB_LEFT 0 0" for q
    by (cases n) (simp add: enc_c_def rb_dir_fun_eq)
  note ops = rb_set_left_child_color_c_def rb_set_right_child_c_def store_case load_upd
  show ?thesis
  proof (cases k rule: kpar.cases)
    case 1
    with lx new [of 0] show ?thesis
      by (simp add: hang_def ops) (insert x, auto simp: heap_eq_c s)
  next
    case (2 d c a t k')
    then have a: "load a s = Some (enc_c (kpar k') c d 0 (root_addr t))" "a \<noteq> 0" "x \<noteq> a" "aligned (root_addr t)"
      using z x unfolding s by (auto simp: load_ctx zok_def node_addr_def aligned_root_addr)
    with lx new [of 0] show ?thesis
      unfolding hang_Cons [OF 2 a(1) aligned_0 a(4)] bind.bind_lunit
      by (simp add: ops) (insert x z 2, auto simp: heap_eq_c s)
  qed
qed

text \<open>Insertion on a state that holds a red-black tree, if the way down fits into the path.\<close>

lemma rb_insert_c_st:
  assumes t: "tok t" "rb_tree t" and f: "\<forall>a. cmp_dir (cmp node (RB_ENTRY offset a)) = f a"
    and x: "x = node + offset" "node_addr x" "snd (locate f [] t) = Leaf \<Longrightarrow> x \<notin> addrs t \<and> F x \<noteq> None"
    and rp: "length (fst (locate f [] t)) < length (rp_path rp)"
  shows "rb_insert_c offset cmp rp node (st enc_c F [] t) =
    (case locate f [] t of
       (k, Leaf) \<Rightarrow> Some (node, st enc_c F [] (ins_fix k (Node Leaf Red x Leaf)))
     | (k, Node l c a r) \<Rightarrow> Some (RB_ENTRY offset a, st enc_c F [] t))"
proof -
  obtain j J where J: "rp_path rp = j # J" using rp by (cases "rp_path rp") auto
  obtain k t' where loc: "locate f [] t = (k, t')" by fastforce
  have zip: "zip_up k t' = t" using zip_up_locate [of f "[]" t] loc by simp
  have z: "zok k t'" using t(1) zip by (simp add: zok_zip_up)
  have s: "st enc_c F [] t = st enc_c F k t'" using z zip by (intro st_move [symmetric]) simp_all
  have fits: "length k \<le> length J" using rp J loc by simp
  let ?rp = "rp_at (rpe_dir j) (steps k) (drop (length k) J)"
  have root: "t = Leaf \<longleftrightarrow> k = [] \<and> t' = Leaf" "root_addr t \<noteq> 0 \<longleftrightarrow> t \<noteq> Leaf"
    using zip loc t(1) by (cases k; auto)+
  have loop: "rb_insert_loop_c offset cmp node (root_addr t) (rp_at (rpe_dir j) [] J) (st enc_c F [] t) =
      Some (case t' of Leaf \<Rightarrow> Inr (kdir k, ?rp) | Node l c a r \<Rightarrow> Inl (RB_ENTRY offset a))"
    if "t \<noteq> Leaf"
    using that t(1) fits rb_insert_loop_c_st [of "[]" t cmp node offset f "rpe_dir j" J F, OF _ f]
    unfolding loc fst_conv snd_conv by (simp add: located_def)
  show ?thesis
  proof (cases t')
    case (Node l c a r)
    with loc root loop t(1) J show ?thesis
      by (auto simp: rb_insert_c_def rb_root_st RB_PATH_INIT_at)
  next
    case Leaf
    have c: "cctx k Black" using t(2) zip Leaf rb_tree_zip_up [of k t'] by simp
    obtain n where n: "F x = Some n" "x \<notin> addrs t" using x(3) loc Leaf by auto
    have k: "kok k" "x \<notin> kaddrs k" "zok k (Node Leaf Red x Leaf)"
      using z x(2) n(2) zip addrs_zip_up [of k t'] Leaf by (auto simp: zok_def)
    have "rb_insert_c offset cmp rp node (st enc_c F [] t) = do {
        s \<leftarrow> do {
          s \<leftarrow> hang k x (st enc_c F k Leaf);
          s \<leftarrow> rb_set_left_child_color_c x 0 RB_RED s;
          rb_set_right_child_c x 0 s };
        s \<leftarrow> rb_insert_color_c ?rp s;
        Some (node, s) }"
      using loc Leaf root loop x(1) s J rp_parent_steps [of "rpe_dir j" k "drop (length k) J"]
        root_addr_zip_up [of k Leaf] zip
      by (cases "t = Leaf") (simp_all add: rb_insert_c_def rb_root_st RB_PATH_INIT_at Let_def hang_def)
    also have "\<dots> = Some (node, st enc_c F [] (ins_fix k (Node Leaf Red x Leaf)))"
      unfolding attach_c [where F = F, OF k(1) x(2) k(2) n(1) refl] bind.bind_lunit
      using rb_insert_color_c_st [OF k(3) c, of "rpe_dir j" "drop (length k) J" F] by simp
    finally show ?thesis by (simp add: loc Leaf)
  qed
qed

text \<open>Insertion writes beyond the array if it does not.\<close>

lemma rb_insert_c_overflow:
  assumes t: "tok t" and f: "\<forall>a. cmp_dir (cmp node (RB_ENTRY offset a)) = f a"
    and rp: "length (rp_path rp) \<le> length (fst (locate f [] t))" "0 < length (rp_path rp)"
  shows "rb_insert_c offset cmp rp node (st enc_c F [] t) = None"
proof -
  obtain j J where J: "rp_path rp = j # J" using rp(2) by (cases "rp_path rp") auto
  have t': "t \<noteq> Leaf" "root_addr t \<noteq> 0" using rp t J by (cases t; auto simp: node_addr_def)+
  have "located (rpe_dir j) [] J (fst (locate f [] t)) = None"
    using rp(1) J by (simp add: located_def)
  with t t' J rb_insert_loop_c_st [of "[]" t cmp node offset f "rpe_dir j" J F, OF _ f] show ?thesis
    by (simp add: rb_insert_c_def rb_root_st RB_PATH_INIT_at)
qed

section \<open>Iteration\<close>

lemma length_rp_at [simp]: "length (rp_path (rp_at sd ps J)) = Suc (length ps + length J)"
  by (simp add: rp_at_def)

text \<open>The path \<open>rp\<close> leads to the node \<open>a\<close> of the tree \<open>t\<close>.\<close>

definition path_to :: "'w::len word rbt \<Rightarrow> 'w word \<Rightarrow> 'w word RB_PATH \<Rightarrow> bool" where
  "path_to t a rp \<longleftrightarrow> (\<exists>k l c r sd J. t = zip_up k (Node l c a r) \<and> rp = rp_at sd (steps k) J)"

lemma path_toI: "t = zip_up k (mk d c a x y) \<Longrightarrow> path_to t a (rp_at sd (steps k) J)"
  unfolding path_to_def by (cases d) auto

lemma climb_dropWhile: "climb d k = dropWhile (\<lambda>f. fst f = d) k"
  by (induction d k rule: climb.induct) simp_all

lemma ahead_eq_Nil: "ahead d k = [] \<longleftrightarrow> climb d k = []"
  by (induction d k rule: climb.induct) simp_all

lemma rb_ascend_c_st:
  assumes "kok k"
  shows "\<exists>J'. rb_ascend_c d (rp_at sd (steps k) J) = Some (kpar (climb d k), rp_at sd (steps (tl (climb d k))) J') \<and>
    length (tl (climb d k)) + length J' = length k + length J"
  using assms
proof (induction d k arbitrary: J rule: climb.induct)
  case (1 d)
  show ?case by (rule exI [of _ J], subst rb_ascend_c.simps) simp
next
  case (2 d e c a s k)
  then have a: "a \<noteq> 0" by (simp add: node_addr_def)
  have e: "e = flip d \<longleftrightarrow> e \<noteq> d" by (cases d; cases e) simp_all
  from 2 a e show ?case by (subst rb_ascend_c.simps) (fastforce split: if_splits)
qed

lemma rb_iter_next_c_st:
  assumes z: "zok k (mk d c a x y)" and t: "t = zip_up k (mk d c a x y)"
    and room: "rb_height t \<le> length k + length J"
  shows "\<exists>rp'. rb_iter_next_c a d (rp_at sd (steps k) J) (st enc_c F k (mk d c a x y)) =
      Some (hd_or_null (dseq d x @ ahead d k), rp') \<and>
    length (rp_path rp') = Suc (length k + length J) \<and>
    (dseq d x @ ahead d k \<noteq> [] \<longrightarrow> path_to t (hd (dseq d x @ ahead d k)) rp')"
proof (cases "x = Leaf")
  case True
  obtain J' where up: "rb_ascend_c d (rp_at sd (steps k) J) = Some (kpar (climb d k), rp_at sd (steps (tl (climb d k))) J')"
    "length (tl (climb d k)) + length J' = length k + length J"
    using rb_ascend_c_st [of k d sd J] z by (auto simp: zok_def)
  have "path_to t (hd (ahead d k)) (rp_at sd (steps (tl (climb d k))) J')" if ne: "ahead d k \<noteq> []"
  proof -
    obtain e c' b s' k2 where c: "climb d k = (e, c', b, s') # k2"
      using ne ahead_eq_Nil [of d k] by (cases "climb d k" rule: kpar.cases) auto
    then obtain k1 where "k = k1 @ (e, c', b, s') # k2"
      using takeWhile_dropWhile_id [of "\<lambda>f. fst f = d" k] climb_dropWhile [of d k] by metis
    then have "t = zip_up k2 (mk e c' b (zip_up k1 (mk d c a x y)) s')"
      using t by (simp add: zip_up_append)
    then have "path_to t b (rp_at sd (steps k2) J')" by (rule path_toI)
    moreover have "hd (ahead d k) = b"
      using hd_climb [of d k] c ne by (cases "ahead d k") auto
    ultimately show ?thesis using c by simp
  qed
  with True z up compact_mem.child_at [OF z, of F] show ?thesis
    by (auto simp: rb_iter_next_c_def hd_climb zok_def node_addr_def)
next
  case False
  let ?k = "(d, c, a, y) # k"
  have x: "st enc_c F k (mk d c a x y) = st enc_c F ?k x" "zok ?k x" "a \<noteq> 0" "root_addr x \<noteq> 0"
    using z False by (simp_all add: st_focus zok_focus) (simp_all add: zok_def node_addr_def)
  obtain k' c' b y' where out: "outer (flip d) ?k x = (k' @ ?k, mk (flip d) c' b Leaf y')"
    "zip_up k' (mk (flip d) c' b Leaf y') = x"
    using False by (rule outer_spec)
  have hd: "hd (dseq d x) = b" using hd_outer [OF False, of "flip d" ?k] out by simp
  have tk: "t = zip_up (k' @ ?k) (mk (flip d) c' b Leaf y')"
    using t out by (simp add: zip_up_append)
  have fits: "Suc (length k' + length k) < length k + length J"
    using room length_le_height [of "k' @ ?k" "mk (flip d) c' b Leaf y'"] tk by simp
  then obtain j J' where J: "J = j # J'" by (cases J) auto
  let ?rp = "rp_at sd (steps (k' @ ?k)) (drop (length k') J')"
  have "rb_iter_next_c a d (rp_at sd (steps k) J) (st enc_c F k (mk d c a x y)) = Some (b, ?rp)"
    using x fits J compact_mem.child_at [OF z, of F] rb_descend_c_st [OF False x(2), of "flip d" sd J' F] out
    by (simp add: rb_iter_next_c_def)
  moreover have "path_to t b ?rp" using tk by (rule path_toI)
  ultimately show ?thesis
    using hd False fits J by (auto simp: hd_or_null_append)
qed


lemma rb_iter_c_st:
  assumes t: "tok t" and rp: "rb_height t < length (rp_path rp)"
  shows "\<exists>rp'. rb_iter_c d rp (st enc_c F [] t) = Some (hd_or_null (dseq (flip d) t), rp') \<and>
    length (rp_path rp') = length (rp_path rp) \<and> (t \<noteq> Leaf \<longrightarrow> path_to t (hd (dseq (flip d) t)) rp')"
proof -
  obtain j J where J: "rp_path rp = j # J" using rp by (cases "rp_path rp") auto
  show ?thesis
  proof (cases "t = Leaf")
    case True
    with J show ?thesis by (simp add: rb_iter_c_def RB_PATH_INIT_at rb_root_st)
  next
    case False
    obtain k' c' b y' where out: "outer d [] t = (k' @ [], mk d c' b Leaf y')" "zip_up k' (mk d c' b Leaf y') = t"
      using False by (rule outer_spec)
    have fits: "length k' \<le> length J"
      using rp J out(2) length_le_height [of k' "mk d c' b Leaf y'"] by simp
    let ?rp = "rp_at (rpe_dir j) (steps k') (drop (length k') J)"
    have "rb_iter_c d rp (st enc_c F [] t) = Some (b, ?rp)"
      using J t False out fits rb_descend_c_st [OF False, of "[]" d "rpe_dir j" J F]
      by (simp add: rb_iter_c_def RB_PATH_INIT_at rb_root_st Let_def)
    moreover have "path_to t b ?rp" by (rule path_toI [OF out(2) [symmetric]])
    moreover have "hd (dseq (flip d) t) = b" using hd_outer [OF False, of d "[]"] out by simp
    moreover have "hd_or_null (dseq (flip d) t) = hd (dseq (flip d) t)"
      using False hd_or_null_append [of "dseq (flip d) t" "[]"] by simp
    ultimately show ?thesis using J fits by auto
  qed
qed

section \<open>The dictionary\<close>

abbreviation rb_holds_c :: "'w::len rbc \<Rightarrow> 'w word rbt \<Rightarrow> bool" where
  "rb_holds_c \<equiv> holds enc_c"

text \<open>The operations that a user calls; \<open>rp0\<close> are the initial contents of the local \<open>RB_PATH\<close>.\<close>

fun rb_step_c :: "'w::len word \<Rightarrow> ('w word \<Rightarrow> 'w word \<Rightarrow> int) \<Rightarrow> ('k \<Rightarrow> 'w word \<Rightarrow> int) \<Rightarrow> 'w word RB_PATH
    \<Rightarrow> ('w word, 'k) dict_op \<Rightarrow> 'w rbc \<Rightarrow> ('w word \<times> 'w rbc) option" where
  "rb_step_c offset cmp key_cmp rp0 (RB_INSERT node) s = rb_insert_c offset cmp rp0 node s"
| "rb_step_c offset cmp key_cmp rp0 (RB_REMOVE k) s = rb_remove_key_c offset key_cmp rp0 k s"
| "rb_step_c offset cmp key_cmp rp0 (RB_FIND k) s = do { (e, rp) \<leftarrow> rb_find_c offset key_cmp k rp0 s; Some (e, s) }"

text \<open>
  A client that never has more entries in a tree than the paths are made for: the square of their
  number is less than \<open>2 ^ n\<close>, where \<open>n\<close> is the length of a path.
\<close>

locale compact_client = rb_client cmp key_cmp key_of K offset N
  for cmp :: "'w::len word \<Rightarrow> 'w word \<Rightarrow> int" and key_cmp :: "'k::linorder \<Rightarrow> 'w word \<Rightarrow> int"
    and key_of :: "'w word \<Rightarrow> 'k" and K :: "'k set" and offset :: "'w word" and N :: "'w word set" +
  fixes rp0 :: "'w word RB_PATH"
  assumes few_entries: "(Suc (card N))\<^sup>2 < 2 ^ length (rp_path rp0)"
begin

lemma finite_entries: "finite N"
  by simp

lemma height_fits:
  assumes "tree_ok key_of offset N t"
  shows "rb_height t < length (rp_path rp0)"
proof -
  have "distinct (entries offset t)"
    using tree_map_distinct [OF assms] by (simp add: distinct_map)
  from distinct_card [OF this] have "length (inorder t) = card (set (entries offset t))"
    by (simp add: entries_def)
  also have "\<dots> \<le> card N"
    using assms by (intro card_mono finite_entries) (simp add: tree_ok_def)
  finally have "(Suc (length (inorder t)))\<^sup>2 \<le> (Suc (card N))\<^sup>2" by (intro power_mono) simp_all
  moreover have "2 ^ rb_height t \<le> (Suc (length (inorder t)))\<^sup>2"
    using assms by (intro rb_height_bound) (simp add: tree_ok_def)
  ultimately have "(2 :: nat) ^ rb_height t < 2 ^ length (rp_path rp0)"
    using few_entries by linarith
  then show ?thesis by simp
qed

text \<open>On the trees of such a client, the generated functions do what the contract asks for.\<close>

lemma rb_find_tree_c:
  assumes t: "tree_ok key_of offset N t" and loc: "locate (key_search key_cmp offset k) [] t = (kk, t')"
  obtains sd J where "rb_find_c offset key_cmp k rp0 (st enc_c F [] t) =
      Some (case t' of Leaf \<Rightarrow> 0 | Node l c a r \<Rightarrow> RB_ENTRY offset a, rp_at sd (steps kk) J)"
    and "rb_height t \<le> length kk + length J"
proof -
  obtain j J where J: "rp_path rp0 = j # J" using height_fits [OF t] by (cases "rp_path rp0") auto
  have zip: "zip_up kk t' = t" using zip_up_locate [of "key_search key_cmp offset k" "[]" t] loc by simp
  have fits: "length kk \<le> length J" "rb_height t \<le> length J"
    using height_fits [OF t] J length_le_height [of kk t'] zip by simp_all
  have "rb_find_c offset key_cmp k rp0 (st enc_c F [] t) =
      Some (case t' of Leaf \<Rightarrow> 0 | Node l c a r \<Rightarrow> RB_ENTRY offset a, rp_at (rpe_dir j) (steps kk) (drop (length kk) J))"
    using t fits rb_find_c_st [OF _ J loc, of F] by (simp add: located_def tree_ok_def)
  with fits show thesis by (intro that [of "rpe_dir j" "drop (length kk) J"]) auto
qed

lemma rb_insert_tree_c:
  assumes t: "tree_ok key_of offset N t" and e: "e \<in> N"
    and loc: "locate (key_search key_cmp offset (key_of e)) [] t = (kk, t')"
    and new: "t' = Leaf \<Longrightarrow> e + offset \<notin> addrs t \<and> F (e + offset) \<noteq> None"
  shows "rb_insert_c offset cmp rp0 e (st enc_c F [] t) =
    (case t' of
       Leaf \<Rightarrow> Some (e, st enc_c F [] (ins_fix kk (Node Leaf Red (e + offset) Leaf)))
     | Node l c a r \<Rightarrow> Some (RB_ENTRY offset a, st enc_c F [] t))"
  using t new entry_node [OF e] height_fits [OF t] node_locate [OF t e] loc
    length_locate_height [of "key_search key_cmp offset (key_of e)" t]
    rb_insert_c_st [of t cmp e offset "\<lambda>a. cmp_dir (cmp e (RB_ENTRY offset a))" "e + offset" F rp0]
  by (simp add: tree_ok_def)

lemma rb_remove_tree_c:
  assumes t: "tree_ok key_of offset N t"
    and loc: "locate (key_search key_cmp offset k) [] t = (kk, Node l c a r)"
    and room: "rb_height t \<le> length kk + length J"
  shows "\<exists>F'. rb_remove_c a (rp_at sd (steps kk) J) (st enc_c F [] t) = Some (st enc_c F' [] (rem kk (Node l c a r))) \<and>
    dom F \<subseteq> dom F'"
proof -
  have zip: "zip_up kk (Node l c a r) = t"
    using zip_up_locate [of "key_search key_cmp offset k" "[]" t] loc by simp
  then have z: "zok kk (Node l c a r)" "rb_tree (zip_up kk (Node l c a r))"
    using t by (simp_all add: zok_zip_up tree_ok_def)
  then have "st enc_c F [] t = st enc_c F kk (Node l c a r)"
    using zip by (intro st_move [symmetric]) simp_all
  with rb_remove_c_st [OF z, of J sd F] room zip show ?thesis by auto
qed

end

sublocale compact_client \<subseteq> compact: tree_impl cmp key_cmp key_of K offset N enc_c "rb_step_c offset cmp key_cmp rp0"
proof
  fix t kk t' k and F :: "'w word \<Rightarrow> 'w word RB_NODE_c option"
  assume t: "tree_ok key_of offset N t"
  show "rb_step_c offset cmp key_cmp rp0 (RB_FIND k) (st enc_c F [] t) =
      Some (case t' of Leaf \<Rightarrow> 0 | Node l c a r \<Rightarrow> RB_ENTRY offset a, st enc_c F [] t)"
    if "locate (key_search key_cmp offset k) [] t = (kk, t')"
    by (rule rb_find_tree_c [OF t that, of F]) simp
  show "rb_step_c offset cmp key_cmp rp0 (RB_REMOVE k) (st enc_c F [] t) = Some (0, st enc_c F [] t)"
    if "locate (key_search key_cmp offset k) [] t = (kk, Leaf)"
    by (rule rb_find_tree_c [OF t that, of F]) (simp add: rb_remove_key_c_def)
  show "rb_step_c offset cmp key_cmp rp0 (RB_INSERT e) (st enc_c F [] t) = Some (RB_ENTRY offset a, st enc_c F [] t)"
    if "e \<in> N" "locate (key_search key_cmp offset (key_of e)) [] t = (kk, Node l c a r)" for e l c a r
    using rb_insert_tree_c [OF t that, of F] by simp
  show "rb_step_c offset cmp key_cmp rp0 (RB_INSERT e) (st enc_c F [] t) =
      Some (e, st enc_c F [] (ins_fix kk (Node Leaf Red (e + offset) Leaf)))"
    if "e \<in> N" "F (e + offset) = Some n" "e + offset \<notin> addrs t"
      "locate (key_search key_cmp offset (key_of e)) [] t = (kk, Leaf)" for e n
    using rb_insert_tree_c [OF t that(1,4), of F] that(2,3) by simp
  show "\<exists>F'. rb_step_c offset cmp key_cmp rp0 (RB_REMOVE k) (st enc_c F [] t) =
      Some (e, st enc_c F' [] (rem kk (Node l c (e + offset) r))) \<and> dom F \<subseteq> dom F'"
    if loc: "locate (key_search key_cmp offset k) [] t = (kk, Node l c (e + offset) r)" and e: "e \<noteq> 0" for l c e r
  proof -
    obtain sd J where "rb_find_c offset key_cmp k rp0 (st enc_c F [] t) = Some (e, rp_at sd (steps kk) J)"
      "rb_height t \<le> length kk + length J"
      by (rule rb_find_tree_c [OF t loc, of F]) simp
    with rb_remove_tree_c [OF t loc, of J sd F] e show ?thesis by (auto simp: rb_remove_key_c_def)
  qed
qed

context compact_client
begin

lemmas compact_run_from_empty = compact.run_from_empty
lemmas compact_run_tree = compact.run_tree

end

text \<open>
  The clients of \<open>rbtree/test_rbtree.c\<close> keep their entries in an array: \<open>n\<close> elements of \<open>stride\<close> bytes
  from the address \<open>base\<close> on.
\<close>

definition a_array :: "('w::len word \<Rightarrow> int) \<Rightarrow> 'w word \<Rightarrow> 'w word \<Rightarrow> nat \<Rightarrow> nat \<Rightarrow> 'w word set" where
  "a_array vals offset base stride n =
    a_nodes vals offset \<inter> (\<lambda>i. base + word_of_nat (i * stride)) ` {..<n}"

definition local_path :: "'w::len word RB_PATH_ENTRY \<Rightarrow> int \<Rightarrow> 'w word RB_PATH" where
  "local_path e c = \<lparr>rp_path = replicate LENGTH('w) e, rp_cur = c\<rparr>"

lemma card_a_array: "card (a_array vals offset base stride n) \<le> n"
proof -
  have "card (a_array vals offset base stride n) \<le> card ((\<lambda>i. base + word_of_nat (i * stride)) ` {..<n})"
    unfolding a_array_def by (intro card_mono) simp_all
  also have "\<dots> \<le> card {..<n}" by (rule card_image_le) simp
  finally show ?thesis by simp
qed

lemma few_square:
  assumes "n \<le> 2 ^ (w div 2) - 2" and "0 < w"
  shows "(Suc n)\<^sup>2 < 2 ^ w"
proof (cases "w = 1")
  case False
  then have "(2 :: nat) \<le> 2 ^ (w div 2)" using assms(2) power_increasing [of 1 "w div 2" "2 :: nat"] by simp
  then have "Suc n < 2 ^ (w div 2)" using assms(1) by linarith
  then have "(Suc n)\<^sup>2 < (2 ^ (w div 2))\<^sup>2" by (intro power_strict_mono) simp_all
  also have "\<dots> = 2 ^ (w div 2 * 2)" by (simp add: power_mult)
  also have "\<dots> \<le> 2 ^ w" by (intro power_increasing) simp_all
  finally show ?thesis .
qed (use assms in simp)

interpretation a_compact: compact_client "A_NODE_CMP vals" "A_NODE_KEY_CMP vals" vals safe_keys offset
    "a_array vals offset base stride (2 ^ (LENGTH('w) div 2) - 2)" "local_path e c"
  for vals :: "'w::len word \<Rightarrow> int" and offset base stride e c
proof
  show "(Suc (card (a_array vals offset base stride (2 ^ (LENGTH('w) div 2) - 2))))\<^sup>2 < 2 ^ length (rp_path (local_path e c))"
    by (simp add: local_path_def few_square card_a_array)
qed (simp_all add: a_array_def a_nodes_def)

section \<open>Properties\<close>

definition ex_state_c :: "64 rbc" where
  "ex_state_c = st enc_c (\<lambda>a. Some \<lparr>rb_child_color = (\<lambda>d. 7)\<rparr>) [] ex_tree"

lemma ex_holds_c: "rb_holds_c ex_state_c ex_tree"
  unfolding ex_state_c_def using ex_tok ex_rb_tree by (rule st_holds)

text \<open>
  C2. The tree without parent pointers is a finite map, too: any sequence of insertions, removals
  and lookups on an initialised tree returns what a map returns, as long as the square of the number
  of entries is less than \<open>2 ^ n\<close>, where \<open>n\<close> is the number of bits of a pointer and so the number of
  entries of a path, whatever the uninitialised path contains.
\<close>

theorem compact_run_is_map:
  fixes cmp :: "'w::len word \<Rightarrow> 'w word \<Rightarrow> int" and key_of :: "'w word \<Rightarrow> 'k::linorder"
  assumes "rb_client cmp key_cmp key_of K offset N" and "\<forall>e\<in>N. rb_heap s (e + offset) \<noteq> None"
    and "length (rp_path rp) = LENGTH('w)" and "(Suc (card N))\<^sup>2 < 2 ^ LENGTH('w)"
    and "list_all (legal_op K N) ops"
  shows "\<exists>s' t. run_ops (rb_step_c offset cmp key_cmp rp) ops (RB_ROOT_INIT_c s) =
      Some (fst (dict_spec_run key_of ops Map.empty), s') \<and>
    rb_holds_c s' t \<and> sorted_wrt (<) (map key_of (entries offset t)) \<and>
    tree_map key_of offset t = snd (dict_spec_run key_of ops Map.empty)"
proof -
  have "compact_client cmp key_cmp key_of K offset N rp"
    using assms(1,3,4) by (simp add: compact_client_def compact_client_axioms_def)
  then show ?thesis
    using assms(2) by (intro compact_client.compact_run_from_empty [OF _ _ _ assms(5)]) (simp_all add: RB_ROOT_INIT_c_def)
qed

theorem compact_run_is_map_witness:
  "\<exists>s' t. run_ops (rb_step_c 8 (A_NODE_CMP (\<lambda>e. uint e div 8192)) (A_NODE_KEY_CMP (\<lambda>e. uint e div 8192))
        (local_path \<lparr>rpe_parent = 5, rpe_dir = RB_RIGHT\<rparr> 99))
      [RB_INSERT 0x2000, RB_INSERT 0x6000, RB_INSERT 0x4000, RB_INSERT 0x3000, RB_FIND 3, RB_REMOVE 2, RB_FIND 2]
      (RB_ROOT_INIT_c \<lparr>rb_root = 1, rb_heap = (\<lambda>a :: 64 word. Some \<lparr>rb_child_color = (\<lambda>d. 7)\<rparr>)\<rparr>) =
    Some ([0x2000, 0x6000, 0x4000, 0x2000, 0x6000, 0x4000, 0], s') \<and>
    rb_holds_c s' t \<and> tree_map (\<lambda>e. uint e div 8192) 8 t = [1 \<mapsto> 0x2000, 3 \<mapsto> 0x6000]"
proof -
  let ?v = "\<lambda>e :: 64 word. uint e div 8192" and ?N = "{0x2000, 0x3000, 0x4000, 0x6000 :: 64 word}"
  let ?ops = "[RB_INSERT 0x2000, RB_INSERT 0x6000, RB_INSERT 0x4000, RB_INSERT 0x3000, RB_FIND 3, RB_REMOVE 2, RB_FIND 2]"
  have client: "rb_client (A_NODE_CMP ?v) (A_NODE_KEY_CMP ?v) ?v safe_keys 8 ?N"
    using a_node.node_order_axioms
    by (auto simp: rb_client_def rb_client_axioms_def node_addr_def aligned_def safe_keys_def)
  have legal: "list_all (legal_op safe_keys ?N) ?ops" by (simp add: safe_keys_def)
  have few: "(Suc (card ?N))\<^sup>2 < 2 ^ LENGTH(64)" by (simp add: power2_eq_square)
  have "length (rp_path (local_path \<lparr>rpe_parent = 5 :: 64 word, rpe_dir = RB_RIGHT\<rparr> 99)) = LENGTH(64)"
    by (simp add: local_path_def)
  from compact_run_is_map [OF client _ this few legal,
      of "\<lparr>rb_root = 1, rb_heap = (\<lambda>a :: 64 word. Some \<lparr>rb_child_color = (\<lambda>d. 7)\<rparr>)\<rparr>"]
  show ?thesis by (auto simp: fun_upd_twist)
qed

lemma compact_remove_at:
  assumes "rb_holds_c s t" and "inorder t = ws @ a # zs" and "path_to t a rp" and "rb_height t < length (rp_path rp)"
  shows "\<exists>s' t'. rb_remove_c a rp s = Some s' \<and> rb_holds_c s' t' \<and> inorder t' = ws @ zs \<and>
    (\<forall>b. b \<notin> set (ws @ zs) \<longrightarrow> rb_heap s' b = rb_heap s b)"
proof -
  obtain k l c r sd J where t: "t = zip_up k (Node l c a r)" and rp: "rp = rp_at sd (steps k) J"
    using assms(3) by (auto simp: path_to_def)
  note node = holds_node [where d = RB_LEFT, unfolded mk.simps, OF assms(1) sym_enc_c t]
  from rb_remove_c_st [OF node(1,2), of J sd "rb_heap s"] node(3) assms(4) t rp
    holds_remove [OF assms(1) sym_enc_c t assms(2) refl]
  show ?thesis by auto
qed

text \<open>
  C6. \<open>rb_remove\<close> with the path to a node of a red-black tree whose height is less than the length of
  the array of the path returns; the new tree is again a
  red-black tree, its symmetric order is the old one without the node, and no memory outside the
  tree changes.
\<close>

theorem compact_remove_deletes_node:
  assumes "rb_holds_c s t" and "inorder t = xs @ a # ys" and "path_to t a rp" and "rb_height t < length (rp_path rp)"
  shows "\<exists>s' t'. rb_remove_c a rp s = Some s' \<and> rb_holds_c s' t' \<and> inorder t' = xs @ ys \<and>
    (\<forall>b. b \<notin> set (xs @ ys) \<longrightarrow> rb_heap s' b = rb_heap s b)"
  using assms by (rule compact_remove_at)


text \<open>
  The path to the root of the example, where the unused entries and the direction of the sentinel are
  arbitrary.
\<close>

definition ex_path :: "64 word RB_PATH" where
  "ex_path = rp_at RB_RIGHT [] (replicate 63 \<lparr>rpe_parent = 5, rpe_dir = RB_RIGHT\<rparr>)"

lemma ex_path_to: "path_to ex_tree 0x2008 ex_path"
  unfolding ex_path_def ex_tree_def
  using path_toI [of _ "[]" RB_LEFT Black "0x2008 :: 64 word" "Node Leaf Red 0x1008 Leaf" "Node Leaf Red 0x3008 Leaf"] by simp

lemma ex_path_length: "length (rp_path ex_path) = 64" "rb_height ex_tree = 2"
  by (simp_all add: ex_path_def ex_tree_def)

theorem compact_remove_deletes_node_witness:
  "\<exists>s' t'. rb_remove_c 0x2008 ex_path ex_state_c = Some s' \<and> rb_holds_c s' t' \<and> inorder t' = [0x1008, 0x3008] \<and>
    rb_heap s' 0x4008 = rb_heap ex_state_c 0x4008"
proof -
  have "inorder ex_tree = [0x1008] @ 0x2008 # [0x3008]" by (simp add: ex_inorder)
  from compact_remove_deletes_node [OF ex_holds_c this ex_path_to] ex_path_length show ?thesis by force
qed

text \<open>A call of the iteration arrives at the first of the nodes \<open>xs\<close>, or at the end.\<close>

definition visits :: "'w::len word rbt \<Rightarrow> 'w word RB_PATH \<Rightarrow> ('w word \<times> 'w word RB_PATH) option \<Rightarrow> 'w word list \<Rightarrow> bool" where
  "visits t rp res xs \<longleftrightarrow> (\<exists>rp'. res = Some (hd_or_null xs, rp') \<and> length (rp_path rp') = length (rp_path rp) \<and>
    (xs \<noteq> [] \<longrightarrow> path_to t (hd xs) rp'))"

lemma next_visits:
  assumes h: "rb_holds_c s t" and room: "rb_height t < length (rp_path rp)" and p: "path_to t a rp"
    and seq: "dseq d t = ws @ a # zs"
  shows "visits t rp (rb_iter_next_c a d rp s) zs"
proof -
  obtain k l c r sd J where "t = zip_up k (Node l c a r)" and rp: "rp = rp_at sd (steps k) J"
    using p by (auto simp: path_to_def)
  then obtain x y where tk: "t = zip_up k (mk d c a x y)" by (cases d) force+
  note node = holds_node [OF h sym_enc_c tk]
  have "zs = dseq d x @ ahead d k"
    using h seq unfolding tk by (intro dseq_after) (auto simp: holds_def)
  with rb_iter_next_c_st [OF node(1) tk, of J sd "rb_heap s"] node(3) room rp show ?thesis
    by (auto simp: visits_def)
qed

text \<open>
  C15. Iteration visits the nodes in symmetric order: \<open>rb_first\<close> and \<open>rb_last\<close> return its ends, and
  \<open>rb_next\<close> and \<open>rb_prev\<close> the neighbours of a node, or null; each leaves in the context the path to
  the node that it returns, as the next call and \<open>rb_remove\<close> need it. The height of the tree is less than
  the length of the array of the path.
\<close>

theorem compact_iteration_in_order:
  assumes "rb_holds_c s t" and "rb_height t < length (rp_path rp)"
  shows "visits t rp (rb_first_c rp s) (inorder t) \<and> visits t rp (rb_last_c rp s) (rev (inorder t)) \<and>
    (\<forall>xs a ys. inorder t = xs @ a # ys \<and> path_to t a rp \<longrightarrow>
      visits t rp (rb_next_c a rp s) ys \<and> visits t rp (rb_prev_c a rp s) (rev xs))"
proof (intro conjI allI impI)
  have t: "tok t" and s: "s = st enc_c (rb_heap s) [] t"
    using assms(1) holds_st by (auto simp: holds_def)
  note it = rb_iter_c_st [OF t assms(2), of _ "rb_heap s", folded s]
  from it [of RB_LEFT] it [of RB_RIGHT]
  show "visits t rp (rb_first_c rp s) (inorder t)" "visits t rp (rb_last_c rp s) (rev (inorder t))"
    by (cases t; force simp: visits_def rb_first_c_def rb_last_c_def dseq_def)+
  fix xs a ys
  assume a: "inorder t = xs @ a # ys \<and> path_to t a rp"
  note nx = next_visits [OF assms conjunct2 [OF a]]
  from a nx [of RB_RIGHT xs ys] nx [of RB_LEFT "rev ys" "rev xs"]
  show "visits t rp (rb_next_c a rp s) ys" "visits t rp (rb_prev_c a rp s) (rev xs)"
    by (simp_all add: rb_next_c_def rb_prev_c_def dseq_def)
qed

theorem compact_iteration_in_order_witness:
  "(\<exists>rp. rb_first_c ex_path ex_state_c = Some (0x1008, rp)) \<and> (\<exists>rp. rb_next_c 0x2008 ex_path ex_state_c = Some (0x3008, rp)) \<and>
    (\<exists>rp. rb_prev_c 0x2008 ex_path ex_state_c = Some (0x1008, rp))"
proof -
  have "rb_height ex_tree < length (rp_path ex_path)" by (simp add: ex_path_length)
  note it = compact_iteration_in_order [OF ex_holds_c this, unfolded ex_inorder]
  have "[0x1008, 0x2008, 0x3008 :: 64 word] = [0x1008] @ 0x2008 # [0x3008]" by simp
  with it ex_path_to have "visits ex_tree ex_path (rb_next_c 0x2008 ex_path ex_state_c) [0x3008]"
    "visits ex_tree ex_path (rb_prev_c 0x2008 ex_path ex_state_c) (rev [0x1008])"
    "visits ex_tree ex_path (rb_first_c ex_path ex_state_c) [0x1008, 0x2008, 0x3008]" by blast+
  then show ?thesis by (auto simp: visits_def)
qed


lemma rb_find_c_room:
  assumes "rb_holds_c s t" and "locate (key_search key_cmp offset ky) [] t = (k, t')" and "0 < length (rp_path rp)"
  shows "\<exists>sd J. Suc (length J) = length (rp_path rp) \<and> rb_find_c offset key_cmp ky rp s =
    do { rp \<leftarrow> located sd [] J k; Some (case t' of Leaf \<Rightarrow> 0 | Node l c a r \<Rightarrow> RB_ENTRY offset a, rp) }"
proof -
  obtain j J where J: "rp_path rp = j # J" using assms(3) by (cases "rp_path rp") auto
  have "tok t" "s = st enc_c (rb_heap s) [] t" using assms(1) holds_st by (auto simp: holds_def)
  with J rb_find_c_st [OF _ J assms(2), of "rb_heap s"] show ?thesis by (metis length_Cons)
qed

text \<open>
  C16. The array of a path is the only limit of a search: \<open>rb_find\<close> returns, with the path to the place
  of the key, if and only if there are fewer nodes above this place than entries in the array; it
  does for every tree whose number of nodes has a square less than \<open>2 ^ n\<close>, where \<open>n\<close> is the number of
  entries.
\<close>

theorem compact_find_fits:
  assumes "rb_holds_c s t" and "locate (key_search key_cmp offset ky) [] t = (k, t')" and "0 < length (rp_path rp)"
  shows "(length k < length (rp_path rp) \<longrightarrow> (\<exists>sd J. rb_find_c offset key_cmp ky rp s =
        Some (case t' of Leaf \<Rightarrow> 0 | Node l c a r \<Rightarrow> RB_ENTRY offset a, rp_at sd (steps k) J))) \<and>
    (length (rp_path rp) \<le> length k \<longrightarrow> rb_find_c offset key_cmp ky rp s = None) \<and>
    ((Suc (length (inorder t)))\<^sup>2 < 2 ^ length (rp_path rp) \<longrightarrow> length k < length (rp_path rp))"
proof -
  have "length k < length (rp_path rp)" if "(Suc (length (inorder t)))\<^sup>2 < 2 ^ length (rp_path rp)"
  proof -
    have "rb_tree t" using assms(1) by (simp add: holds_def)
    from rb_height_bound [OF this] that have "(2 :: nat) ^ rb_height t < 2 ^ length (rp_path rp)" by linarith
    then show ?thesis using length_locate_height [of "key_search key_cmp offset ky" t] assms(2) by simp
  qed
  moreover obtain sd J where "Suc (length J) = length (rp_path rp)" "rb_find_c offset key_cmp ky rp s =
      do { rp \<leftarrow> located sd [] J k; Some (case t' of Leaf \<Rightarrow> 0 | Node l c a r \<Rightarrow> RB_ENTRY offset a, rp) }"
    using rb_find_c_room [OF assms] by blast
  ultimately show ?thesis by (auto simp: located_def intro!: exI)
qed

theorem compact_find_fits_witness:
  "\<exists>rp. rb_find_c 8 (A_NODE_KEY_CMP (\<lambda>e. uint e div 4096)) 3 ex_path ex_state_c = Some (0x3000, rp)"
proof -
  have dir: "key_search (A_NODE_KEY_CMP (\<lambda>e. uint e div 4096)) 8 3 (0x2008 :: 64 word) = Some RB_RIGHT"
    "key_search (A_NODE_KEY_CMP (\<lambda>e. uint e div 4096)) 8 3 (0x3008 :: 64 word) = None"
    by (simp_all add: key_search_def A_NODE_KEY_CMP_def RB_ENTRY_def c_sub_wrap_exact cmp_dir_def)
  then have "locate (key_search (A_NODE_KEY_CMP (\<lambda>e. uint e div 4096)) 8 3) [] ex_tree =
      ([(RB_RIGHT, Black, 0x2008, Node Leaf Red 0x1008 Leaf)], Node Leaf Red 0x3008 Leaf)"
    by (simp add: ex_tree_def)
  from compact_find_fits [OF ex_holds_c this, of ex_path] show ?thesis
    by (auto simp: ex_path_length RB_ENTRY_def)
qed

text \<open>
  C22. Left child pointer and colour share one word without disturbing each other: after
  \<open>rb_set_child\<close> and \<open>rb_set_color\<close> in either order, the accessors return what was written and the
  right child is unchanged.
\<close>

theorem compact_child_color_roundtrip:
  assumes "aligned p" and "load node s = Some n"
  shows "\<exists>s'. do { s \<leftarrow> rb_set_child_c node RB_LEFT p s; rb_set_color_c node (color_bit c) s } = Some s' \<and>
    do { s \<leftarrow> rb_set_color_c node (color_bit c) s; rb_set_child_c node RB_LEFT p s } = Some s' \<and>
    rb_child_c node RB_LEFT s' = Some p \<and> rb_color_c node s' = Some (color_bit c) \<and>
    rb_child_c node RB_RIGHT s' = rb_child_c node RB_RIGHT s"
proof -
  let ?v = "rb_child_color n RB_LEFT"
  obtain c' where c': "?v AND 1 = color_bit c'" by (rule low_bit_color)
  have node: "node \<noteq> 0" using assms(2) by auto
  let ?n = "n\<lparr>rb_child_color := (rb_child_color n)(RB_LEFT := p OR color_bit c)\<rparr>"
  have a: "rb_set_child_c node RB_LEFT p s =
      Some (upd node (n\<lparr>rb_child_color := (rb_child_color n)(RB_LEFT := p OR color_bit c')\<rparr>) s)"
    using assms(2) c' by (simp add: rb_set_child_c_def store_case)
  have b: "rb_set_color_c node (color_bit c) s =
      Some (upd node (n\<lparr>rb_child_color := (rb_child_color n)(RB_LEFT := (?v AND - 2) OR color_bit c)\<rparr>) s)"
    using assms(2) by (simp add: rb_set_color_c_def store_case)
  have "do { s \<leftarrow> rb_set_child_c node RB_LEFT p s; rb_set_color_c node (color_bit c) s } = Some (upd node ?n s)"
    using assms node unfolding a
    by (simp add: rb_set_color_c_def store_case load_upd untag_minus_2) (simp add: upd_def)
  moreover have "do { s \<leftarrow> rb_set_color_c node (color_bit c) s; rb_set_child_c node RB_LEFT p s } = Some (upd node ?n s)"
    using assms node unfolding b
    by (simp add: rb_set_child_c_def store_case load_upd untag_word(2) [OF aligned_untagged]) (simp add: upd_def)
  ultimately show ?thesis
    using assms node
    by (simp add: rb_color_c_def rb_child_c_def load_upd untag_minus_2 untag_word)
qed

theorem compact_child_color_roundtrip_witness:
  "\<exists>s'. do { s \<leftarrow> rb_set_child_c 0x1008 RB_LEFT 0x3008 ex_state_c; rb_set_color_c 0x1008 RB_BLACK s } = Some s' \<and>
    rb_child_c 0x1008 RB_LEFT s' = Some 0x3008 \<and> rb_color_c 0x1008 s' = Some RB_BLACK"
proof -
  have "rb_heap ex_state_c 0x1008 \<noteq> None" by (simp add: ex_state_c_def rb_heap_st_mapped)
  then obtain n where "load 0x1008 ex_state_c = Some n" by (auto simp: load_def)
  with compact_child_color_roundtrip [where p = "0x3008" and node = "0x1008" and s = ex_state_c and n = n and c = Black]
  show ?thesis by (auto simp: aligned_def)
qed

text \<open>The loop of a client that visits the nodes one after the other.\<close>

partial_function (option) rb_walk_c :: "rb_dir \<Rightarrow> 'w::len word \<Rightarrow> 'w word RB_PATH \<Rightarrow> 'w rbc \<Rightarrow> 'w word list option" where
  "rb_walk_c dir iter rp s =
    (if iter \<noteq> 0 then do {
       (next, rp) \<leftarrow> rb_iter_next_c iter dir rp s;
       xs \<leftarrow> rb_walk_c dir next rp s;
       Some (iter # xs) }
     else Some [])"

lemma rb_walk_c_st:
  assumes h: "rb_holds_c s t" and "rb_height t < length (rp_path rp)"
    and "dseq d t = ws @ zs" and "zs \<noteq> [] \<longrightarrow> path_to t (hd zs) rp"
  shows "rb_walk_c d (hd_or_null zs) rp s = Some zs"
  using assms(2-)
proof (induction zs arbitrary: ws rp)
  case Nil
  show ?case by (subst rb_walk_c.simps) simp
next
  case (Cons z zs)
  have "z \<in> addrs t" using Cons.prems(2) by (metis dseq_def in_set_conv_decomp set_rev)
  then have "z \<noteq> 0" using h by (auto simp: holds_def dest: addrs_node_addr node_addr_nonnull)
  moreover obtain rp' where "rb_iter_next_c z d rp s = Some (hd_or_null zs, rp')"
    "length (rp_path rp') = length (rp_path rp)" "zs \<noteq> [] \<longrightarrow> path_to t (hd zs) rp'"
    using next_visits [OF h Cons.prems(1) _ Cons.prems(2)] Cons.prems(3) by (auto simp: visits_def)
  moreover from this have "rb_walk_c d (hd_or_null zs) rp' s = Some zs"
    using Cons.IH [of rp' "ws @ [z]"] Cons.prems by simp
  ultimately show ?case by (subst rb_walk_c.simps) simp
qed

text \<open>
  C18. The same loop over the tree without parent pointers, where the context is handed from call to
  call; \<open>RB_EMPTY\<close> tells whether there is a node to visit. The height of the tree is less than the length of
  the array of the path.
\<close>

theorem compact_walk_visits_all:
  assumes "rb_holds_c s t" and "rb_height t < length (rp_path rp)"
  shows "do { (iter, rp) \<leftarrow> rb_first_c rp s; rb_walk_c RB_RIGHT iter rp s } = Some (inorder t) \<and>
    do { (iter, rp) \<leftarrow> rb_last_c rp s; rb_walk_c RB_LEFT iter rp s } = Some (rev (inorder t)) \<and>
    (RB_EMPTY_c s \<longleftrightarrow> inorder t = [])"
proof -
  have "do { (iter, rp) \<leftarrow> rb_iter_c d rp s; rb_walk_c (flip d) iter rp s } = Some (dseq (flip d) t)" for d
  proof -
    obtain rp' where "rb_iter_c d rp s = Some (hd_or_null (dseq (flip d) t), rp')"
      "length (rp_path rp') = length (rp_path rp)" "t \<noteq> Leaf \<longrightarrow> path_to t (hd (dseq (flip d) t)) rp'"
      using rb_iter_c_st [of t rp d "rb_heap s"] holds_st [OF assms(1)] assms by (auto simp: holds_def)
    with rb_walk_c_st [OF assms(1), of rp' "flip d" "[]" "dseq (flip d) t"] assms(2) show ?thesis by simp
  qed
  note walk = this [of RB_LEFT] this [of RB_RIGHT]
  have "RB_EMPTY_c s \<longleftrightarrow> inorder t = []"
    using assms(1) by (cases t) (auto simp: RB_EMPTY_c_def holds_def node_addr_def)
  with walk show ?thesis
    by (simp add: rb_first_c_def rb_last_c_def dseq_def)
qed

theorem compact_walk_visits_all_witness:
  "do { (iter, rp) \<leftarrow> rb_last_c ex_path ex_state_c; rb_walk_c RB_LEFT iter rp ex_state_c } = Some [0x3008, 0x2008, 0x1008]"
  using compact_walk_visits_all [OF ex_holds_c, of ex_path] by (simp add: ex_path_length ex_inorder)

text \<open>
  C8. \<open>RB_INSERT\<close> of the tree without parent pointers on each branch: with as many nodes above the place of the key as the
  path has entries, or more, it writes beyond the array; otherwise an entry with an equal key is returned and nothing changes,
  or the new entry takes its place between the smaller and the larger ones.
\<close>

theorem compact_insert_branches:
  assumes "rb_client cmp key_cmp key_of K offset N" and "rb_holds_c s t" and "tree_ok key_of offset N t"
    and "e \<in> N" and "rb_heap s (e + offset) \<noteq> None" and "0 < length (rp_path rp)"
    and "locate (key_search key_cmp offset (key_of e)) [] t = (k, t')"
  shows "(length (rp_path rp) \<le> length k \<longrightarrow> rb_insert_c offset cmp rp e s = None) \<and>
    (length k < length (rp_path rp) \<longrightarrow>
      (\<forall>e'\<in>set (entries offset t). key_of e' = key_of e \<longrightarrow> rb_insert_c offset cmp rp e s = Some (e', s)) \<and>
      (key_of e \<notin> key_of ` set (entries offset t) \<longrightarrow>
        (\<exists>s' t'. rb_insert_c offset cmp rp e s = Some (e, s') \<and> rb_holds_c s' t' \<and>
          entries offset t' = filter (\<lambda>x. key_of x < key_of e) (entries offset t) @ e #
            filter (\<lambda>x. key_of e < key_of x) (entries offset t))))"
proof -
  let ?f = "\<lambda>a. cmp_dir (cmp e (RB_ENTRY offset a))"
  have s: "s = st enc_c (rb_heap s) [] t" and t: "tok t" "rb_tree t"
    using holds_st [OF assms(2)] assms(3) by (auto simp: tree_ok_def)
  have loc: "locate ?f [] t = (k, t')" using rb_client.node_locate [OF assms(1,3,4)] assms(7) by simp
  have x: "node_addr (e + offset)" "key_of e \<in> K"
    using rb_client.entry_node [OF assms(1,4)] rb_client.entry_key [OF assms(1,4)] .
  note ins = rb_insert_c_st [OF t, of cmp e offset ?f "e + offset" "rb_heap s" rp, folded s, unfolded loc]
  show ?thesis
  proof (intro conjI impI ballI)
    assume "length (rp_path rp) \<le> length k"
    then show "rb_insert_c offset cmp rp e s = None"
      using rb_insert_c_overflow [OF t(1), of cmp e offset ?f rp "rb_heap s"] loc assms(6) s by simp
  next
    fix e' assume fits: "length k < length (rp_path rp)" and e': "e' \<in> set (entries offset t)" "key_of e' = key_of e"
    then have "tree_map key_of offset t (key_of e) = Some e'"
      using rb_client.tree_map_distinct [OF assms(1,3)] by (simp add: tree_map_def find_key_eq_Some_iff)
    from rb_client.locate_present [OF assms(1,3) x(2) this] assms(7)
    obtain l c r where "t' = Node l c (e' + offset) r" by (metis snd_conv)
    with ins fits x(1) show "rb_insert_c offset cmp rp e s = Some (e', s)" by simp
  next
    assume fits: "length k < length (rp_path rp)" and "key_of e \<notin> key_of ` set (entries offset t)"
    then have none: "tree_map key_of offset t (key_of e) = None" by (simp add: tree_map_def find_key_eq_None_iff)
    from rb_client.locate_absent [OF assms(1,3) x(2) none] assms(7) have t': "t' = Leaf" by (metis snd_conv)
    let ?t = "ins_fix k (Node Leaf Red (e + offset) Leaf)"
    note loc' = assms(7) [unfolded t']
    have "e + offset \<notin> addrs t" using none by (force simp: tree_map_def find_None_iff entries_def)
    with ins fits x(1) assms(5) t' have "rb_insert_c offset cmp rp e s = Some (e, st enc_c (rb_heap s) [] ?t)" by simp
    moreover have "rb_holds_c (st enc_c (rb_heap s) [] ?t) ?t"
      using rb_client.tree_insert [OF assms(1,3,4) none loc' refl] by (intro st_holds) (auto simp: tree_ok_def)
    ultimately show "\<exists>s' t'. rb_insert_c offset cmp rp e s = Some (e, s') \<and> rb_holds_c s' t' \<and>
        entries offset t' = filter (\<lambda>x. key_of x < key_of e) (entries offset t) @ e #
          filter (\<lambda>x. key_of e < key_of x) (entries offset t)"
      using rb_client.tree_insert_entries [OF assms(1,3,4) none loc'] by blast
  qed
qed

theorem compact_insert_branches_witness:
  "rb_insert_c 8 (A_NODE_CMP (\<lambda>e. uint e div 4096)) ex_path 0x2100 ex_state_c = Some (0x2000, ex_state_c) \<and>
    (\<exists>s' t'. rb_insert_c 8 (A_NODE_CMP (\<lambda>e. uint e div 4096)) ex_path 0x4000 ex_state_c = Some (0x4000, s') \<and>
      rb_holds_c s' t' \<and> entries 8 t' = [0x1000, 0x2000, 0x3000, 0x4000]) \<and>
    rb_insert_c 8 (A_NODE_CMP (\<lambda>e. uint e div 4096)) (ex_path\<lparr>rp_path := [hd (rp_path ex_path)]\<rparr>) 0x4000 ex_state_c = None"
proof -
  let ?v = "\<lambda>e :: 64 word. uint e div 4096"
  have ent: "entries 8 ex_tree = [0x1000, 0x2000, 0x3000]"
    by (simp add: entries_def ex_inorder RB_ENTRY_def)
  have ok: "tree_ok ?v 8 (a_nodes ?v 8) ex_tree"
    using ex_holds_c by (simp add: tree_ok_def holds_def ent a_nodes_def node_addr_def aligned_def safe_keys_def)
  have e: "0x2100 \<in> a_nodes ?v 8" "0x4000 \<in> a_nodes ?v 8"
    by (simp_all add: a_nodes_def node_addr_def aligned_def safe_keys_def)
  have h: "rb_heap ex_state_c a \<noteq> None" for a
    by (simp add: ex_state_c_def rb_heap_st_mapped)
  have loc: "locate (key_search (A_NODE_KEY_CMP ?v) 8 2) [] ex_tree = ([], ex_tree)"
    "locate (key_search (A_NODE_KEY_CMP ?v) 8 4) [] ex_tree =
      ([(RB_RIGHT, Red, 0x3008, Leaf), (RB_RIGHT, Black, 0x2008, Node Leaf Red 0x1008 Leaf)], Leaf)"
    by (simp_all add: ex_tree_def key_search_def A_NODE_KEY_CMP_def RB_ENTRY_def c_sub_wrap_exact cmp_dir_def)
  note ins = compact_insert_branches [OF a_client.rb_client_axioms ex_holds_c ok]
  show ?thesis
    using ins [OF e(1) h, of ex_path] ins [OF e(2) h, of ex_path] ins [OF e(2) h, of "ex_path\<lparr>rp_path := [hd (rp_path ex_path)]\<rparr>"]
    by (simp add: ent loc ex_path_length)
qed

end
