(* ===== verification/RB_Tests.thy ===== *)
theory RB_Tests
  imports RB_Fixed_Tests RB_Tree_Map RB_Compact_Map
begin

text \<open>
  The checks and the tests of \<open>rbtree/test_rbtree.c\<close> on both trees: the checks decide the
  properties that they are made for, a test with a fixed sequence finds what a computation on trees finds, and the random tests
  pass whatever \<open>rand\<close> returns.
\<close>

section \<open>Clients with integer keys\<close>

text \<open>The black heights are of type \<open>int\<close>, which is large enough if the number of bits of a pointer is.\<close>

locale test_client = rb_client cmp key_cmp key_of K offset N
  for cmp :: "'w::len word \<Rightarrow> 'w word \<Rightarrow> int" and key_cmp :: "int \<Rightarrow> 'w word \<Rightarrow> int"
    and key_of :: "'w word \<Rightarrow> int" and K :: "int set" and offset :: "'w word" and N :: "'w word set" +
  assumes int_width: "int LENGTH('w) \<le> INT_MAX"

sublocale test_client \<subseteq> checked: checked_impl cmp key_cmp key_of K offset N enc "rb_step offset cmp key_cmp"
    rb_child rb_color rb_set_color
  by unfold_locales (rule int_width)

locale compact_test_client = compact_client cmp key_cmp key_of K offset N rp0
  for cmp :: "'w::len word \<Rightarrow> 'w word \<Rightarrow> int" and key_cmp :: "int \<Rightarrow> 'w word \<Rightarrow> int"
    and key_of :: "'w word \<Rightarrow> int" and K :: "int set" and offset :: "'w word" and N :: "'w word set"
    and rp0 :: "'w word RB_PATH" +
  assumes int_width: "int LENGTH('w) \<le> INT_MAX"

sublocale compact_test_client \<subseteq> compact_checked: checked_impl cmp key_cmp key_of K offset N enc_c
    "rb_step_c offset cmp key_cmp rp0" rb_child_c rb_color_c rb_set_color_c
  by unfold_locales (rule int_width)

interpretation a_test: test_client "A_NODE_CMP vals" "A_NODE_KEY_CMP vals" vals safe_keys offset "a_nodes vals offset"
  for vals :: "64 word \<Rightarrow> int" and offset :: "64 word"
  by unfold_locales (simp add: INT_MAX_def)

interpretation a_compact_test: compact_test_client "A_NODE_CMP vals" "A_NODE_KEY_CMP vals" vals safe_keys offset
    "a_array vals offset base stride (2 ^ (LENGTH(64) div 2) - 2)" "local_path e c"
  for vals :: "64 word \<Rightarrow> int" and offset base stride e c
  by unfold_locales (simp add: INT_MAX_def)

text \<open>The client that numbers the entries of an array.\<close>

lemma numbered_client:
  fixes node_buf :: "'w::len word list"
  assumes "distinct node_buf" and "\<forall>e\<in>set node_buf. e \<noteq> 0 \<and> node_addr (e + offset)" and "length node_buf < 2 ^ 30"
    and vals: "vals = number_entries node_buf 0 v"
  shows "rb_client (A_NODE_CMP vals) (A_NODE_KEY_CMP vals) vals safe_keys offset (set node_buf)"
    and "sorted_wrt (<) (map vals node_buf)" and "\<forall>e\<in>set node_buf. 0 \<le> vals e \<and> vals e \<le> INT_MAX"
proof -
  have map: "map vals node_buf = [1..int (length node_buf)]" using number_entries_map [OF assms(1), of 0 v] vals by simp
  then show "sorted_wrt (<) (map vals node_buf)" by simp
  have "vals e \<in> {1..int (length node_buf)}" if "e \<in> set node_buf" for e
    using that map by (metis image_eqI set_map set_upto)
  then show "\<forall>e\<in>set node_buf. 0 \<le> vals e \<and> vals e \<le> INT_MAX" and "rb_client (A_NODE_CMP vals) (A_NODE_KEY_CMP vals) vals safe_keys offset (set node_buf)"
    using assms(2,3) a_node.node_order_axioms by (fastforce simp: rb_client_def rb_client_axioms_def safe_keys_def INT_MAX_def)+
qed

context test_client
begin

lemmas rb_runs_pass = checked.random_runs_pass
lemmas rb_checked = checked.checked_impl_axioms

end

context compact_test_client
begin

lemmas compact_runs_pass = compact_checked.random_runs_pass
lemmas compact_checked_impl = compact_checked.checked_impl_axioms

end

text \<open>A script on both trees, and on trees without memory.\<close>

lemma script_on_both_trees:
  fixes U :: "'w::len word set"
  assumes "int LENGTH('w) \<le> INT_MAX" and "(Suc (card U))\<^sup>2 < 2 ^ LENGTH('w)" and "length (rp_path rp) = LENGTH('w)"
    and "\<forall>e\<in>U. e \<noteq> 0 \<and> node_addr (e + offset) \<and> rb_heap s (e + offset) \<noteq> None \<and> rb_heap s_c (e + offset) \<noteq> None"
    and "legal_script U [] (Start es # as)"
  shows "run_script (\<lambda>vals. rb_step offset (A_NODE_CMP vals) (A_NODE_KEY_CMP vals)) rb_child rb_color offset (Start es # as) es' v s =
      Some (if tree_script offset as es (number_entries es 0 v) Leaf then Passed () else Failed) \<and>
    run_script (\<lambda>vals. rb_step_c offset (A_NODE_CMP vals) (A_NODE_KEY_CMP vals) rp) rb_child_c rb_color_c offset
        (Start es # as) es' v s_c =
      Some (if tree_script offset as es (number_entries es 0 v) Leaf then Passed () else Failed)"
proof
  have es: "legal_array U es" "legal_script U es as" using assms(5) by simp_all
  have client: "rb_client (A_NODE_CMP (number_entries xs 0 v)) (A_NODE_KEY_CMP (number_entries xs 0 v)) (number_entries xs 0 v)
      safe_keys offset (set xs)" if "legal_array U xs" for xs v
    using that assms(4) by (intro numbered_client [OF _ _ _ refl]) (auto simp: legal_array_def)
  have leaf: "RB_ROOT_INITIALIZER s = st enc (rb_heap s) [] Leaf" "RB_ROOT_INITIALIZER s_c = st enc_c (rb_heap s_c) [] Leaf"
    by (simp_all add: RB_ROOT_INITIALIZER_def st_def)
  have mapped: "\<forall>e\<in>U. rb_heap s (e + offset) \<noteq> None" "\<forall>e\<in>U. rb_heap s_c (e + offset) \<noteq> None" using assms(4) by blast+
  note empty = rb_client.tree_ok_Leaf [OF client [OF es(1)]]
  show "run_script (\<lambda>vals. rb_step offset (A_NODE_CMP vals) (A_NODE_KEY_CMP vals)) rb_child rb_color offset (Start es # as) es' v s =
      Some (if tree_script offset as es (number_entries es 0 v) Leaf then Passed () else Failed)"
    unfolding run_script.simps leaf
  proof (rule script_decides [OF _ mapped(1) es(1) refl empty es(2)])
    fix xs v assume "legal_array U xs"
    then show "checked_impl (A_NODE_CMP (number_entries xs 0 v)) (A_NODE_KEY_CMP (number_entries xs 0 v)) (number_entries xs 0 v)
        safe_keys offset (set xs) enc (rb_step offset (A_NODE_CMP (number_entries xs 0 v)) (A_NODE_KEY_CMP (number_entries xs 0 v)))
        rb_child rb_color rb_set_color"
      using client assms(1) by (intro test_client.rb_checked) (simp add: test_client_def test_client_axioms_def)
  qed
  show "run_script (\<lambda>vals. rb_step_c offset (A_NODE_CMP vals) (A_NODE_KEY_CMP vals) rp) rb_child_c rb_color_c offset
        (Start es # as) es' v s_c =
      Some (if tree_script offset as es (number_entries es 0 v) Leaf then Passed () else Failed)"
    unfolding run_script.simps leaf
  proof (rule script_decides [OF _ mapped(2) es(1) refl empty es(2)])
    fix xs v assume xs: "legal_array U xs"
    then have "card (set xs) \<le> card U" by (intro card_mono) (simp_all add: legal_array_def)
    then have "(Suc (card (set xs)))\<^sup>2 \<le> (Suc (card U))\<^sup>2" by (intro power_mono) simp_all
    then have "(Suc (card (set xs)))\<^sup>2 < 2 ^ LENGTH('w)" using assms(2) by (rule le_less_trans)
    then show "checked_impl (A_NODE_CMP (number_entries xs 0 v)) (A_NODE_KEY_CMP (number_entries xs 0 v)) (number_entries xs 0 v)
        safe_keys offset (set xs) enc_c (rb_step_c offset (A_NODE_CMP (number_entries xs 0 v)) (A_NODE_KEY_CMP (number_entries xs 0 v)) rp)
        rb_child_c rb_color_c rb_set_color_c"
      using client [OF xs] assms(1,3)
      by (intro compact_test_client.compact_checked_impl) (simp add: compact_test_client_def compact_test_client_axioms_def
          compact_client_def compact_client_axioms_def)
  qed
qed

section \<open>Properties\<close>

text \<open>
  C37. The checks of the test program decide what they are made for, in both layouts and for every tree in memory, balanced or
  not: \<open>validate_rbtree_black_height\<close> passes if and only if all paths to the leaves have the given number of black nodes, and
  \<open>validate_rbtree_sorted_order\<close> with an array that is long enough if and only if the array has the values of the tree in symmetric order.
\<close>

theorem test_checks_decide:
  fixes t :: "'w::len word rbt"
  assumes "tok t" and "int LENGTH('w) \<le> INT_MAX" and "length (inorder t) \<le> length ys" and "unat n = length ys"
  shows "validate_rbtree_black_height rb_child rb_color (root_addr t) h (st enc F [] t) =
      Some (if invh t \<and> int (bh t) = h then Passed () else Failed) \<and>
    validate_rbtree_black_height rb_child_c rb_color_c (root_addr t) h (st enc_c F' [] t) =
      Some (if invh t \<and> int (bh t) = h then Passed () else Failed) \<and>
    validate_rbtree_sorted_order rb_child vals offset ys n (st enc F [] t) =
      Some (if map vals (entries offset t) = ys then Passed () else Failed) \<and>
    validate_rbtree_sorted_order rb_child_c vals offset ys n (st enc_c F' [] t) =
      Some (if map vals (entries offset t) = ys then Passed () else Failed)"
  using assms node_access.black_height_st [OF rb_mem.node_access_axioms, of "[]" t F]
    node_access.black_height_st [OF compact_mem.node_access_axioms, of "[]" t F']
    node_access.sorted_order_st [OF rb_mem.node_access_axioms assms(1,3,4)]
    node_access.sorted_order_st [OF compact_mem.node_access_axioms assms(1,3,4)]
  by (simp add: validate_rbtree_black_height_def assert_int_equal_def)

theorem test_checks_decide_witness:
  "validate_rbtree_black_height rb_child rb_color (root_addr ex_tree) 1 ex_state = Some (Passed ()) \<and>
    validate_rbtree_black_height rb_child_c rb_color_c (root_addr ex_tree) 2 ex_state_c = Some Failed \<and>
    validate_rbtree_sorted_order rb_child (\<lambda>e. uint e div 4096) 8 [1, 2, 3] 3 ex_state = Some (Passed ()) \<and>
    validate_rbtree_sorted_order rb_child_c (\<lambda>e. uint e div 4096) 8 [1, 3, 2] 3 ex_state_c = Some Failed"
proof -
  note test = test_checks_decide [OF ex_tok, where vals = "\<lambda>e. uint e div 4096" and offset = 8 and n = 3
      and F = "\<lambda>a. Some \<lparr>rb_parent_color = 7, rb_children = (\<lambda>d. 7)\<rparr>" and F' = "\<lambda>a. Some \<lparr>rb_child_color = (\<lambda>d. 7)\<rparr>"]
  from test [where ys = "[1, 2, 3]" and h = 1] test [where ys = "[1, 3, 2]" and h = 2] show ?thesis
    unfolding ex_state_def ex_state_c_def
    by (simp add: INT_MAX_def ex_tree_def entries_def RB_ENTRY_def)
qed

text \<open>
  C36. A test with a fixed sequence finds in memory what the algorithms do to trees. For every sequence that starts with an
  empty tree and an array of entries numbered from 1 on, and goes on with insertions of these entries, removals, lookups,
  checks of the black height, of the root and of the symmetric order, and further beginnings with other arrays, the test has no undefined
  behaviour on either tree, and it passes on each of them if and only if the computation \<open>tree_script\<close>, which knows nothing of
  memory, pointers or paths, finds the expected black heights, roots and orders. The entries are among \<open>U\<close>, with
  \<open>(card U + 1)\<^sup>2 < 2 ^ w\<close> for the tree without parent pointers.
\<close>

theorem scripts_decide:
  fixes U :: "'w::len word set"
  assumes "int LENGTH('w) \<le> INT_MAX" and "(Suc (card U))\<^sup>2 < 2 ^ LENGTH('w)" and "length (rp_path rp) = LENGTH('w)"
    and "\<forall>e\<in>U. e \<noteq> 0 \<and> node_addr (e + offset) \<and> rb_heap s (e + offset) \<noteq> None \<and> rb_heap s_c (e + offset) \<noteq> None"
    and "legal_script U [] (Start es # as)"
  shows "run_script (\<lambda>vals. rb_step offset (A_NODE_CMP vals) (A_NODE_KEY_CMP vals)) rb_child rb_color offset (Start es # as) es' v s =
      Some (if tree_script offset as es (number_entries es 0 v) Leaf then Passed () else Failed) \<and>
    run_script (\<lambda>vals. rb_step_c offset (A_NODE_CMP vals) (A_NODE_KEY_CMP vals) rp) rb_child_c rb_color_c offset
        (Start es # as) es' v s_c =
      Some (if tree_script offset as es (number_entries es 0 v) Leaf then Passed () else Failed)"
  using assms by (rule script_on_both_trees)

theorem scripts_decide_witness:
  "run_script (\<lambda>vals. rb_step_c 4 (A_NODE_CMP vals) (A_NODE_KEY_CMP vals) (local_path \<lparr>rpe_parent = 5, rpe_dir = RB_RIGHT\<rparr> 99))
      rb_child_c rb_color_c 4
      [Start [0x10, 0x20 :: 32 word], Do (RB_INSERT 0x20), Do (RB_INSERT 0x10), Sorted_order, Do (RB_REMOVE 2), Root_null True] [] (\<lambda>e. 9)
      \<lparr>rb_root = 1, rb_heap = (\<lambda>a. Some \<lparr>rb_child_color = (\<lambda>d. 7)\<rparr>)\<rparr> = Some Failed"
proof -
  let ?as = "[Do (RB_INSERT 0x20), Do (RB_INSERT 0x10), Sorted_order, Do (RB_REMOVE 2), Root_null True]"
  have legal: "legal_script {0x10, 0x20} [] (Start [0x10, 0x20 :: 32 word] # ?as)"
    by (simp add: legal_array_def safe_keys_def)
  have "\<not> tree_script 4 ?as [0x10, 0x20 :: 32 word] (number_entries [0x10, 0x20] 0 (\<lambda>e. 9)) Leaf"
    by (simp add: key_search_def A_NODE_KEY_CMP_def c_sub_wrap_exact cmp_dir_def RB_ENTRY_def ins_fix.simps rem_rot.simps
        rem_del_def entries_def)
  then show ?thesis
    using scripts_decide [OF _ _ _ _ legal, of "local_path \<lparr>rpe_parent = 5, rpe_dir = RB_RIGHT\<rparr> 99" 4
        "\<lparr>rb_root = 1, rb_heap = (\<lambda>a. Some \<lparr>rb_parent_color = 7, rb_children = (\<lambda>d. 7)\<rparr>)\<rparr>"
        "\<lparr>rb_root = 1, rb_heap = (\<lambda>a. Some \<lparr>rb_child_color = (\<lambda>d. 7)\<rparr>)\<rparr>" "[]" "\<lambda>e. 9"]
    by (simp add: INT_MAX_def local_path_def node_addr_def aligned_def power2_eq_square)
qed

text \<open>
  In particular, the five tests of the file with fixed sequences pass on both trees, wherever the ten entries of the array are in memory.
\<close>

theorem fixed_tests_pass:
  fixes x :: "nat \<Rightarrow> 'w::len word"
  assumes "int LENGTH('w) \<le> INT_MAX" and "(121 :: nat) < 2 ^ LENGTH('w)" and "length (rp_path rp) = LENGTH('w)"
    and "inj_on x {..<10}"
    and "\<forall>i<10. x i \<noteq> 0 \<and> node_addr (x i + offset) \<and> rb_heap s (x i + offset) \<noteq> None \<and> rb_heap s_c (x i + offset) \<noteq> None"
  shows "list_all (\<lambda>as.
      run_script (\<lambda>vals. rb_step offset (A_NODE_CMP vals) (A_NODE_KEY_CMP vals)) rb_child rb_color offset as es v s =
        Some (Passed ()) \<and>
      run_script (\<lambda>vals. rb_step_c offset (A_NODE_CMP vals) (A_NODE_KEY_CMP vals) rp) rb_child_c rb_color_c offset as es v s_c =
        Some (Passed ())) (fixed_tests x)"
  unfolding list_all_iff
proof
  fix as assume as: "as \<in> set (fixed_tests x)"
  let ?U = "x ` {..<10}"
  obtain es' as' where start: "as = Start es' # as'" using as by (auto simp: fixed_tests_def fixed_test_defs)
  have "card ?U = 10" using card_image [OF assms(4)] by simp
  then have few: "(Suc (card ?U))\<^sup>2 < 2 ^ LENGTH('w)" using assms(2) by (simp add: power2_eq_square)
  have U: "\<forall>e\<in>?U. e \<noteq> 0 \<and> node_addr (e + offset) \<and> rb_heap s (e + offset) \<noteq> None \<and> rb_heap s_c (e + offset) \<noteq> None"
    using assms(5) by simp
  have "legal_script ?U [] as" "tree_script offset as [] v Leaf"
    using as fixed_tests_legal [OF assms(4), of "[]"] fixed_tests_tree [OF assms(4), of offset "[]" v Leaf]
    by (auto simp: list_all_iff)
  then show "run_script (\<lambda>vals. rb_step offset (A_NODE_CMP vals) (A_NODE_KEY_CMP vals)) rb_child rb_color offset as es v s =
        Some (Passed ()) \<and>
      run_script (\<lambda>vals. rb_step_c offset (A_NODE_CMP vals) (A_NODE_KEY_CMP vals) rp) rb_child_c rb_color_c offset as es v s_c =
        Some (Passed ())"
    using script_on_both_trees [OF assms(1) few assms(3) U, of es' as' es v] unfolding start by simp
qed

text \<open>The random tests on each of the trees.\<close>

lemma rb_random_tests:
  fixes node_buf :: "'w::len word list"
  assumes "int LENGTH('w) \<le> INT_MAX" and "\<forall>p. 0 \<le> rand p" and "distinct node_buf" and "2 \<le> length node_buf"
    and "length node_buf < 2 ^ 30"
    and "\<forall>e\<in>set node_buf. e \<noteq> 0 \<and> node_addr (e + offset) \<and> rb_heap s (e + offset) \<noteq> None"
  shows "(\<exists>x. test_rbtree_insert_random (\<lambda>vals. rb_step offset (A_NODE_CMP vals) (A_NODE_KEY_CMP vals)) rb_child rb_color
        offset rand node_buf v runs s = Some (Passed x)) \<and>
    (\<exists>x. test_rbtree_remove_random (\<lambda>vals. rb_step offset (A_NODE_CMP vals) (A_NODE_KEY_CMP vals)) rb_child rb_color
        offset rand node_buf v runs s = Some (Passed x))"
proof -
  define vals where "vals = number_entries node_buf 0 v"
  have ok: "\<forall>e\<in>set node_buf. e \<noteq> 0 \<and> node_addr (e + offset)" "\<forall>e\<in>set node_buf. rb_heap s (e + offset) \<noteq> None"
    using assms(6) by blast+
  note client = numbered_client [OF assms(3) ok(1) assms(5) vals_def]
  have "test_client (A_NODE_CMP vals) (A_NODE_KEY_CMP vals) vals safe_keys offset (set node_buf)"
    using client(1) assms(1) by (simp add: test_client_def test_client_axioms_def)
  moreover have "int (length node_buf) * 2 \<le> INT_MAX" using assms(5) by (simp add: INT_MAX_def)
  ultimately show ?thesis
    using test_client.rb_runs_pass [OF _ assms(2,4) _ _ client(2) ok(2) client(3)]
    unfolding test_rbtree_insert_random_def test_rbtree_remove_random_def Let_def vals_def [symmetric] by blast
qed

lemma compact_random_tests:
  fixes node_buf :: "'w::len word list"
  assumes "int LENGTH('w) \<le> INT_MAX" and "\<forall>p. 0 \<le> rand p" and "distinct node_buf" and "2 \<le> length node_buf"
    and "length node_buf < 2 ^ 30"
    and "\<forall>e\<in>set node_buf. e \<noteq> 0 \<and> node_addr (e + offset) \<and> rb_heap s (e + offset) \<noteq> None"
    and "length (rp_path rp) = LENGTH('w)" and "(Suc (length node_buf))\<^sup>2 < 2 ^ LENGTH('w)"
  shows "(\<exists>x. test_rbtree_insert_random (\<lambda>vals. rb_step_c offset (A_NODE_CMP vals) (A_NODE_KEY_CMP vals) rp) rb_child_c rb_color_c
        offset rand node_buf v runs s = Some (Passed x)) \<and>
    (\<exists>x. test_rbtree_remove_random (\<lambda>vals. rb_step_c offset (A_NODE_CMP vals) (A_NODE_KEY_CMP vals) rp) rb_child_c rb_color_c
        offset rand node_buf v runs s = Some (Passed x))"
proof -
  define vals where "vals = number_entries node_buf 0 v"
  have ok: "\<forall>e\<in>set node_buf. e \<noteq> 0 \<and> node_addr (e + offset)" "\<forall>e\<in>set node_buf. rb_heap s (e + offset) \<noteq> None"
    using assms(6) by blast+
  note client = numbered_client [OF assms(3) ok(1) assms(5) vals_def]
  have "compact_test_client (A_NODE_CMP vals) (A_NODE_KEY_CMP vals) vals safe_keys offset (set node_buf) rp"
    using client(1) assms(1,3,7,8)
    by (simp add: compact_test_client_def compact_test_client_axioms_def compact_client_def compact_client_axioms_def distinct_card)
  moreover have "int (length node_buf) * 2 \<le> INT_MAX" using assms(5) by (simp add: INT_MAX_def)
  ultimately show ?thesis
    using compact_test_client.compact_runs_pass [OF _ assms(2,4) _ _ client(2) ok(2) client(3)]
    unfolding test_rbtree_insert_random_def test_rbtree_remove_random_def Let_def vals_def [symmetric] by blast
qed

text \<open>
  C13. The random tests cannot fail: for every sequence of numbers that \<open>rand\<close> returns, every number \<open>n\<close> of entries
  with \<open>2 \<le> n < 2 ^ 30\<close> and every number of runs, \<open>test_rbtree_insert_random\<close> and \<open>test_rbtree_remove_random\<close> pass on the tree
  with parent pointers; they pass on the tree without parent pointers, too, for every content of the local paths, if
  \<open>(n + 1)\<^sup>2 < 2 ^ w\<close>, where \<open>w\<close> is the number of bits of a pointer. The second test sorts the entries that it has not removed with
  \<open>qsort\<close> and the comparator \<open>node_cmp\<close> of the file and expects the tree to hold them in this order.
\<close>

theorem random_tests_pass:
  fixes node_buf :: "'w::len word list"
  assumes "int LENGTH('w) \<le> INT_MAX" and "\<forall>p. 0 \<le> rand p" and "distinct node_buf" and "2 \<le> length node_buf"
    and "length node_buf < 2 ^ 30" and "\<forall>e\<in>set node_buf. e \<noteq> 0 \<and> node_addr (e + offset)"
    and "\<forall>e\<in>set node_buf. rb_heap s (e + offset) \<noteq> None \<and> rb_heap s_c (e + offset) \<noteq> None"
  shows "(\<exists>x. test_rbtree_insert_random (\<lambda>vals. rb_step offset (A_NODE_CMP vals) (A_NODE_KEY_CMP vals)) rb_child rb_color
        offset rand node_buf v runs s = Some (Passed x)) \<and>
    (\<exists>x. test_rbtree_remove_random (\<lambda>vals. rb_step offset (A_NODE_CMP vals) (A_NODE_KEY_CMP vals)) rb_child rb_color
        offset rand node_buf v runs s = Some (Passed x)) \<and>
    (length (rp_path rp) = LENGTH('w) \<and> (Suc (length node_buf))\<^sup>2 < 2 ^ LENGTH('w) \<longrightarrow>
      (\<exists>x. test_rbtree_insert_random (\<lambda>vals. rb_step_c offset (A_NODE_CMP vals) (A_NODE_KEY_CMP vals) rp) rb_child_c rb_color_c
          offset rand node_buf v runs s_c = Some (Passed x)) \<and>
      (\<exists>x. test_rbtree_remove_random (\<lambda>vals. rb_step_c offset (A_NODE_CMP vals) (A_NODE_KEY_CMP vals) rp) rb_child_c rb_color_c
          offset rand node_buf v runs s_c = Some (Passed x)))"
proof -
  have "\<forall>e\<in>set node_buf. e \<noteq> 0 \<and> node_addr (e + offset) \<and> rb_heap s (e + offset) \<noteq> None"
    "\<forall>e\<in>set node_buf. e \<noteq> 0 \<and> node_addr (e + offset) \<and> rb_heap s_c (e + offset) \<noteq> None"
    using assms(6,7) by blast+
  then show ?thesis
    using rb_random_tests [OF assms(1-5), of offset s v runs] compact_random_tests [OF assms(1-5), of offset s_c rp v runs] by blast
qed

theorem random_tests_pass_witness:
  "(\<exists>x. test_rbtree_remove_random (\<lambda>vals. rb_step 8 (A_NODE_CMP vals) (A_NODE_KEY_CMP vals)) rb_child rb_color 8
      (\<lambda>p. int p * 1103515245 mod 32768) [0x1000, 0x2000, 0x3000, 0x4000 :: 64 word] (\<lambda>e. 0) 1000
      \<lparr>rb_root = 1, rb_heap = (\<lambda>a. Some \<lparr>rb_parent_color = 7, rb_children = (\<lambda>d. 7)\<rparr>)\<rparr> = Some (Passed x)) \<and>
    (\<exists>x. test_rbtree_remove_random (\<lambda>vals. rb_step_c 8 (A_NODE_CMP vals) (A_NODE_KEY_CMP vals)
        (local_path \<lparr>rpe_parent = 5, rpe_dir = RB_RIGHT\<rparr> 99)) rb_child_c rb_color_c 8
      (\<lambda>p. int p * 1103515245 mod 32768) [0x1000, 0x2000, 0x3000, 0x4000 :: 64 word] (\<lambda>e. 0) 1000
      \<lparr>rb_root = 1, rb_heap = (\<lambda>a. Some \<lparr>rb_child_color = (\<lambda>d. 7)\<rparr>)\<rparr> = Some (Passed x))"
proof -
  have "\<forall>p. 0 \<le> int p * 1103515245 mod 32768" by simp
  from random_tests_pass [OF _ this, of "[0x1000, 0x2000, 0x3000, 0x4000 :: 64 word]" 8
      "\<lparr>rb_root = 1, rb_heap = (\<lambda>a. Some \<lparr>rb_parent_color = 7, rb_children = (\<lambda>d. 7)\<rparr>)\<rparr>"
      "\<lparr>rb_root = 1, rb_heap = (\<lambda>a. Some \<lparr>rb_child_color = (\<lambda>d. 7)\<rparr>)\<rparr>" "\<lambda>e. 0" 1000
      "local_path \<lparr>rpe_parent = 5, rpe_dir = RB_RIGHT\<rparr> 99"]
  show ?thesis by (simp add: INT_MAX_def node_addr_def aligned_def local_path_def power2_eq_square)
qed

section \<open>Removal at an iterator\<close>

text \<open>The loop that steps an iterator forward \<open>n\<close> times.\<close>

fun rb_advance :: "nat \<Rightarrow> 'w::len word \<Rightarrow> 'w rb \<Rightarrow> 'w word option" where
  "rb_advance 0 iter s = Some iter"
| "rb_advance (Suc n) iter s = do { iter \<leftarrow> rb_next iter s; rb_advance n iter s }"

fun rb_advance_c :: "nat \<Rightarrow> 'w::len word \<Rightarrow> 'w word RB_PATH \<Rightarrow> 'w rbc \<Rightarrow> ('w word \<times> 'w word RB_PATH) option" where
  "rb_advance_c 0 iter rp s = Some (iter, rp)"
| "rb_advance_c (Suc n) iter rp s = do { (iter, rp) \<leftarrow> rb_next_c iter rp s; rb_advance_c n iter rp s }"

lemma rb_advance_st:
  assumes "rb_holds s t" and "inorder t = ws @ zs" and "n < length zs"
  shows "rb_advance n (hd_or_null zs) s = Some (zs ! n)"
  using assms(2,3)
proof (induction n arbitrary: ws zs)
  case 0
  then show ?case by (cases zs) simp_all
next
  case (Suc n)
  then obtain z zs' where zs: "zs = z # zs'" by (cases zs) auto
  then have "rb_next z s = Some (hd_or_null zs')"
    using rb_next_dir [OF assms(1), of RB_RIGHT ws z zs'] Suc.prems by (simp add: rb_next_def dseq_def)
  with Suc.IH [of "ws @ [z]" zs'] Suc.prems zs show ?case by simp
qed

lemma rb_advance_c_st:
  assumes "rb_holds_c s t" and "inorder t = ws @ zs" and "n < length zs" and "path_to t (hd zs) rp"
    and "rb_height t < length (rp_path rp)"
  shows "\<exists>rp'. rb_advance_c n (hd_or_null zs) rp s = Some (zs ! n, rp') \<and> path_to t (zs ! n) rp' \<and>
    length (rp_path rp') = length (rp_path rp)"
  using assms(2-5)
proof (induction n arbitrary: ws zs rp)
  case 0
  then show ?case by (cases zs) simp_all
next
  case (Suc n)
  then obtain z zs' where zs: "zs = z # zs'" "zs' \<noteq> []" by (cases zs; cases "tl zs") auto
  then have "visits t rp (rb_next_c z rp s) zs'"
    using next_visits [OF assms(1) Suc.prems(4), of z RB_RIGHT ws zs'] Suc.prems by (simp add: rb_next_c_def dseq_def)
  then obtain rp' where "rb_next_c z rp s = Some (hd_or_null zs', rp')" "path_to t (hd zs') rp'"
    "length (rp_path rp') = length (rp_path rp)"
    using zs(2) by (auto simp: visits_def)
  with Suc.IH [of "ws @ [z]" zs' rp'] Suc.prems zs show ?case by simp
qed

lemma rb_remove_nth:
  assumes "rb_holds s t" and "n < length (inorder t)"
  shows "\<exists>s' t'. rb_remove (inorder t ! n) s = Some s' \<and> rb_holds s' t' \<and>
    inorder t' = take n (inorder t) @ drop (Suc n) (inorder t)"
  using rb_remove_at [OF assms(1) id_take_nth_drop [OF assms(2)]] by auto

lemma rb_remove_nth_c:
  assumes "rb_holds_c s t" and "n < length (inorder t)" and "path_to t (inorder t ! n) rp"
    and "rb_height t < length (rp_path rp)"
  shows "\<exists>s' t'. rb_remove_c (inorder t ! n) rp s = Some s' \<and> rb_holds_c s' t' \<and>
    inorder t' = take n (inorder t) @ drop (Suc n) (inorder t)"
  using compact_remove_at [OF assms(1) id_take_nth_drop [OF assms(2)] assms(3,4)] by auto

text \<open>
  C10. An iterator is good for a removal: \<open>rb_first\<close>, \<open>n\<close> times \<open>rb_next\<close> and \<open>rb_remove\<close> delete the node number \<open>n\<close> of the
  symmetric order and no other one, in both trees; in the tree without parent pointers with the path that the iteration
  has left, if the height of the tree is less than the length of its array.
\<close>

theorem remove_at_iterator:
  assumes "n < length (inorder t)" and "rb_holds s t" and "rb_holds_c s_c t" and "rb_height t < length (rp_path rp)"
  shows "(\<exists>s' t'. do { iter \<leftarrow> rb_first s; iter \<leftarrow> rb_advance n iter s; rb_remove iter s } = Some s' \<and> rb_holds s' t' \<and>
      inorder t' = take n (inorder t) @ drop (Suc n) (inorder t)) \<and>
    (\<exists>s' t'. do { (iter, rp) \<leftarrow> rb_first_c rp s_c; (iter, rp) \<leftarrow> rb_advance_c n iter rp s_c; rb_remove_c iter rp s_c } = Some s' \<and>
      rb_holds_c s' t' \<and> inorder t' = take n (inorder t) @ drop (Suc n) (inorder t))"
proof
  have t: "tok t" "t \<noteq> Leaf" using assms(1,2) by (auto simp: holds_def)
  have "rb_first s = Some (hd_or_null (inorder t))"
    using rb_iter_st [OF t(1), of RB_LEFT "rb_heap s"] holds_st [OF assms(2)] by (simp add: rb_first_def dseq_def)
  with rb_advance_st [OF assms(2), of "[]" "inorder t" n] rb_remove_nth [OF assms(2,1)] assms(1)
  show "\<exists>s' t'. do { iter \<leftarrow> rb_first s; iter \<leftarrow> rb_advance n iter s; rb_remove iter s } = Some s' \<and> rb_holds s' t' \<and>
      inorder t' = take n (inorder t) @ drop (Suc n) (inorder t)" by simp
  obtain rp1 where first: "rb_first_c rp s_c = Some (hd_or_null (inorder t), rp1)" "length (rp_path rp1) = length (rp_path rp)"
    "path_to t (hd (inorder t)) rp1"
    using rb_iter_c_st [OF t(1) assms(4), of RB_LEFT "rb_heap s_c"] holds_st [OF assms(3)] t(2)
    by (auto simp: rb_first_c_def dseq_def)
  obtain rp2 where "rb_advance_c n (hd_or_null (inorder t)) rp1 s_c = Some (inorder t ! n, rp2)" "path_to t (inorder t ! n) rp2"
    "length (rp_path rp2) = length (rp_path rp)"
    using rb_advance_c_st [OF assms(3) _ assms(1) first(3)] first(2) assms(4) by auto
  with rb_remove_nth_c [OF assms(3,1), of rp2] first(1) assms(4)
  show "\<exists>s' t'. do { (iter, rp) \<leftarrow> rb_first_c rp s_c; (iter, rp) \<leftarrow> rb_advance_c n iter rp s_c; rb_remove_c iter rp s_c } = Some s' \<and>
      rb_holds_c s' t' \<and> inorder t' = take n (inorder t) @ drop (Suc n) (inorder t)" by simp
qed

theorem remove_at_iterator_witness:
  "(\<exists>s' t'. do { iter \<leftarrow> rb_first ex_state; iter \<leftarrow> rb_advance 1 iter ex_state; rb_remove iter ex_state } = Some s' \<and>
      rb_holds s' t' \<and> inorder t' = [0x1008, 0x3008]) \<and>
    (\<exists>s' t'. do { (iter, rp) \<leftarrow> rb_first_c ex_path ex_state_c; (iter, rp) \<leftarrow> rb_advance_c 1 iter rp ex_state_c;
        rb_remove_c iter rp ex_state_c } = Some s' \<and> rb_holds_c s' t' \<and> inorder t' = [0x1008, 0x3008])"
  using remove_at_iterator [OF _ ex_holds ex_holds_c, of 1 ex_path] by (simp add: ex_inorder ex_path_length)

end
