(* ===== verification/RB_Range.thy ===== *)
theory RB_Range
  imports RB_Tests
begin

text \<open>
  Iteration over a range of keys: \<open>RB_FIND\<close> gives the start of an iteration, and in the tree without
  parent pointers the path that the search has recorded is the path of the iterator. This is what
  \<open>rbtree/test_rbtree.c\<close> does in its test of the iteration with the key in the middle.
\<close>

section \<open>The nodes on one side of a key\<close>

text \<open>The keys that an iteration in the given direction meets from \<open>k\<close> on.\<close>

definition from_key :: "rb_dir \<Rightarrow> 'k::linorder \<Rightarrow> 'k \<Rightarrow> bool" where
  "from_key d k j \<longleftrightarrow> (if d = RB_RIGHT then k \<le> j else j \<le> k)"

lemma filter_from_key:
  assumes "sorted_wrt (<) (map f xs)" and "xs = ws @ a # zs"
  shows "filter (\<lambda>x. from_key RB_RIGHT (f a) (f x)) xs = a # zs"
    and "filter (\<lambda>x. from_key RB_LEFT (f a) (f x)) xs = ws @ [a]"
  using assms by (auto simp: from_key_def sorted_wrt_append filter_empty_conv not_le intro!: filter_True)

context rb_client
begin

lemma dseq_from_key:
  assumes t: "tree_ok key_of offset N t" and e: "e \<in> set (entries offset t)"
  obtains ws zs where "dseq d t = ws @ (e + offset) # zs"
    and "filter (\<lambda>a. from_key d (key_of e) (key_of (RB_ENTRY offset a))) (dseq d t) = (e + offset) # zs"
proof -
  have "e + offset \<in> set (inorder t)" using e by (auto simp: entries_def RB_ENTRY_def)
  then obtain ws zs where split: "inorder t = ws @ (e + offset) # zs" by (meson split_list)
  have sorted: "sorted_wrt (<) (map (\<lambda>a. key_of (RB_ENTRY offset a)) (inorder t))"
    using t by (simp add: tree_ok_def entries_def comp_def)
  have [simp]: "RB_ENTRY offset (e + offset) = e" by (simp add: RB_ENTRY_def)
  show thesis
  proof (cases "d = RB_RIGHT")
    case True
    then show thesis using that [of ws zs] split filter_from_key(1) [OF sorted split] by (simp add: dseq_def)
  next
    case False
    then have "d = RB_LEFT" by (cases d) simp_all
    then have dseq: "dseq d t = rev (inorder t)" by (simp add: dseq_def)
    have "filter (\<lambda>a. from_key d (key_of e) (key_of (RB_ENTRY offset a))) (dseq d t) = rev (ws @ [e + offset])"
      unfolding dseq rev_filter [symmetric] using filter_from_key(2) [OF sorted split] \<open>d = RB_LEFT\<close> by simp
    then show thesis using that [of "rev zs" "rev ws"] dseq split by simp
  qed
qed

lemma find_present:
  assumes t: "tree_ok key_of offset N t" and h: "rb_holds s t" and k: "k \<in> K" "tree_map key_of offset t k = Some e"
  shows "rb_find offset key_cmp k s = Some e"
proof -
  obtain kk l c r where loc: "locate (key_search key_cmp offset k) [] t = (kk, Node l c (e + offset) r)"
    by (rule locate_present [OF t k])
  then show ?thesis using rb_find_tree [OF t loc, of "rb_heap s"] holds_st [OF h] by (simp add: RB_ENTRY_def)
qed

lemma find_present_c:
  assumes t: "tree_ok key_of offset N t" and h: "rb_holds_c s t" and room: "rb_height t < length (rp_path rp)"
    and k: "k \<in> K" "tree_map key_of offset t k = Some e"
  shows "\<exists>rp'. rb_find_c offset key_cmp k rp s = Some (e, rp') \<and> length (rp_path rp') = length (rp_path rp) \<and>
    path_to t (e + offset) rp'"
proof -
  obtain kk l c r where loc: "locate (key_search key_cmp offset k) [] t = (kk, Node l c (e + offset) r)"
    by (rule locate_present [OF t k])
  have zip: "t = zip_up kk (Node l c (e + offset) r)"
    using zip_up_locate [of "key_search key_cmp offset k" "[]" t] loc by simp
  obtain sd J where J: "Suc (length J) = length (rp_path rp)" and run: "rb_find_c offset key_cmp k rp s =
      do { rp \<leftarrow> located sd [] J kk; Some (e, rp) }"
    using rb_find_c_room [OF h loc le_less_trans [OF le0 room]] by (auto simp: RB_ENTRY_def)
  have "length kk \<le> length J" using length_le_height [of kk "Node l c (e + offset) r"] zip room J by simp
  then show ?thesis using run J zip by (auto simp: located_def path_to_def intro!: exI)
qed

lemma find_then_walk:
  assumes t: "tree_ok key_of offset N t" and h: "rb_holds s t" and k: "k \<in> K" "k \<in> key_of ` set (entries offset t)"
  shows "do { e \<leftarrow> rb_find offset key_cmp k s; rb_walk d (e + offset) s } =
    Some (filter (\<lambda>a. from_key d k (key_of (RB_ENTRY offset a))) (dseq d t))"
proof -
  obtain e where e: "e \<in> set (entries offset t)" "key_of e = k" "tree_map key_of offset t k = Some e"
    using k(2) tree_map_distinct [OF t] by (auto simp: tree_map_def find_key_eq_Some_iff)
  obtain ws zs where split: "dseq d t = ws @ (e + offset) # zs"
    "filter (\<lambda>a. from_key d (key_of e) (key_of (RB_ENTRY offset a))) (dseq d t) = (e + offset) # zs"
    by (rule dseq_from_key [OF t e(1)])
  with rb_walk_st [OF h split(1)] find_present [OF t h k(1) e(3)] e(2) show ?thesis by simp
qed

lemma find_then_walk_c:
  assumes t: "tree_ok key_of offset N t" and h: "rb_holds_c s t" and room: "rb_height t < length (rp_path rp)"
    and k: "k \<in> K" "k \<in> key_of ` set (entries offset t)"
  shows "do { (e, rp) \<leftarrow> rb_find_c offset key_cmp k rp s; rb_walk_c d (e + offset) rp s } =
    Some (filter (\<lambda>a. from_key d k (key_of (RB_ENTRY offset a))) (dseq d t))"
proof -
  obtain e where e: "e \<in> set (entries offset t)" "key_of e = k" "tree_map key_of offset t k = Some e"
    using k(2) tree_map_distinct [OF t] by (auto simp: tree_map_def find_key_eq_Some_iff)
  obtain rp' where find: "rb_find_c offset key_cmp k rp s = Some (e, rp')" "path_to t (e + offset) rp'"
    "rb_height t < length (rp_path rp')"
    using find_present_c [OF t h room k(1) e(3)] room by auto
  obtain ws zs where split: "dseq d t = ws @ (e + offset) # zs"
    "filter (\<lambda>a. from_key d (key_of e) (key_of (RB_ENTRY offset a))) (dseq d t) = (e + offset) # zs"
    by (rule dseq_from_key [OF t e(1)])
  with rb_walk_c_st [OF h find(3) split(1)] find(1,2) e(2) show ?thesis by simp
qed

end

section \<open>Properties\<close>

text \<open>
  C11. A search is the start of an iteration: on both trees, \<open>RB_FIND\<close> of a key of the tree followed by
  \<open>rb_next\<close> until it returns null visits exactly the nodes whose keys are not less, in ascending
  order, and followed by \<open>rb_prev\<close> those whose keys are not greater, in descending order. In the
  tree without parent pointers the path that the search leaves is good for the iteration, if
  the height of the tree is less than the length of its array.
\<close>

theorem find_then_iterate:
  assumes "rb_client cmp key_cmp key_of K offset N" and "tree_ok key_of offset N t"
    and "rb_holds s t" and "rb_holds_c s' t" and "rb_height t < length (rp_path rp)"
    and "k \<in> K" and "k \<in> key_of ` set (entries offset t)"
  shows "do { e \<leftarrow> rb_find offset key_cmp k s; rb_walk RB_RIGHT (e + offset) s } =
      Some (filter (\<lambda>a. k \<le> key_of (RB_ENTRY offset a)) (inorder t)) \<and>
    do { e \<leftarrow> rb_find offset key_cmp k s; rb_walk RB_LEFT (e + offset) s } =
      Some (rev (filter (\<lambda>a. key_of (RB_ENTRY offset a) \<le> k) (inorder t))) \<and>
    do { (e, rp) \<leftarrow> rb_find_c offset key_cmp k rp s'; rb_walk_c RB_RIGHT (e + offset) rp s' } =
      Some (filter (\<lambda>a. k \<le> key_of (RB_ENTRY offset a)) (inorder t)) \<and>
    do { (e, rp) \<leftarrow> rb_find_c offset key_cmp k rp s'; rb_walk_c RB_LEFT (e + offset) rp s' } =
      Some (rev (filter (\<lambda>a. key_of (RB_ENTRY offset a) \<le> k) (inorder t)))"
  using rb_client.find_then_walk [OF assms(1-3,6,7), of RB_RIGHT]
    rb_client.find_then_walk [OF assms(1-3,6,7), of RB_LEFT]
    rb_client.find_then_walk_c [OF assms(1,2,4-7), of RB_RIGHT]
    rb_client.find_then_walk_c [OF assms(1,2,4-7), of RB_LEFT]
  by (simp add: from_key_def dseq_def rev_filter)

theorem find_then_iterate_witness:
  "do { e \<leftarrow> rb_find 8 (A_NODE_KEY_CMP (\<lambda>e. uint e div 4096)) 2 ex_state; rb_walk RB_RIGHT (e + 8) ex_state } =
      Some [0x2008, 0x3008] \<and>
    do { (e, rp) \<leftarrow> rb_find_c 8 (A_NODE_KEY_CMP (\<lambda>e. uint e div 4096)) 2 ex_path ex_state_c;
      rb_walk_c RB_LEFT (e + 8) rp ex_state_c } = Some [0x2008, 0x1008]"
proof -
  let ?v = "\<lambda>e :: 64 word. uint e div 4096"
  have ent: "entries 8 ex_tree = [0x1000, 0x2000, 0x3000]"
    by (simp add: entries_def ex_inorder RB_ENTRY_def)
  have ok: "tree_ok ?v 8 (a_nodes ?v 8) ex_tree"
    using ex_holds by (simp add: tree_ok_def holds_def ent a_nodes_def node_addr_def aligned_def safe_keys_def)
  have "rb_height ex_tree < length (rp_path ex_path)" "2 \<in> safe_keys" "2 \<in> ?v ` set (entries 8 ex_tree)"
    by (simp_all add: ex_path_length safe_keys_def ent)
  from find_then_iterate [OF a_client.rb_client_axioms ok ex_holds ex_holds_c this] show ?thesis
    by (simp add: ex_inorder RB_ENTRY_def)
qed

end
