(* ===== verification/RB_Iter_Test.thy ===== *)
theory RB_Iter_Test
  imports RB_Range
begin

text \<open>
  The test \<open>test_rbtree_iter\<close> of \<open>rbtree/test_rbtree.c\<close> as a whole: insertion in a random order,
  iteration in both directions, iteration from a found key on, and removal of every node at an
  iterator. The functions that the two headers provide are the members of a record; the locale
  \<open>iter_impl\<close> has the laws of iteration that the test relies on, and both trees satisfy them.
\<close>

section \<open>The test\<close>

text \<open>
  The functions of a header. \<open>'c\<close> is what an iterator carries besides the pointer: the \<open>RB_PATH\<close>, or
  nothing. The direction \<open>RB_RIGHT\<close> stands for \<open>rb_first\<close> and \<open>rb_next\<close>, \<open>RB_LEFT\<close> for \<open>rb_last\<close> and
  \<open>rb_prev\<close>.
\<close>

record ('p, 'k, 'c, 's) iter_ops =
  op_insert :: "'p \<Rightarrow> 's \<Rightarrow> ('p \<times> 's) option"
  op_start :: "rb_dir \<Rightarrow> 'c \<Rightarrow> 's \<Rightarrow> ('p \<times> 'c) option"
  op_move :: "rb_dir \<Rightarrow> 'p \<Rightarrow> 'c \<Rightarrow> 's \<Rightarrow> ('p \<times> 'c) option"
  op_find :: "'k \<Rightarrow> 'c \<Rightarrow> 's \<Rightarrow> ('p \<times> 'c) option"
  op_remove :: "'p \<Rightarrow> 'c \<Rightarrow> 's \<Rightarrow> 's option"
  op_child :: "'p \<Rightarrow> rb_dir \<Rightarrow> 's \<Rightarrow> 'p option"

definition rb_ops :: "'w::len word \<Rightarrow> ('w word \<Rightarrow> 'w word \<Rightarrow> int) \<Rightarrow> ('k \<Rightarrow> 'w word \<Rightarrow> int)
    \<Rightarrow> ('w word, 'k, unit, 'w rb) iter_ops" where
  "rb_ops offset cmp key_cmp = \<lparr>
    op_insert = rb_insert offset cmp,
    op_start = (\<lambda>d _ s. map_option (\<lambda>p. (p, ())) (case d of RB_RIGHT \<Rightarrow> rb_first s | RB_LEFT \<Rightarrow> rb_last s)),
    op_move = (\<lambda>d p _ s. map_option (\<lambda>p. (p, ())) (case d of RB_RIGHT \<Rightarrow> rb_next p s | RB_LEFT \<Rightarrow> rb_prev p s)),
    op_find = (\<lambda>k _ s. map_option (\<lambda>p. (p, ())) (rb_find offset key_cmp k s)),
    op_remove = (\<lambda>p _ s. rb_remove p s),
    op_child = rb_child\<rparr>"

definition compact_ops :: "'w::len word \<Rightarrow> ('w word \<Rightarrow> 'w word \<Rightarrow> int) \<Rightarrow> ('k \<Rightarrow> 'w word \<Rightarrow> int) \<Rightarrow> 'w word RB_PATH
    \<Rightarrow> ('w word, 'k, 'w word RB_PATH, 'w rbc) iter_ops" where
  "compact_ops offset cmp key_cmp rp0 = \<lparr>
    op_insert = rb_insert_c offset cmp rp0,
    op_start = (\<lambda>d rp s. case d of RB_RIGHT \<Rightarrow> rb_first_c rp s | RB_LEFT \<Rightarrow> rb_last_c rp s),
    op_move = (\<lambda>d p rp s. case d of RB_RIGHT \<Rightarrow> rb_next_c p rp s | RB_LEFT \<Rightarrow> rb_prev_c p rp s),
    op_find = (\<lambda>k rp s. rb_find_c offset key_cmp k rp s),
    op_remove = rb_remove_c,
    op_child = rb_child_c\<rparr>"

definition insert_all :: "('p, 'k, 'c, 's) iter_ops \<Rightarrow> 'p list \<Rightarrow> 's \<Rightarrow> 's outcome option" where
  "insert_all ops node s = for_each node (\<lambda>e s. do { (r, s) \<leftarrow> op_insert ops e s; Some (Passed s) }) s"

text \<open>The loop that compares the entries of an iteration with the array; \<open>delta\<close> is \<open>1\<close> or \<open>-1\<close>.\<close>

partial_function (option) check_walk ::
  "('w::len word, int, 'c, 's) iter_ops \<Rightarrow> rb_dir \<Rightarrow> ('w word \<Rightarrow> int) \<Rightarrow> 'w word \<Rightarrow> 'w word list \<Rightarrow> int \<Rightarrow> int
    \<Rightarrow> 'w word \<Rightarrow> 'c \<Rightarrow> 's \<Rightarrow> (int \<times> 'c) outcome option" where
  "check_walk ops d vals offset node_buf delta i iter rp s =
    (if iter \<noteq> 0 then do {
       e \<leftarrow> c_nth node_buf i;
       passed (Some (assert_int_equal (vals e) (vals (RB_ENTRY offset iter)))) (\<lambda>_. do {
         (iter, rp) \<leftarrow> op_move ops d iter rp s;
         i \<leftarrow> c_int (i + delta);
         check_walk ops d vals offset node_buf delta i iter rp s
       })
     }
     else Some (Passed (i, rp)))"

text \<open>The body of the loop over \<open>del_i\<close>. \<open>n\<close> is the length of \<open>node_buf\<close>.\<close>

definition remove_at_run ::
  "('w::len word, int, 'c, ('w word, 'n) rb_state) iter_ops \<Rightarrow> ('w word \<Rightarrow> int) \<Rightarrow> 'w word \<Rightarrow> 'w word list \<Rightarrow> 'w word list
    \<Rightarrow> nat \<Rightarrow> 'c \<Rightarrow> ('w word, 'n) rb_state \<Rightarrow> ('c \<times> ('w word, 'n) rb_state) outcome option" where
  "remove_at_run ops vals offset node_buf node del_i rp s =
    (let n = length node_buf in
     passed (insert_all ops node (RB_ROOT_INITIALIZER s)) (\<lambda>s. do {
       (iter, rp) \<leftarrow> op_start ops RB_RIGHT rp s;
       passed (for_each [0..<del_i] (\<lambda>_ (iter, rp). map_option Passed (op_move ops RB_RIGHT iter rp s)) (iter, rp)) (\<lambda>(iter, rp). do {
         e \<leftarrow> c_nth node_buf (int del_i);
         passed (Some (assert_int_equal (vals e) (vals (RB_ENTRY offset iter)))) (\<lambda>_. do {
           s \<leftarrow> op_remove ops iter rp s;
           let sorted_node = map (\<lambda>i. int i + 1) [0..<del_i] @ map (\<lambda>i. int i + 1) [del_i + 1..<n];
           passed (validate_rbtree_sorted_order (op_child ops) vals offset sorted_node (word_of_nat (n - 1)) s) (\<lambda>_.
             Some (Passed (rp, s)))
         })
       })
     }))"

text \<open>
  The loop over \<open>del_i\<close> ends at the value of \<open>i\<close>, which the body changes: the last loop of the body
  leaves the maximum of \<open>del_i + 1\<close> and the length of \<open>node_buf\<close> in it.
\<close>

partial_function (option) remove_at_loop ::
  "('w::len word, int, 'c, ('w word, 'n) rb_state) iter_ops \<Rightarrow> ('w word \<Rightarrow> int) \<Rightarrow> 'w word \<Rightarrow> 'w word list \<Rightarrow> 'w word list
    \<Rightarrow> nat \<Rightarrow> nat \<Rightarrow> 'c \<Rightarrow> ('w word, 'n) rb_state \<Rightarrow> ('w word, 'n) rb_state outcome option" where
  "remove_at_loop ops vals offset node_buf node del_i i rp s =
    (if del_i < i then
       passed (remove_at_run ops vals offset node_buf node del_i rp s) (\<lambda>x.
         remove_at_loop ops vals offset node_buf node (del_i + 1) (max (del_i + 1) (length node_buf)) (fst x) (snd x))
     else Some (Passed s))"

text \<open>In the source, \<open>node_buf\<close> has 10 entries. The address of a member of a null pointer is undefined.\<close>

definition test_rbtree_iter ::
  "(('w::len word \<Rightarrow> int) \<Rightarrow> ('w word, int, 'c, ('w word, 'n) rb_state) iter_ops) \<Rightarrow> 'w word \<Rightarrow> (nat \<Rightarrow> int)
    \<Rightarrow> 'w word list \<Rightarrow> ('w word \<Rightarrow> int) \<Rightarrow> 'c \<Rightarrow> ('w word, 'n) rb_state \<Rightarrow> ('w word, 'n) rb_state outcome option" where
  "test_rbtree_iter header offset rand node_buf v rp s =
    (let vals = number_entries node_buf 0 v; ops = header vals; n = int (length node_buf) in do {
     (node, _) \<leftarrow> shuffle rand 0 node_buf n;
     passed (insert_all ops node (RB_ROOT_INITIALIZER s)) (\<lambda>s. do {
       (iter, rp) \<leftarrow> op_start ops RB_RIGHT rp s;
       passed (check_walk ops RB_RIGHT vals offset node_buf 1 0 iter rp s) (\<lambda>(i, rp).
       passed (Some (assert_int_equal i n)) (\<lambda>_. do {
         (iter, rp) \<leftarrow> op_start ops RB_LEFT rp s;
         passed (check_walk ops RB_LEFT vals offset node_buf (-1) (n - 1) iter rp s) (\<lambda>(i, rp).
         passed (Some (assert_int_equal i (-1))) (\<lambda>_. do {
           (t, rp) \<leftarrow> op_find ops (n div 2) rp s;
           if t = 0 then None
           else
             passed (check_walk ops RB_RIGHT vals offset node_buf 1 (n div 2 - 1) (t + offset) rp s) (\<lambda>(i, rp).
             passed (Some (assert_int_equal i n)) (\<lambda>_.
             remove_at_loop ops vals offset node_buf node 0 (nat i) rp s))
         }))
       }))
     })
   })"

section \<open>The laws of iteration\<close>

text \<open>
  \<open>good\<close> tells that the path can be used, \<open>at_node t a\<close> that it leads to the node \<open>a\<close> of the tree \<open>t\<close>.
\<close>

locale iter_impl = checked_impl cmp key_cmp key_of K offset N enc step get_child get_color set_color
  for cmp :: "'w::len word \<Rightarrow> 'w word \<Rightarrow> int" and key_cmp :: "int \<Rightarrow> 'w word \<Rightarrow> int"
    and key_of :: "'w word \<Rightarrow> int" and K :: "int set" and offset :: "'w word" and N :: "'w word set"
    and enc :: "('w, 'n) layout"
    and step :: "('w word, int) dict_op \<Rightarrow> ('w word, 'n) rb_state \<Rightarrow> ('w word \<times> ('w word, 'n) rb_state) option"
    and get_child :: "'w word \<Rightarrow> rb_dir \<Rightarrow> ('w word, 'n) rb_state \<Rightarrow> 'w word option"
    and get_color :: "'w word \<Rightarrow> ('w word, 'n) rb_state \<Rightarrow> 'w word option"
    and set_color :: "'w word \<Rightarrow> 'w word \<Rightarrow> ('w word, 'n) rb_state \<Rightarrow> ('w word, 'n) rb_state option" +
  fixes ops :: "('w word, int, 'c, ('w word, 'n) rb_state) iter_ops"
    and good :: "'c \<Rightarrow> bool" and at_node :: "'w word rbt \<Rightarrow> 'w word \<Rightarrow> 'c \<Rightarrow> bool"
  assumes insert_is_step: "op_insert ops e s = step (RB_INSERT e) s"
    and child_is_child: "op_child ops = get_child"
    and start_law: "tree_ok key_of offset N t \<Longrightarrow> holds enc s t \<Longrightarrow> good rp \<Longrightarrow>
      \<exists>rp'. op_start ops d rp s = Some (hd_or_null (dseq d t), rp') \<and> good rp' \<and>
        (t \<noteq> Leaf \<longrightarrow> at_node t (hd (dseq d t)) rp')"
    and move_law: "tree_ok key_of offset N t \<Longrightarrow> holds enc s t \<Longrightarrow> good rp \<Longrightarrow> at_node t a rp \<Longrightarrow>
      dseq d t = ws @ a # zs \<Longrightarrow>
      \<exists>rp'. op_move ops d a rp s = Some (hd_or_null zs, rp') \<and> good rp' \<and> (zs \<noteq> [] \<longrightarrow> at_node t (hd zs) rp')"
    and find_law: "tree_ok key_of offset N t \<Longrightarrow> holds enc s t \<Longrightarrow> good rp \<Longrightarrow> k \<in> K \<Longrightarrow>
      tree_map key_of offset t k = Some e \<Longrightarrow>
      \<exists>rp'. op_find ops k rp s = Some (e, rp') \<and> good rp' \<and> at_node t (e + offset) rp'"
    and remove_law: "tree_ok key_of offset N t \<Longrightarrow> holds enc s t \<Longrightarrow> good rp \<Longrightarrow> at_node t a rp \<Longrightarrow>
      inorder t = ws @ a # zs \<Longrightarrow>
      \<exists>s' t'. op_remove ops a rp s = Some s' \<and> holds enc s' t' \<and> inorder t' = ws @ zs \<and>
        (\<forall>b. b \<notin> set (ws @ zs) \<longrightarrow> rb_heap s' b = rb_heap s b)"

text \<open>The index of the test that belongs to the node number \<open>j\<close> of an iteration.\<close>

definition walk_index :: "rb_dir \<Rightarrow> nat \<Rightarrow> nat \<Rightarrow> int" where
  "walk_index d n j = (if d = RB_RIGHT then int j else int n - 1 - int j)"

definition walk_delta :: "rb_dir \<Rightarrow> int" where
  "walk_delta d = (if d = RB_RIGHT then 1 else -1)"

lemma walk_index_Suc: "walk_index d n (Suc j) = walk_index d n j + walk_delta d"
  by (simp add: walk_index_def walk_delta_def)

lemma walk_entry:
  assumes "dseq d t = ws @ z # zs" and "entries offset t = node_buf"
  shows "c_nth node_buf (walk_index d (length node_buf) (length ws)) = Some (RB_ENTRY offset z)"
proof (cases "d = RB_RIGHT")
  case True
  then have "node_buf = map (RB_ENTRY offset) ws @ RB_ENTRY offset z # map (RB_ENTRY offset) zs"
    using assms by (simp add: dseq_def entries_def)
  then show ?thesis using True by (simp add: walk_index_def c_nth_def nth_append)
next
  case False
  then have "rev node_buf = map (RB_ENTRY offset) ws @ RB_ENTRY offset z # map (RB_ENTRY offset) zs"
    using assms by (auto simp: dseq_def entries_def rev_map)
  then have "node_buf = rev (map (RB_ENTRY offset) zs) @ RB_ENTRY offset z # rev (map (RB_ENTRY offset) ws)"
    unfolding rev_swap by simp
  then show ?thesis using False by (simp add: walk_index_def c_nth_def nth_append)
qed

lemma length_dseq: "length (dseq d t) = length (inorder t)"
  by (simp add: dseq_def)

lemma sorted_numbers: "sorted_wrt (<) (map (\<lambda>i. int i + 1) [a..<b])"
  by (auto simp: sorted_wrt_iff_nth_less)

lemma walk_index_c_int:
  assumes "j \<le> n" and "n < 2 ^ 30"
  shows "c_int (walk_index d n j) = Some (walk_index d n j)"
proof -
  have "int j \<le> int n" "int n < 2 ^ 30" using assms by (simp_all flip: of_nat_less_iff)
  then show ?thesis by (intro c_int_Some) (auto simp: walk_index_def INT_MIN_def INT_MAX_def)
qed

context iter_impl
begin

lemma check_walk_passes:
  assumes t: "tree_ok key_of offset N t" "holds enc s t" and ent: "entries offset t = node_buf" "length node_buf < 2 ^ 30"
    and "dseq d t = ws @ zs" and "good rp" and "zs \<noteq> [] \<longrightarrow> at_node t (hd zs) rp"
  shows "\<exists>rp'. check_walk ops d key_of offset node_buf (walk_delta d) (walk_index d (length node_buf) (length ws))
      (hd_or_null zs) rp s = Some (Passed (walk_index d (length node_buf) (length node_buf), rp')) \<and> good rp'"
  using assms(5-)
proof (induction zs arbitrary: ws rp)
  case Nil
  then have "length ws = length node_buf" using ent(1) by (auto simp: dseq_def entries_def split: if_splits)
  with Nil show ?case by (subst check_walk.simps) simp
next
  case (Cons z zs)
  have "z \<in> addrs t" using Cons.prems(1) by (metis dseq_def in_set_conv_decomp set_rev)
  then have z: "z \<noteq> 0" using t(2) by (auto simp: holds_def dest: addrs_node_addr node_addr_nonnull)
  have len: "length (ws @ z # zs) = length node_buf"
    using ent(1) arg_cong [OF Cons.prems(1), of length] by (auto simp: length_dseq entries_def)
  obtain rp' where m: "op_move ops d z rp s = Some (hd_or_null zs, rp')" "good rp'" "zs \<noteq> [] \<longrightarrow> at_node t (hd zs) rp'"
    using move_law [OF t Cons.prems(2) _ Cons.prems(1)] Cons.prems(3) by auto
  have i: "c_int (walk_index d (length node_buf) (length ws) + walk_delta d) =
      Some (walk_index d (length node_buf) (length (ws @ [z])))"
    using walk_index_c_int [of "Suc (length ws)" "length node_buf" d] len ent(2) by (simp add: walk_index_Suc)
  show ?case
    using Cons.IH [of "ws @ [z]" rp'] Cons.prems(1) m walk_entry [OF Cons.prems(1) ent(1)] i z
    by (subst check_walk.simps) (simp add: assert_int_equal_def)
qed

lemma insert_all_sim:
  assumes "dict_sim enc key_of offset N s m" and "set node \<subseteq> N"
  shows "\<exists>s'. insert_all ops node s = Some (Passed s') \<and>
    dict_sim enc key_of offset N s' (snd (dict_spec_run key_of (map RB_INSERT node) m))"
  using assms
proof (induction node arbitrary: s m)
  case Nil
  then show ?case by (simp add: insert_all_def)
next
  case (Cons e es)
  then have "legal_op K N (RB_INSERT e)" by simp
  then obtain s1 where s1: "step (RB_INSERT e) s = Some (fst (dict_spec key_of (RB_INSERT e) m), s1)"
    "dict_sim enc key_of offset N s1 (snd (dict_spec key_of (RB_INSERT e) m))"
    using step_simulates [OF Cons.prems(1)] by blast
  with Cons.IH [OF s1(2)] Cons.prems(2) show ?case
    by (auto simp: insert_all_def insert_is_step case_prod_beta)
qed

lemma insert_all_entries:
  assumes s: "mapped s" and node: "mset node = mset node_buf" and N: "N = set node_buf"
    and sorted: "sorted_wrt (<) (map key_of node_buf)"
  obtains s' t where "insert_all ops node (RB_ROOT_INITIALIZER s) = Some (Passed s')" and "tree_ok key_of offset N t"
    and "holds enc s' t" and "entries offset t = node_buf" and "mapped s'"
proof -
  have set: "set node = set node_buf" using node by (rule mset_eq_setD)
  obtain s' where s': "insert_all ops node (RB_ROOT_INITIALIZER s) = Some (Passed s')"
    "dict_sim enc key_of offset N s' (snd (dict_spec_run key_of (map RB_INSERT node) Map.empty))"
    using insert_all_sim [OF initial_sim [OF s]] set N by blast
  then obtain t where t: "tree_ok key_of offset N t" "holds enc s' t" "mapped s'"
    "tree_map key_of offset t = snd (dict_spec_run key_of (map RB_INSERT node) Map.empty)"
    by (auto simp: dict_sim_def)
  have "key_of ` set (entries offset t) = key_of ` set node_buf"
    using arg_cong [OF t(4), of dom] dom_spec_inserts [of key_of node Map.empty] dom_find_key [of key_of "entries offset t"] set
    by (simp add: tree_map_def)
  then have "map key_of (entries offset t) = map key_of node_buf"
    using t(1) sorted by (intro sorted_distinct_set_unique) (auto simp: strict_sorted_iff tree_ok_def)
  moreover have "inj_on key_of (set (entries offset t) \<union> set node_buf)"
    using sorted t(1) N strict_sorted_distinct [OF sorted] by (auto simp: tree_ok_def distinct_map Un_absorb1)
  ultimately have "entries offset t = node_buf" by (simp add: inj_on_map_eq_map)
  with that s'(1) t show thesis by blast
qed

lemma advance_passes:
  assumes t: "tree_ok key_of offset N t" "holds enc s t" and rp: "good rp" "at_node t (hd (inorder t)) rp"
    and n: "n < length (inorder t)"
  shows "\<exists>rp'. for_each [0..<n] (\<lambda>_ (iter, rp). map_option Passed (op_move ops RB_RIGHT iter rp s))
      (hd_or_null (inorder t), rp) = Some (Passed (inorder t ! n, rp')) \<and> good rp' \<and> at_node t (inorder t ! n) rp'"
  using n
proof (induction n)
  case 0
  then show ?case using rp by (cases "inorder t") auto
next
  case (Suc n)
  then obtain rp' where rp': "for_each [0..<n] (\<lambda>_ (iter, rp). map_option Passed (op_move ops RB_RIGHT iter rp s))
      (hd_or_null (inorder t), rp) = Some (Passed (inorder t ! n, rp'))" "good rp'" "at_node t (inorder t ! n) rp'"
    by auto
  have d: "drop (Suc n) (inorder t) = inorder t ! Suc n # drop (Suc (Suc n)) (inorder t)"
    using Suc.prems by (simp add: Cons_nth_drop_Suc)
  have "dseq RB_RIGHT t = take n (inorder t) @ inorder t ! n # drop (Suc n) (inorder t)"
    using id_take_nth_drop [of n "inorder t"] Suc.prems by (simp add: dseq_def)
  from move_law [OF t rp'(2,3) this] d rp'(1) show ?case by (auto simp: for_each_append)
qed

text \<open>The array of the values that the test expects after a removal.\<close>

lemma removed_keys:
  assumes "map key_of node_buf = map (\<lambda>i. int i + 1) [0..<length node_buf]" and "n < length node_buf"
  shows "map key_of (take n node_buf @ drop (Suc n) node_buf) =
    map (\<lambda>i. int i + 1) [0..<n] @ map (\<lambda>i. int i + 1) [n + 1..<length node_buf]"
proof -
  have "map key_of (take n node_buf) = map (\<lambda>i. int i + 1) [0..<n]"
    using assms take_map [of n key_of node_buf] by (simp add: take_map)
  moreover have "map key_of (drop n' node_buf) = map (\<lambda>i. int i + 1) [n'..<length node_buf]" for n'
    using assms(1) drop_map [of n' key_of node_buf] by (simp add: drop_map)
  ultimately show ?thesis by simp
qed

lemma mapped_after_remove:
  assumes "mapped s" and "holds enc s' t'" and "\<forall>b. b \<notin> set (inorder t') \<longrightarrow> rb_heap s' b = rb_heap s b"
  shows "mapped s'"
proof
  fix e assume "e \<in> N"
  with assms heap_of_in [of "e + offset" t' enc 0] show "rb_heap s' (e + offset) \<noteq> None"
    by (cases "e + offset \<in> addrs t'") (auto simp: holds_def)
qed

lemma remove_at_run_passes:
  assumes s: "mapped s" and node: "mset node = mset node_buf" and N: "N = set node_buf"
    and num: "map key_of node_buf = map (\<lambda>i. int i + 1) [0..<length node_buf]"
    and n: "n < length node_buf" and rp: "good rp"
  shows "\<exists>rp' s'. remove_at_run ops key_of offset node_buf node n rp s = Some (Passed (rp', s')) \<and> good rp' \<and> mapped s'"
proof -
  have sorted: "sorted_wrt (<) (map key_of node_buf)" unfolding num by (rule sorted_numbers)
  obtain s1 t where s1: "insert_all ops node (RB_ROOT_INITIALIZER s) = Some (Passed s1)" and t: "tree_ok key_of offset N t"
    and h: "holds enc s1 t" and ent: "entries offset t = node_buf" and m: "mapped s1"
    by (rule insert_all_entries [OF s node N sorted])
  have len: "length (inorder t) = length node_buf" using ent by (auto simp: entries_def)
  have leaf: "t \<noteq> Leaf" using len n by auto
  obtain rp1 where rp1: "op_start ops RB_RIGHT rp s1 = Some (hd_or_null (inorder t), rp1)" "good rp1"
    "at_node t (hd (inorder t)) rp1"
    using start_law [OF t h rp, of RB_RIGHT] leaf by (auto simp: dseq_def)
  obtain rp2 where rp2: "for_each [0..<n] (\<lambda>_ (iter, rp). map_option Passed (op_move ops RB_RIGHT iter rp s1))
      (hd_or_null (inorder t), rp1) = Some (Passed (inorder t ! n, rp2))" "good rp2" "at_node t (inorder t ! n) rp2"
    using advance_passes [OF t h rp1(2,3)] n len by auto
  have "c_nth (entries offset t) (int n) = Some (RB_ENTRY offset (inorder t ! n))"
    using n unfolding len [symmetric] by (simp add: c_nth_def entries_def)
  then have nth: "c_nth node_buf (int n) = Some (RB_ENTRY offset (inorder t ! n))" unfolding ent .
  have split: "inorder t = take n (inorder t) @ inorder t ! n # drop (Suc n) (inorder t)"
    by (rule id_take_nth_drop) (simp add: n len)
  from remove_law [OF t h rp2(2,3) split] obtain s' t' where s': "op_remove ops (inorder t ! n) rp2 s1 = Some s'" "holds enc s' t'"
    "inorder t' = take n (inorder t) @ drop (Suc n) (inorder t)"
    "\<forall>b. b \<notin> set (inorder t') \<longrightarrow> rb_heap s' b = rb_heap s1 b"
    by auto
  have ent': "entries offset t' = take n node_buf @ drop (Suc n) node_buf"
    using s'(3) ent by (auto simp: entries_def take_map drop_map)
  let ?ys = "map (\<lambda>i. int i + 1) [0..<n] @ map (\<lambda>i. int i + 1) [n + 1..<length node_buf]"
  have keys: "map key_of (entries offset t') = ?ys" unfolding ent' by (rule removed_keys [OF num n])
  have ys: "sorted_wrt (<) ?ys" using sorted_numbers by (auto simp: sorted_wrt_append)
  have "validate_rbtree_sorted_order get_child key_of offset ?ys (word_of_nat (length ?ys)) s' = Some (Passed ())"
    using ys by (intro sorted_order_holds [OF s'(2)]) (simp_all only: keys flip: set_map)
  moreover have "length ?ys = length node_buf - 1" using n by simp
  ultimately have "validate_rbtree_sorted_order get_child key_of offset ?ys (word_of_nat (length node_buf - 1)) s' =
      Some (Passed ())" by (simp only:)
  moreover have "mapped s'" by (rule mapped_after_remove [OF m s'(2,4)])
  ultimately show ?thesis
    using s1 rp1(1) rp2 s'(1) nth by (simp add: remove_at_run_def child_is_child assert_int_equal_def Let_def)
qed

lemma remove_at_loop_passes:
  assumes node: "mset node = mset node_buf" and N: "N = set node_buf"
    and num: "map key_of node_buf = map (\<lambda>i. int i + 1) [0..<length node_buf]"
  shows "n \<le> length node_buf \<Longrightarrow> good rp \<Longrightarrow> mapped s \<Longrightarrow>
    \<exists>s'. remove_at_loop ops key_of offset node_buf node n (length node_buf) rp s = Some (Passed s')"
proof (induction "length node_buf - n" arbitrary: n rp s)
  case 0
  then show ?case by (subst remove_at_loop.simps) simp
next
  case (Suc m)
  then have n: "n < length node_buf" "max (n + 1) (length node_buf) = length node_buf" by simp_all
  obtain rp' s' where run: "remove_at_run ops key_of offset node_buf node n rp s = Some (Passed (rp', s'))" "good rp'" "mapped s'"
    using remove_at_run_passes [OF Suc.prems(3) node N num n(1) Suc.prems(2)] by blast
  have "\<exists>s''. remove_at_loop ops key_of offset node_buf node (n + 1) (length node_buf) rp' s' = Some (Passed s'')"
    using Suc.hyps(2) n(1) run(2,3) by (intro Suc.hyps(1)) simp_all
  with run(1) n show ?case by (subst remove_at_loop.simps) simp
qed

lemma test_rbtree_iter_passes:
  assumes rand: "\<forall>p. 0 \<le> rand p" and len: "2 \<le> length node_buf" "length node_buf < 2 ^ 30"
    and N: "N = set node_buf" and num: "map key_of node_buf = map (\<lambda>i. int i + 1) [0..<length node_buf]"
    and key: "key_of = number_entries node_buf 0 v" and rp: "good rp" and s: "mapped s" and ops: "header key_of = ops"
  shows "\<exists>s'. test_rbtree_iter header offset rand node_buf v rp s = Some (Passed s')"
proof -
  let ?n = "length node_buf"
  have sorted: "sorted_wrt (<) (map key_of node_buf)" unfolding num by (rule sorted_numbers)
  have "int ?n * 2 \<le> INT_MAX" using len(2) by (simp add: INT_MAX_def)
  then obtain node p where node: "shuffle rand 0 node_buf (int ?n) = Some (node, p)" "mset node = mset node_buf"
    using shuffle_mset [OF rand len(1) _ refl, of 0] by metis
  obtain s1 t where s1: "insert_all ops node (RB_ROOT_INITIALIZER s) = Some (Passed s1)" and t: "tree_ok key_of offset N t"
    and h: "holds enc s1 t" and ent: "entries offset t = node_buf" and m: "mapped s1"
    by (rule insert_all_entries [OF s node(2) N sorted])
  have leaf: "t \<noteq> Leaf" using ent len(1) by (auto simp: entries_def)
  note walk = check_walk_passes [OF t h ent len(2)]
  have whole: "\<exists>rp' rp''. op_start ops d rp s1 = Some (hd_or_null (dseq d t), rp') \<and>
      check_walk ops d key_of offset node_buf (walk_delta d) (walk_index d ?n 0) (hd_or_null (dseq d t)) rp' s1 =
        Some (Passed (walk_index d ?n ?n, rp'')) \<and> good rp''" if g: "good rp" for d rp
  proof -
    obtain rp' where rp': "op_start ops d rp s1 = Some (hd_or_null (dseq d t), rp')" "good rp'" "at_node t (hd (dseq d t)) rp'"
      using start_law [OF t h g, of d] leaf by blast
    with walk [of d "[]" "dseq d t" rp'] show ?thesis by auto
  qed
  obtain rp1 rp2 where up: "op_start ops RB_RIGHT rp s1 = Some (hd_or_null (dseq RB_RIGHT t), rp1)"
      "check_walk ops RB_RIGHT key_of offset node_buf 1 0 (hd_or_null (dseq RB_RIGHT t)) rp1 s1 = Some (Passed (int ?n, rp2))"
      "good rp2"
    using whole [OF rp, of RB_RIGHT] by (auto simp: walk_index_def walk_delta_def)
  obtain rp3 rp4 where down: "op_start ops RB_LEFT rp2 s1 = Some (hd_or_null (dseq RB_LEFT t), rp3)"
      "check_walk ops RB_LEFT key_of offset node_buf (-1) (int ?n - 1) (hd_or_null (dseq RB_LEFT t)) rp3 s1 = Some (Passed (-1, rp4))"
      "good rp4"
    using whole [OF up(3), of RB_LEFT] by (auto simp: walk_index_def walk_delta_def)
  let ?j = "?n div 2 - 1"
  have j: "?j < ?n" "int ?n div 2 = int ?j + 1" using len(1) by (auto simp: zdiv_int)
  let ?e = "node_buf ! ?j"
  have e: "?e \<in> N" "key_of ?e = int ?n div 2"
    using j N arg_cong [OF num, of "\<lambda>xs. xs ! ?j"] by simp_all
  have find: "tree_map key_of offset t (int ?n div 2) = Some ?e"
    using e N tree_map_distinct [OF t] ent by (simp add: tree_map_def find_key_eq_Some_iff)
  obtain rp5 where rp5: "op_find ops (int ?n div 2) rp4 s1 = Some (?e, rp5)" "good rp5" "at_node t (?e + offset) rp5"
    using find_law [OF t h down(3) _ find] entry_key [OF e(1)] e(2) by auto
  have node_e: "inorder t ! ?j = ?e + offset" "?j < length (inorder t)" using ent j(1) by (auto simp: entries_def RB_ENTRY_def)
  have "dseq RB_RIGHT t = take ?j (inorder t) @ (?e + offset) # drop (Suc ?j) (inorder t)"
    using id_take_nth_drop [OF node_e(2)] node_e(1) by (simp add: dseq_def)
  from walk [OF this rp5(2)] rp5(3) node_e(2) obtain rp6 where up2:
    "check_walk ops RB_RIGHT key_of offset node_buf 1 (int ?j) (?e + offset) rp5 s1 = Some (Passed (int ?n, rp6))" "good rp6"
    by (auto simp: walk_index_def walk_delta_def)
  obtain s' where "remove_at_loop ops key_of offset node_buf node 0 ?n rp6 s1 = Some (Passed s')"
    using remove_at_loop_passes [OF node(2) N num, of 0 rp6 s1] up2(2) m by auto
  then show ?thesis
    using node(1) s1 up down rp5(1) up2(1) entry_nonnull [OF e(1)] j(2) ops
    by (simp add: test_rbtree_iter_def Let_def assert_int_equal_def flip: key)
qed

end

section \<open>Both trees\<close>

lemma rb_ops_laws:
  assumes "rb_holds s t"
  shows "op_start (rb_ops offset cmp key_cmp) d rp s = Some (hd_or_null (dseq d t), ())"
    and "dseq d t = ws @ a # zs \<Longrightarrow> op_move (rb_ops offset cmp key_cmp) d a rp s = Some (hd_or_null zs, ())"
proof -
  have "tok t" "s = st enc (rb_heap s) [] t" using assms holds_st by (auto simp: holds_def)
  then have "rb_iter (flip d) s = Some (hd_or_null (dseq d t))" for d
    using rb_iter_st [of t "flip d" "rb_heap s"] by (cases d) auto
  from this [of RB_RIGHT] this [of RB_LEFT]
  show "op_start (rb_ops offset cmp key_cmp) d rp s = Some (hd_or_null (dseq d t), ())"
    by (cases d) (simp_all add: rb_ops_def rb_first_def rb_last_def)
  show "op_move (rb_ops offset cmp key_cmp) d a rp s = Some (hd_or_null zs, ())" if "dseq d t = ws @ a # zs"
    using rb_next_dir [OF assms that] by (cases d) (simp_all add: rb_ops_def rb_next_def rb_prev_def)
qed

sublocale test_client \<subseteq> it: iter_impl cmp key_cmp key_of K offset N enc "rb_step offset cmp key_cmp"
    rb_child rb_color rb_set_color "rb_ops offset cmp key_cmp" "\<lambda>_. True" "\<lambda>_ _ _. True"
proof unfold_locales
  fix t s and k :: int and e :: "'w word"
  assume "tree_ok key_of offset N t" "rb_holds s t" "k \<in> K" "tree_map key_of offset t k = Some e"
  then show "\<exists>rp'. op_find (rb_ops offset cmp key_cmp) k rp s = Some (e, rp') \<and> True \<and> True" for rp
    using find_present by (simp add: rb_ops_def)
next
  fix t s and a :: "'w word" and ws zs
  assume "rb_holds s t" "inorder t = ws @ a # zs"
  then show "\<exists>s' t'. op_remove (rb_ops offset cmp key_cmp) a rp s = Some s' \<and> rb_holds s' t' \<and> inorder t' = ws @ zs \<and>
      (\<forall>b. b \<notin> set (ws @ zs) \<longrightarrow> rb_heap s' b = rb_heap s b)" for rp
    using rb_remove_at [of s t ws a zs] by (simp add: rb_ops_def)
qed (simp_all add: rb_ops_laws, simp_all add: rb_ops_def)

sublocale compact_test_client \<subseteq> it_c: iter_impl cmp key_cmp key_of K offset N enc_c "rb_step_c offset cmp key_cmp rp0"
    rb_child_c rb_color_c rb_set_color_c "compact_ops offset cmp key_cmp rp0"
    "\<lambda>rp. length (rp_path rp) = length (rp_path rp0)" path_to
proof unfold_locales
  fix t s and rp :: "'w word RB_PATH" and d
  assume t: "tree_ok key_of offset N t" and h: "rb_holds_c s t" and rp: "length (rp_path rp) = length (rp_path rp0)"
  have room: "rb_height t < length (rp_path rp)" using height_fits [OF t] rp by simp
  have st: "tok t" "s = st enc_c (rb_heap s) [] t" using h holds_st by (auto simp: holds_def)
  have "\<exists>rp'. rb_iter_c (flip d) rp s = Some (hd_or_null (dseq d t), rp') \<and>
      length (rp_path rp') = length (rp_path rp) \<and> (t \<noteq> Leaf \<longrightarrow> path_to t (hd (dseq d t)) rp')" for d
    using rb_iter_c_st [OF st(1) room, of "flip d" "rb_heap s"] st(2) by (cases d) auto
  from this [of RB_RIGHT] this [of RB_LEFT]
  show "\<exists>rp'. op_start (compact_ops offset cmp key_cmp rp0) d rp s = Some (hd_or_null (dseq d t), rp') \<and>
      length (rp_path rp') = length (rp_path rp0) \<and> (t \<noteq> Leaf \<longrightarrow> path_to t (hd (dseq d t)) rp')"
    using rp by (cases d) (simp_all add: compact_ops_def rb_first_c_def rb_last_c_def)
  show "\<exists>rp'. op_find (compact_ops offset cmp key_cmp rp0) k rp s = Some (e, rp') \<and>
      length (rp_path rp') = length (rp_path rp0) \<and> path_to t (e + offset) rp'"
    if "k \<in> K" "tree_map key_of offset t k = Some e" for k e
    using find_present_c [OF t h room that] rp by (simp add: compact_ops_def)
  fix a ws zs
  assume p: "path_to t a rp"
  show "\<exists>rp'. op_move (compact_ops offset cmp key_cmp rp0) d a rp s = Some (hd_or_null zs, rp') \<and>
      length (rp_path rp') = length (rp_path rp0) \<and> (zs \<noteq> [] \<longrightarrow> path_to t (hd zs) rp')" if "dseq d t = ws @ a # zs"
    using next_visits [OF h room p that] rp
    by (cases d) (simp_all add: compact_ops_def rb_next_c_def rb_prev_c_def visits_def)
  show "\<exists>s' t'. op_remove (compact_ops offset cmp key_cmp rp0) a rp s = Some s' \<and> rb_holds_c s' t' \<and>
      inorder t' = ws @ zs \<and> (\<forall>b. b \<notin> set (ws @ zs) \<longrightarrow> rb_heap s' b = rb_heap s b)" if "inorder t = ws @ a # zs"
    using compact_remove_at [OF h that p room] by (simp add: compact_ops_def)
qed (simp_all add: compact_ops_def)

context test_client
begin

lemmas rb_iter_passes = it.test_rbtree_iter_passes

end

context compact_test_client
begin

lemmas compact_iter_passes = it_c.test_rbtree_iter_passes

end

section \<open>Properties\<close>

text \<open>
  C12. The test of the iteration passes on both trees, for every sequence of random numbers and every
  number \<open>n\<close> of entries with \<open>2 \<le> n < 2 ^ 30\<close> and \<open>(n + 1)\<^sup>2 < 2 ^ w\<close>, where \<open>w\<close> is the number of bits of a pointer
  (\<open>shuffle\<close> divides by \<open>n - 1\<close>), and whatever the paths contain at first: iteration in both directions and from the
  key in the middle on visits the entries in the order of the array, and the removal of each node at
  an iterator leaves the others in their order. The loop over the nodes to remove, whose limit is
  the variable that its body uses for other loops, ends after all of them.
\<close>

theorem rbtree_iter_test_passes:
  fixes node_buf :: "'w::len word list"
  assumes "int LENGTH('w) \<le> INT_MAX" and "\<forall>p. 0 \<le> rand p" and "distinct node_buf" and "2 \<le> length node_buf"
    and "length node_buf < 2 ^ 30"
    and "\<forall>e\<in>set node_buf. e \<noteq> 0 \<and> node_addr (e + offset) \<and>
      rb_heap s (e + offset) \<noteq> None \<and> rb_heap s_c (e + offset) \<noteq> None"
    and "length (rp_path rp0) = LENGTH('w)" and "length (rp_path rp) = LENGTH('w)"
    and "(Suc (length node_buf))\<^sup>2 < 2 ^ LENGTH('w)"
  shows "(\<exists>s'. test_rbtree_iter (\<lambda>vals. rb_ops offset (A_NODE_CMP vals) (A_NODE_KEY_CMP vals))
      offset rand node_buf v () s = Some (Passed s')) \<and>
    (\<exists>s'. test_rbtree_iter (\<lambda>vals. compact_ops offset (A_NODE_CMP vals) (A_NODE_KEY_CMP vals) rp0)
      offset rand node_buf v rp s_c = Some (Passed s'))"
proof -
  define vals where "vals = number_entries node_buf 0 v"
  have ok: "\<forall>e\<in>set node_buf. e \<noteq> 0 \<and> node_addr (e + offset)" "\<forall>e\<in>set node_buf. rb_heap s (e + offset) \<noteq> None"
    "\<forall>e\<in>set node_buf. rb_heap s_c (e + offset) \<noteq> None"
    using assms(6) by blast+
  note client = numbered_client [OF assms(3) ok(1) assms(5) vals_def]
  have rb: "test_client (A_NODE_CMP vals) (A_NODE_KEY_CMP vals) vals safe_keys offset (set node_buf)"
    and compact: "compact_test_client (A_NODE_CMP vals) (A_NODE_KEY_CMP vals) vals safe_keys offset (set node_buf) rp0"
    using client(1) assms(1,3,7,9)
    by (simp_all add: test_client_def test_client_axioms_def compact_test_client_def compact_test_client_axioms_def
        compact_client_def compact_client_axioms_def distinct_card)
  have num: "map vals node_buf = map (\<lambda>i. int i + 1) [0..<length node_buf]"
    using number_entries_map [OF assms(3), of 0 v] by (intro nth_equalityI) (simp_all add: vals_def)
  show ?thesis
    using test_client.rb_iter_passes [OF rb assms(2,4,5) refl num vals_def _ ok(2)]
      compact_test_client.compact_iter_passes [OF compact assms(2,4,5) refl num vals_def _ ok(3)] assms(7,8)
    by simp
qed

theorem rbtree_iter_test_passes_witness:
  "\<exists>s'. test_rbtree_iter (\<lambda>vals. compact_ops 8 (A_NODE_CMP vals) (A_NODE_KEY_CMP vals)
        (local_path \<lparr>rpe_parent = 5, rpe_dir = RB_RIGHT\<rparr> 99)) 8 (\<lambda>p. int p * 1103515245 mod 32768)
      [0x1000, 0x2000, 0x3000, 0x4000 :: 64 word] (\<lambda>e. 0) (local_path \<lparr>rpe_parent = 7, rpe_dir = RB_LEFT\<rparr> 11)
      \<lparr>rb_root = 1, rb_heap = (\<lambda>a. Some \<lparr>rb_child_color = (\<lambda>d. 7)\<rparr>)\<rparr> = Some (Passed s')"
proof -
  have "\<forall>p. 0 \<le> int p * 1103515245 mod 32768" by simp
  from rbtree_iter_test_passes [OF _ this, of "[0x1000, 0x2000, 0x3000, 0x4000 :: 64 word]" 8
      "\<lparr>rb_root = 1, rb_heap = (\<lambda>a. Some \<lparr>rb_parent_color = 7, rb_children = (\<lambda>d. 7)\<rparr>)\<rparr>"
      "\<lparr>rb_root = 1, rb_heap = (\<lambda>a. Some \<lparr>rb_child_color = (\<lambda>d. 7)\<rparr>)\<rparr>"
      "local_path \<lparr>rpe_parent = 5, rpe_dir = RB_RIGHT\<rparr> 99" "local_path \<lparr>rpe_parent = 7, rpe_dir = RB_LEFT\<rparr> 11" "\<lambda>e. 0"]
  show ?thesis by (simp add: INT_MAX_def node_addr_def aligned_def local_path_def power2_eq_square)
qed

end
