(* ===== verification/RB_Compact_Limit.thy ===== *)
theory RB_Compact_Limit
  imports RB_Compact_Map
begin

text \<open>
  The array of a \<open>RB_PATH\<close> has as many entries as a pointer has bits, but a red-black tree can be
  almost twice as high as the logarithm of its number of nodes. This theory has the lowest number
  of nodes at which the array is too short, on a 32-bit machine.
\<close>

section \<open>High trees with few nodes\<close>

text \<open>
  A complete black tree, and a tree whose left edge alternates between black and red nodes;
  the nodes are numbered from \<open>i\<close> on, and \<open>f\<close> maps numbers to addresses.
\<close>

fun full :: "(nat \<Rightarrow> 'p) \<Rightarrow> nat \<Rightarrow> nat \<Rightarrow> 'p rbt" where
  "full f 0 i = Leaf"
| "full f (Suc n) i = Node (full f n i) Black (f (i + 2 ^ n - 1)) (full f n (i + 2 ^ n))"

fun spine :: "(nat \<Rightarrow> 'p) \<Rightarrow> nat \<Rightarrow> nat \<Rightarrow> 'p rbt" where
  "spine f 0 i = Leaf"
| "spine f (Suc n) i =
    (let j = i + (2 ^ Suc n - 2)
     in Node (Node (spine f n i) Red (f j) (full f n (Suc j))) Black (f (j + 2 ^ n)) (full f n (Suc (j + 2 ^ n))))"

lemma upt_join: "i \<le> j \<Longrightarrow> j < k \<Longrightarrow> [i..<j] @ j # [Suc j..<k] = [i..<k]"
  using upt_add_eq_append [of i j "k - j"] by (simp add: upt_conv_Cons)

lemma inorder_full: "inorder (full f n i) = map f [i..<i + (2 ^ n - 1)]"
proof (induction n arbitrary: i)
  case (Suc n)
  define j where "j = i + 2 ^ n - 1"
  have p: "(1 :: nat) \<le> 2 ^ n" by simp
  then have e: "i + (2 ^ n - 1) = j" "i + 2 ^ n = Suc j" "Suc j + (2 ^ n - 1) = i + (2 ^ Suc n - 1)"
    "i \<le> j" "j < i + (2 ^ Suc n - 1)"
    unfolding j_def power_Suc by linarith+
  have "inorder (full f (Suc n) i) = map f [i..<j] @ f j # map f [Suc j..<i + (2 ^ Suc n - 1)]"
    by (simp only: full.simps inorder.simps Suc e(1-3) diff_Suc_1)
  also have "\<dots> = map f ([i..<j] @ j # [Suc j..<i + (2 ^ Suc n - 1)])" by simp
  finally show ?case by (simp only: upt_join e(4,5))
qed simp

lemma inorder_spine: "inorder (spine f n i) = map f [i..<i + (2 ^ Suc n - 2)]"
proof (induction n)
  case (Suc n)
  define j where "j = i + (2 ^ Suc n - 2)"
  define k where "k = j + 2 ^ n"
  have p: "(1 :: nat) \<le> 2 ^ n" by simp
  then have e: "Suc j + (2 ^ n - 1) = k" "Suc k + (2 ^ n - 1) = i + (2 ^ Suc (Suc n) - 2)" "i \<le> j" "j < k"
      "k < i + (2 ^ Suc (Suc n) - 2)" "i \<le> k"
    unfolding k_def j_def power_Suc by linarith+
  have "inorder (spine f (Suc n) i) =
      (map f [i..<j] @ f j # map f [Suc j..<k]) @ f k # map f [Suc k..<i + (2 ^ Suc (Suc n) - 2)]"
    by (simp only: spine.simps Let_def inorder.simps Suc inorder_full j_def [symmetric] k_def [symmetric] e(1,2))
  also have "\<dots> = map f (([i..<j] @ j # [Suc j..<k]) @ k # [Suc k..<i + (2 ^ Suc (Suc n) - 2)])" by simp
  finally show ?case by (simp only: upt_join e(3-6))
qed simp

lemma rb_tree_full: "invc (full f n i)" "invh (full f n i)" "bh (full f n i) = n" "color (full f n i) = Black"
  by (induction n arbitrary: i) simp_all

lemma rb_tree_spine: "invc (spine f n i)" "invh (spine f n i)" "bh (spine f n i) = n" "color (spine f n i) = Black"
  by (induction n arbitrary: i) (simp_all add: Let_def rb_tree_full)

text \<open>The way of a search that goes always to the left.\<close>

fun left_depth :: "'p rbt \<Rightarrow> nat" where
  "left_depth Leaf = 0"
| "left_depth (Node l c a r) = Suc (left_depth l)"

lemma locate_leftmost:
  assumes "\<forall>a\<in>addrs t. f a = Some RB_LEFT"
  shows "length (fst (locate f k t)) = length k + left_depth t"
  using assms by (induction t arbitrary: k) simp_all

lemma left_depth_spine: "left_depth (spine f n i) = 2 * n"
  by (induction n arbitrary: i) (simp_all add: Let_def)


section \<open>The shortest path that is too long\<close>

text \<open>The nodes of an array of structures of 16 bytes with the member \<open>node\<close> at the offset 4, from address 16 on.\<close>

definition spine_addr :: "nat \<Rightarrow> 32 word" where
  "spine_addr i = word_of_nat (16 * i + 4)"

definition high_tree :: "32 word rbt" where
  "high_tree = spine spine_addr 16 1"

definition high_state :: "32 rbc" where
  "high_state = st enc_c Map.empty [] high_tree"

definition high_count :: nat where
  "high_count = 131070"

lemma inorder_high: "inorder high_tree = map spine_addr [1..<Suc high_count]"
  by (simp add: high_tree_def inorder_spine high_count_def del: upt_rec_numeral upt_Suc)

lemma addrs_high: "addrs high_tree = spine_addr ` {1..high_count}"
  unfolding inorder_high set_map set_upt atLeastLessThanSuc_atLeastAtMost ..

lemma unat_entry: "i \<le> high_count \<Longrightarrow> unat (word_of_nat (16 * i) :: 32 word) = 16 * i"
  unfolding unat_of_nat high_count_def by (rule mod_less) simp

lemma unat_spine: "i \<le> high_count \<Longrightarrow> unat (spine_addr i) = 16 * i + 4"
  unfolding spine_addr_def unat_of_nat high_count_def by (rule mod_less) simp

lemma high_holds: "rb_holds_c high_state high_tree"
proof -
  have "inj_on spine_addr {1..high_count}"
    by (rule inj_on_inverseI [where g = "\<lambda>a. (unat a - 4) div 16"]) (simp add: unat_spine)
  moreover have "node_addr (spine_addr i)" if "i \<le> high_count" for i
  proof -
    have "even (spine_addr i)" by (simp add: spine_addr_def)
    moreover have "spine_addr i \<noteq> 0" using unat_spine [OF that] by (metis add_is_0 unat_0 zero_neq_numeral)
    ultimately show ?thesis by (simp add: node_addr_def aligned_iff_even)
  qed
  ultimately have "tok high_tree"
    unfolding tok_iff_inorder addrs_high
    by (auto simp: inorder_high distinct_map atLeastLessThanSuc_atLeastAtMost simp del: upt_Suc)
  moreover have "rb_tree high_tree"
    by (simp add: high_tree_def rb_tree_def rb_tree_spine)
  ultimately show ?thesis unfolding high_state_def by (rule st_holds)
qed


text \<open>
  A path of 32 entries is too short on a 32-bit machine: there is a red-black tree of 131070 nodes,
  sorted by key, in which the search for a smaller key writes beyond the end of the array of the path,
  whatever the path contains before.
\<close>

theorem compact_path_overflow:
  assumes "length (rp_path rp) = 32"
  shows "rb_holds_c high_state high_tree \<and> length (inorder high_tree) = 131070 \<and>
    sorted_wrt (<) (map (\<lambda>e. uint e div 16) (entries 4 high_tree)) \<and>
    rb_find_c 4 (A_NODE_KEY_CMP (\<lambda>e. uint e div 16)) 0 rp high_state = None"
proof -
  let ?v = "\<lambda>e :: 32 word. uint e div 16"
  have entry: "RB_ENTRY 4 (spine_addr i) = word_of_nat (16 * i)" for i
    by (simp add: RB_ENTRY_def spine_addr_def)
  have key: "?v (RB_ENTRY 4 (spine_addr i)) = int i" if "i \<le> high_count" for i
    using unat_entry [OF that] unfolding entry uint_nat by simp
  then have "map ?v (entries 4 high_tree) = map int [1..<Suc high_count]"
    by (simp add: entries_def inorder_high del: upt_Suc)
  then have sorted: "sorted_wrt (<) (map ?v (entries 4 high_tree))"
    by (simp add: sorted_wrt_map del: upt_Suc)
  have "key_search (A_NODE_KEY_CMP ?v) 4 0 (spine_addr i) = Some RB_LEFT" if "1 \<le> i" "i \<le> high_count" for i
    using that key [OF that(2)] unfolding high_count_def
    by (simp add: key_search_def A_NODE_KEY_CMP_def c_sub_wrap_exact cmp_dir_def)
  then have "\<forall>a\<in>addrs high_tree. key_search (A_NODE_KEY_CMP ?v) 4 0 a = Some RB_LEFT"
    unfolding addrs_high by simp
  from locate_leftmost [OF this, of "[]"] have "length (fst (locate (key_search (A_NODE_KEY_CMP ?v) 4 0) [] high_tree)) = 32"
    by (simp add: high_tree_def left_depth_spine)
  then have "rb_find_c 4 (A_NODE_KEY_CMP ?v) 0 rp high_state = None"
    using rb_find_c_room [OF high_holds prod.collapse [symmetric], where rp = rp and key_cmp = "A_NODE_KEY_CMP ?v" and offset = 4
        and ky = 0] assms
    by (auto simp: located_def)
  with high_holds sorted show ?thesis by (simp add: inorder_high high_count_def del: upt_Suc upt_rec_numeral)
qed

theorem compact_path_overflow_witness:
  "rb_find_c 4 (A_NODE_KEY_CMP (\<lambda>e. uint e div 16)) 0 (local_path \<lparr>rpe_parent = 5, rpe_dir = RB_RIGHT\<rparr> 99) high_state = None \<and>
    length (inorder high_tree) = 131070"
  using compact_path_overflow [of "local_path \<lparr>rpe_parent = 5, rpe_dir = RB_RIGHT\<rparr> 99"] by (simp add: local_path_def)

end
