(* ===== verification/RB_Compact_Ascending.thy ===== *)
theory RB_Compact_Ascending
  imports RB_Compact_Limit
begin

text \<open>
  Entries that are inserted in ascending order: every insertion takes place at the end of the right
  edge of the tree, and the edge changes as the digits of a number do when one is added. This gives
  the exact number of insertions after which an array of \<open>2 * m\<close> entries is too short for the path.
\<close>

section \<open>The right edge as a number\<close>

fun perfect :: "nat \<Rightarrow> 'p rbt \<Rightarrow> bool" where
  "perfect h Leaf \<longleftrightarrow> h = 0"
| "perfect h (Node l c a r) \<longleftrightarrow> c = Black \<and> 0 < h \<and> perfect (h - 1) l \<and> perfect (h - 1) r"

lemma color_perfect: "perfect h t \<Longrightarrow> color t = Black"
  by (cases t) simp_all

text \<open>
  A digit \<open>d\<close> at the position \<open>h\<close> stands for \<open>d\<close> nodes with one complete subtree of black height \<open>h\<close>
  each, on the left. The digits are \<open>2\<close> and \<open>3\<close>, the leading one can be \<open>1\<close>. The number \<open>n\<close> is
  written from the position \<open>h\<close> on in the context \<open>k\<close>, the least significant digit innermost.
\<close>

inductive right_edge :: "nat \<Rightarrow> nat \<Rightarrow> 'p frame list \<Rightarrow> bool" where
  Zero: "right_edge h 0 []"
| One: "perfect h l \<Longrightarrow> right_edge h 1 [(RB_RIGHT, Black, a, l)]"
| Two: "right_edge (Suc h) n k \<Longrightarrow> perfect h l \<Longrightarrow> perfect h l' \<Longrightarrow>
    right_edge h (2 + 2 * n) ((RB_RIGHT, Red, b, l') # (RB_RIGHT, Black, a, l) # k)"
| Three: "right_edge (Suc h) n k \<Longrightarrow> perfect h l \<Longrightarrow> perfect h m \<Longrightarrow> perfect h l' \<Longrightarrow>
    right_edge h (3 + 2 * n) ((RB_RIGHT, Red, b, l') # (RB_RIGHT, Black, a, Node l Red x m) # k)"

lemma right_edge_dirs: "right_edge h n k \<Longrightarrow> \<forall>f\<in>set k. fst f = RB_RIGHT"
  by (induction rule: right_edge.induct) simp_all

lemma right_edge_root:
  "right_edge h n k \<Longrightarrow> k = [] \<longrightarrow> color t = Black \<Longrightarrow> paint Black (zip_up k t) = zip_up k t"
proof (induction arbitrary: t rule: right_edge.induct)
  case (Zero h)
  then show ?case by (cases t) simp_all
qed simp_all

text \<open>An insertion at the end of the edge adds one; a digit \<open>3\<close> becomes \<open>2\<close> with a carry.\<close>

lemma ins_fix_right_edge:
  assumes "right_edge h n k" and "perfect h l"
  shows "\<exists>k'. ins_fix k (Node l Red a r) = zip_up k' r \<and> right_edge h (Suc n) k'"
  using assms
proof (induction arbitrary: l a r rule: right_edge.induct)
  case (Zero h)
  then show ?case by (intro exI [of _ "[(RB_RIGHT, Black, a, l)]"]) (simp add: right_edge.One [simplified])
next
  case (One h l' b)
  then have "right_edge h (2 + 2 * 0) [(RB_RIGHT, Red, a, l), (RB_RIGHT, Black, b, l')]"
    by (intro right_edge.Two right_edge.Zero)
  then show ?case by (intro exI [of _ "[(RB_RIGHT, Red, a, l), (RB_RIGHT, Black, b, l')]"]) (simp add: numeral_2_eq_2)
next
  case (Two h n k l1 l2 y x)
  let ?k = "(RB_RIGHT, Red, a, l) # (RB_RIGHT, Black, y, Node l1 Red x l2) # k"
  have "right_edge h (Suc (2 + 2 * n)) ?k"
    using right_edge.Three [of h n k l1 l2 l] Two by (simp add: numeral_3_eq_3)
  moreover have "ins_fix ((RB_RIGHT, Red, y, l2) # (RB_RIGHT, Black, x, l1) # k) (Node l Red a r) = zip_up ?k r"
    using Two right_edge_root [OF Two(1)] by (simp add: ins_fix_straight color_perfect)
  ultimately show ?case by blast
next
  case (Three h n k l1 l2 l3 z y x)
  let ?r = "Node l3 Black z (Node l Red a r)"
  have "perfect (Suc h) (Node l1 Black x l2)" using Three by simp
  from Three.IH [OF this, of y ?r] obtain k'
    where k': "ins_fix k (Node (Node l1 Black x l2) Red y ?r) = zip_up k' ?r" "right_edge (Suc h) (Suc n) k'" by blast
  let ?k = "(RB_RIGHT, Red, a, l) # (RB_RIGHT, Black, z, l3) # k'"
  have "right_edge h (2 + 2 * Suc n) ?k" using k'(2) Three by (intro right_edge.Two)
  moreover have "ins_fix ((RB_RIGHT, Red, z, l3) # (RB_RIGHT, Black, y, Node l1 Red x l2) # k) (Node l Red a r) = zip_up ?k r"
    using k'(1) by (simp add: ins_fix_recolor)
  moreover have "Suc (3 + 2 * n) = 2 + 2 * Suc n" by simp
  ultimately show ?case by metis
qed

text \<open>The length of the edge.\<close>

lemma less_four_power: "n < 4 \<Longrightarrow> n < 4 * 2 ^ j" for n :: nat
  by (rule less_le_trans [of n 4]) simp_all

lemma length_right_edge:
  assumes "right_edge h n k"
  shows "length k < 2 * m \<longleftrightarrow> n + 2 < 2 ^ Suc m"
  using assms
proof (induction arbitrary: m rule: right_edge.induct)
  case (Zero h)
  show ?case by (cases m) (simp_all add: less_four_power)
next
  case (One h l a)
  show ?case by (cases m) (simp_all add: less_four_power)
next
  case (Two h n k l l' b a)
  show ?case
  proof (cases m)
    case (Suc j)
    have "2 + 2 * n + 2 < 2 ^ Suc m \<longleftrightarrow> n + 2 < 2 ^ Suc j" unfolding Suc power_Suc by linarith
    with Two.IH [of j] Suc show ?thesis by simp
  qed simp
next
  case (Three h n k l l2 l' b a x)
  show ?case
  proof (cases m)
    case (Suc j)
    have "3 + 2 * n + 2 < 2 ^ Suc m \<longleftrightarrow> n + 2 < 2 ^ Suc j" unfolding Suc power_Suc by presburger
    with Three.IH [of j] Suc show ?thesis by simp
  qed simp
qed

section \<open>Searching beyond the right edge\<close>

lemma locate_right_edge:
  assumes "\<forall>fr\<in>set k. fst fr = RB_RIGHT" and "\<forall>a\<in>kaddrs k. f a = Some RB_RIGHT"
  shows "locate f j (zip_up k t) = locate f (k @ j) t"
  using assms
proof (induction k arbitrary: t)
  case (Cons fr k)
  obtain d c a s where fr: "fr = (d, c, a, s)" by (cases fr)
  with Cons show ?case by simp
qed simp

context rb_client
begin

text \<open>The way of the search for a key that is larger than all keys of the tree.\<close>

lemma locate_larger:
  assumes t: "tree_ok key_of offset N t" "t = zip_up k Leaf" and k: "\<forall>fr\<in>set k. fst fr = RB_RIGHT"
    and ky: "ky \<in> K" "\<forall>e\<in>set (entries offset t). key_of e < ky"
  shows "locate (key_search key_cmp offset ky) [] t = (k, Leaf)"
proof -
  have "key_search key_cmp offset ky a = Some RB_RIGHT" if "a \<in> addrs t" for a
    using key_dir [OF ky(1) tree_ok_key [OF t(1) that]] ky(2) that by (auto simp: key_search_def entries_def)
  then show ?thesis
    using locate_right_edge [OF k, of "key_search key_cmp offset ky" "[]" Leaf] addrs_zip_up [of k Leaf] t(2) by simp
qed

text \<open>One more insertion in ascending order.\<close>

lemma insert_larger:
  assumes t: "tree_ok key_of offset N t" "t = zip_up k Leaf" and k: "right_edge 0 n k"
    and e: "e \<in> N" "\<forall>e'\<in>set (entries offset t). key_of e' < key_of e"
  obtains k' where "ins_fix k (Node Leaf Red (e + offset) Leaf) = zip_up k' Leaf" and "right_edge 0 (Suc n) k'"
    and "tree_ok key_of offset N (zip_up k' Leaf)" and "entries offset (zip_up k' Leaf) = entries offset t @ [e]"
proof -
  obtain k' where k': "ins_fix k (Node Leaf Red (e + offset) Leaf) = zip_up k' Leaf" "right_edge 0 (Suc n) k'"
    using ins_fix_right_edge [OF k, of Leaf] by auto
  have loc: "locate (key_search key_cmp offset (key_of e)) [] t = (k, Leaf)"
    using t right_edge_dirs [OF k] entry_key e by (intro locate_larger) auto
  have "tree_map key_of offset t (key_of e) = None"
    using e(2) by (auto simp: tree_map_def find_None_iff)
  from tree_insert [OF t(1) e(1) this loc refl] k'(1) have "tree_ok key_of offset N (zip_up k' Leaf)" by simp
  moreover have "inorder (zip_up k' Leaf) = inorder t @ [e + offset]"
  proof -
    have c: "cctx k Black" using t rb_tree_zip_up [of k Leaf] by (simp add: tree_ok_def)
    have "kright k = []" using right_edge_dirs [OF k] by (induction k rule: kright.induct) simp_all
    with c k'(1) t(2) show ?thesis
      by (metis append_Nil2 inorder.simps inorder_ins_fix inorder_zip_up append_Nil color.simps(2))
  qed
  ultimately show thesis using that [OF k'] by (simp add: entries_def)
qed

lemma rb_insert_c_larger:
  assumes t: "tree_ok key_of offset N t" "t = zip_up k Leaf" and k: "right_edge 0 n k"
    and e: "e \<in> N" "\<forall>e'\<in>set (entries offset t). key_of e' < key_of e" "F (e + offset) \<noteq> None"
    and rp: "length (rp_path rp) = 2 * m" "0 < m"
  shows "rb_insert_c offset cmp rp e (st enc_c F [] t) =
    (if n + 2 < 2 ^ Suc m then Some (e, st enc_c F [] (ins_fix k (Node Leaf Red (e + offset) Leaf))) else None)"
proof -
  let ?f = "\<lambda>a. cmp_dir (cmp e (RB_ENTRY offset a))"
  have loc: "locate ?f [] t = (k, Leaf)"
    unfolding node_locate [OF t(1) e(1)] using t right_edge_dirs [OF k] entry_key e by (intro locate_larger) auto
  have "tok t" "rb_tree t" "e + offset \<notin> addrs t" "node_addr (e + offset)"
    using t(1) e entry_node by (auto simp: tree_ok_def entries_def)
  note ok = this
  show ?thesis
  proof (cases "n + 2 < 2 ^ Suc m")
    case True
    then have "length (fst (locate ?f [] t)) < length (rp_path rp)"
      using length_right_edge [OF k] rp(1) loc by simp
    from rb_insert_c_st [OF ok(1,2) _ refl ok(4) _ this] ok(3) e(3) loc True show ?thesis by simp
  next
    case False
    then have "length (rp_path rp) \<le> length (fst (locate ?f [] t))"
      using length_right_edge [OF k, of m] rp(1) loc by simp
    from rb_insert_c_overflow [OF ok(1) _ this] rp False show ?thesis by simp
  qed
qed

text \<open>A run of insertions in ascending order.\<close>

lemma run_ascending:
  assumes "tree_ok key_of offset N t" and "t = zip_up k Leaf" and "right_edge 0 n k"
    and "set es \<subseteq> N" and "sorted_wrt (<) (map key_of (entries offset t @ es))" and F: "\<forall>e\<in>N. F (e + offset) \<noteq> None"
    and rp: "length (rp_path rp) = 2 * m" "0 < m" and "n + 2 \<le> 2 ^ Suc m"
  shows "if n + length es + 2 \<le> 2 ^ Suc m
    then \<exists>t'. run_ops (rb_step_c offset cmp key_cmp rp) (map RB_INSERT es) (st enc_c F [] t) = Some (es, st enc_c F [] t') \<and>
      tree_ok key_of offset N t' \<and> entries offset t' = entries offset t @ es
    else run_ops (rb_step_c offset cmp key_cmp rp) (map RB_INSERT es) (st enc_c F [] t) = None"
  using assms(1-5,9)
proof (induction es arbitrary: t k n)
  case Nil
  then show ?case by auto
next
  case (Cons e es)
  have e: "e \<in> N" "\<forall>e'\<in>set (entries offset t). key_of e' < key_of e" "F (e + offset) \<noteq> None"
    using Cons.prems(4,5) F by (auto simp: sorted_wrt_append)
  note step = rb_insert_c_larger [where F = F, OF Cons.prems(1-3) e rp]
  obtain k' where k': "ins_fix k (Node Leaf Red (e + offset) Leaf) = zip_up k' Leaf" "right_edge 0 (Suc n) k'"
    "tree_ok key_of offset N (zip_up k' Leaf)" "entries offset (zip_up k' Leaf) = entries offset t @ [e]"
    by (rule insert_larger [OF Cons.prems(1-3) e(1,2)])
  show ?case
  proof (cases "n + 2 < 2 ^ Suc m")
    case True
    with Cons.IH [OF k'(3) refl k'(2)] Cons.prems(4,5) k'(4) show ?thesis
      by (auto simp: step k'(1) split: if_splits)
  next
    case False
    then show ?thesis by (simp add: step)
  qed
qed

end

section \<open>Properties\<close>

text \<open>
  C9. Entries that arrive in ascending order of their keys fill the path: with pointers of \<open>2 * m\<close> bits,
  the first \<open>2 ^ (m + 1) - 2\<close> insertions into an initialised tree return their entries, and the memory
  holds them in order; with one more insertion the run writes beyond the array of the path.
\<close>

theorem compact_ascending_limit:
  fixes cmp :: "'w::len word \<Rightarrow> 'w word \<Rightarrow> int" and key_of :: "'w word \<Rightarrow> 'k::linorder"
  assumes "rb_client cmp key_cmp key_of K offset N" and "\<forall>e\<in>N. rb_heap s (e + offset) \<noteq> None"
    and "length (rp_path rp) = LENGTH('w)" and "LENGTH('w) = 2 * m"
    and "set es \<subseteq> N" and "sorted_wrt (<) (map key_of es)"
  shows "if length es \<le> 2 ^ (m + 1) - 2
    then \<exists>s' t. run_ops (rb_step_c offset cmp key_cmp rp) (map RB_INSERT es) (RB_ROOT_INIT_c s) = Some (es, s') \<and>
      rb_holds_c s' t \<and> entries offset t = es
    else run_ops (rb_step_c offset cmp key_cmp rp) (map RB_INSERT es) (RB_ROOT_INIT_c s) = None"
proof -
  have m: "0 < m" using assms(4) len_gt_0 [where 'a = 'w] by (cases m) simp_all
  have init: "st enc_c (rb_heap s) [] Leaf = RB_ROOT_INIT_c s"
    by (simp add: st_def RB_ROOT_INIT_c_def)
  have leaf: "tree_ok key_of offset N Leaf" "entries offset Leaf = []" by (simp_all add: tree_ok_def rb_tree_def entries_def)
  have "(2 :: nat) \<le> 2 ^ Suc m" by simp
  then have two: "0 + 2 \<le> (2 :: nat) ^ Suc m" and len: "length es \<le> 2 ^ (m + 1) - 2 \<longleftrightarrow> 0 + length es + 2 \<le> 2 ^ Suc m"
    unfolding Suc_eq_plus1 by linarith+
  have rp: "length (rp_path rp) = 2 * m" using assms(3,4) by simp
  have sorted: "sorted_wrt (<) (map key_of (entries offset Leaf @ es))" using assms(6) leaf(2) by simp
  note run = rb_client.run_ascending [OF assms(1) leaf(1) zip_up.simps(1) [symmetric] right_edge.Zero assms(5) sorted assms(2) rp m two,
      unfolded init leaf(2) append_Nil len [symmetric]]
  have "rb_holds_c (st enc_c (rb_heap s) [] t) t" if "tree_ok key_of offset N t" for t
    using that by (intro st_holds) (simp_all add: tree_ok_def)
  with run show ?thesis by (metis (no_types, lifting))
qed

text \<open>The entries of an array of structures of 16 bytes on a 32-bit machine, with its index as the key.\<close>

definition ascending :: "nat \<Rightarrow> 32 word list" where
  "ascending n = map (\<lambda>i. word_of_nat (16 * i)) [1..<Suc n]"

lemma unat_small: "n < 2 ^ 32 \<Longrightarrow> unat (word_of_nat n :: 32 word) = n"
  unfolding unat_of_nat by (rule mod_less) simp

lemma ascending_entry:
  assumes "1 \<le> i" and "i \<le> Suc high_count"
  shows "uint (word_of_nat (16 * i) :: 32 word) div 16 = int i" and "word_of_nat (16 * i) \<in> a_nodes (\<lambda>e :: 32 word. uint e div 16) 4"
proof -
  have u: "unat (word_of_nat (16 * i) :: 32 word) = 16 * i" "unat (word_of_nat (16 * i + 4) :: 32 word) = 16 * i + 4"
    using assms by (intro unat_small; simp add: high_count_def)+
  show key: "uint (word_of_nat (16 * i) :: 32 word) div 16 = int i" unfolding uint_nat u(1) by simp
  have "(word_of_nat (16 * i) :: 32 word) \<noteq> 0" "(word_of_nat (16 * i + 4) :: 32 word) \<noteq> 0"
    using u assms(1) by (metis unat_0 mult_is_0 not_one_le_zero zero_neq_numeral add_is_0)+
  with key assms show "word_of_nat (16 * i) \<in> a_nodes (\<lambda>e :: 32 word. uint e div 16) 4"
    by (simp add: a_nodes_def node_addr_def aligned_iff_even safe_keys_def high_count_def add.commute)
qed

lemma ascending_ok:
  assumes "n \<le> Suc high_count"
  shows "set (ascending n) \<subseteq> a_nodes (\<lambda>e. uint e div 16) 4" and "sorted_wrt (<) (map (\<lambda>e. uint e div 16) (ascending n))"
    and "length (ascending n) = n"
proof -
  have ok: "1 \<le> i" "i \<le> Suc high_count" if "i \<in> set [1..<Suc n]" for i
    using that assms by auto
  show "set (ascending n) \<subseteq> a_nodes (\<lambda>e. uint e div 16) 4"
    unfolding ascending_def set_map using ascending_entry(2) ok by blast
  have "sorted_wrt (\<lambda>i j. int i < int j) [1..<Suc n]" by (simp del: upt_Suc)
  moreover have "map (\<lambda>e. uint e div 16) (ascending n) = map int [1..<Suc n]"
    unfolding ascending_def map_map using ascending_entry(1) ok by (intro map_cong) (auto simp del: upt_Suc)
  ultimately show "sorted_wrt (<) (map (\<lambda>e. uint e div 16) (ascending n))" by (simp only: sorted_wrt_map)
  show "length (ascending n) = n" by (simp add: ascending_def del: upt_Suc)
qed

theorem compact_ascending_limit_witness:
  "let run = (\<lambda>n. run_ops (rb_step_c 4 (A_NODE_CMP (\<lambda>e. uint e div 16)) (A_NODE_KEY_CMP (\<lambda>e. uint e div 16))
        (local_path \<lparr>rpe_parent = 5, rpe_dir = RB_RIGHT\<rparr> 99)) (map RB_INSERT (ascending n))
        (RB_ROOT_INIT_c \<lparr>rb_root = 1, rb_heap = (\<lambda>a. Some \<lparr>rb_child_color = (\<lambda>d. 7)\<rparr>)\<rparr>))
   in run 131070 \<noteq> None \<and> run 131071 = None"
proof -
  let ?rp = "local_path \<lparr>rpe_parent = 5, rpe_dir = RB_RIGHT\<rparr> 99 :: 32 word RB_PATH"
  have rp: "length (rp_path ?rp) = LENGTH(32)" "LENGTH(32) = 2 * 16" by (simp_all add: local_path_def)
  note run = compact_ascending_limit [OF a_client.rb_client_axioms _ rp,
      where s = "\<lparr>rb_root = 1, rb_heap = (\<lambda>a. Some \<lparr>rb_child_color = (\<lambda>d. 7)\<rparr>)\<rparr>"]
  have n: "131070 \<le> Suc high_count" "131071 \<le> Suc high_count" by (simp_all add: high_count_def)
  show ?thesis
    using run [OF _ ascending_ok(1,2) [OF n(1)]] run [OF _ ascending_ok(1,2) [OF n(2)]]
    unfolding ascending_ok(3) [OF n(1)] ascending_ok(3) [OF n(2)] by (auto simp: Let_def)
qed

end
