(* ===== verification/Spec2Isabelle.thy ===== *)
theory Spec2Isabelle
  imports Array_Queue_Tests Array_Map_Tests Array_Map_Pool_Run RB_Iter_Test RB_Compact_Ascending
begin

text \<open>
  A verification development for embedlib, a C library of containers for embedded systems that are
  made of macros and small functions, allocate no memory and report failures by return values.

  \<^bold>\<open>The program.\<close> The library has four independent containers under \<open>src/\<close>:
  \<^item> \<open>array_utils/array_queue.h\<close>: a ring buffer of a fixed size, with iterators and removal
    through an iterator, for \<open>size_type\<close> of 8, 16 or 32 bits;
  \<^item> \<open>array_utils/array_map.h\<close>, \<open>ARRAY_MAP_*\<close>: a sorted array of entries with binary search;
  \<^item> \<open>array_utils/array_map.h\<close>, \<open>ARRAY_MAP_POOL_*\<close>: a pool of objects, a sorted array of pointers
    to the allocated ones followed by the free ones;
  \<^item> \<open>rbtree/\<close>: intrusive red-black trees, in two versions with the same interface.
    \<open>rbtree.h\<close> and \<open>rbtree.c\<close> have parent pointers, with the colour in their lowest bit;
    \<open>rbtree_compact.h\<close> and \<open>rbtree_compact.c\<close> have two child pointers only, with the colour in the
    lowest bit of the left one, and record the way from the root in a \<open>RB_PATH\<close>.
  The containers do not call each other. Each calls what its user passes to the generator macros:
  comparators, and for the pool an initializer and a finalizer. They are parameters of the
  definitions here; the comparators of the test programs are modelled, too, and show that the
  assumptions about them can be met.

  \<^bold>\<open>Theories.\<close>
  \<^item> \<open>Embed_Prelude\<close>: C arrays as lists with partial access (\<open>c_nth\<close>, \<open>c_upd\<close>), C \<open>int\<close> arithmetic
    with overflow as failure (\<open>c_int\<close>), words, positions on a ring.
  \<^item> \<open>Bounded_Queue\<close> (the contract \<open>bounded_queue\<close>) and \<open>Array_Queue\<close>: every macro of
    \<open>array_queue.h\<close> under its own name; the loop of \<open>ARRAY_QUEUE_ITER_REMOVE\<close> is \<open>aq_remove_loop\<close>.
  \<^item> \<open>Key_Order\<close> (the contract of a comparator) and \<open>Bounded_Map\<close> (the contract of a map with a
    capacity), \<open>Array_Map\<close> and \<open>Array_Map_Pool\<close>: the functions that the macros \<open>ARRAY_MAP_GENERATE_*\<close> and
    \<open>ARRAY_MAP_POOL_GENERATE_*\<close> generate, with the loops that they share (\<open>bsearch_loop\<close>, \<open>shift_up\<close>,
    \<open>shift_down\<close>).
  \<^item> \<open>Object_Pool\<close> (the contract \<open>object_pool\<close> of a keyed allocator, whose specification is the step relation
    \<open>pool_step\<close>) and \<open>Array_Map_Pool_Run\<close>: the pool as an instance of it.
  \<^item> \<open>Test_Outcome\<close>: assertions, counting loops and sorting in the test programs; \<open>Array_Queue_Tests\<close> and \<open>Array_Map_Tests\<close>:
    the tests of \<open>array_utils/test_array_queue.c\<close> and \<open>array_utils/test_array_map.c\<close>.
  \<^item> \<open>RB_Shape\<close>: directions, colours, tagged words, trees of node addresses, contexts (the way from a
    subtree to the root), and the memory that holds a tree in a context, for any layout of a node.
  \<^item> \<open>RB_Fixup\<close>: the red-black invariants and what the algorithms do to a tree, without memory:
    repair after an insertion (\<open>ins_fix\<close>), repair after a removal (\<open>rem_fix\<close>), removal (\<open>rem\<close>), the next
    node (\<open>ahead\<close>, \<open>climb\<close>); the bound of the height.
  \<^item> \<open>RB_Access\<close>: the contract \<open>node_access\<close> of the accessor functions of a node.
  \<^item> \<open>RB_Search\<close>: binary search (\<open>locate\<close>), the contract \<open>node_order\<close> of the comparators, the contract
    \<open>rb_client\<close> of a user, the contract \<open>dictionary\<close> of an implementation.
  \<^item> \<open>RB_Dict\<close>: \<open>tree_impl\<close>, what an implementation has to do to the tree in memory in order to be a
    dictionary.
  \<^item> \<open>RB_Tree\<close>, \<open>RB_Tree_Remove\<close>, \<open>RB_Tree_Map\<close>: \<open>rbtree.h\<close> and \<open>rbtree.c\<close>, one definition per function under
    the same name, loops as definitions of their own (\<open>..._loop\<close>, \<open>rb_descend\<close>, \<open>rb_ascend\<close>).
  \<^item> \<open>RB_Compact\<close>, \<open>RB_Compact_Remove\<close>, \<open>RB_Compact_Map\<close>: \<open>rbtree_compact.h\<close> and \<open>rbtree_compact.c\<close> in the
    same way, with the suffix \<open>_c\<close>; \<open>RB_Compact_Limit\<close>: a tree that is too high for a \<open>RB_PATH\<close>;
    \<open>RB_Compact_Ascending\<close>: the number of insertions in ascending order that a \<open>RB_PATH\<close> is good for.
  \<^item> \<open>RB_Check\<close>, \<open>RB_Fixed_Tests\<close>, \<open>RB_Tests\<close>: the checks and the tests of \<open>rbtree/test_rbtree.c\<close> on either tree: the black
    heights, the symmetric order, the tests with fixed sequences, the random tests with \<open>shuffle\<close> for an arbitrary \<open>rand\<close>,
    removal at an iterator. The locale \<open>checked_impl\<close> joins the contracts \<open>tree_impl\<close> and \<open>node_access\<close>.
  \<^item> \<open>RB_Range\<close>: iteration from the node that a search has found; \<open>RB_Iter_Test\<close>: \<open>test_rbtree_iter\<close>, on the functions of
    either header (\<open>rb_ops\<close>, \<open>compact_ops\<close>), with the contract \<open>iter_impl\<close> of iteration.
  \<^item> this theory: the checks of the test programs of the array containers, and properties of the two trees together.

  \<^bold>\<open>Modelling.\<close> A structure is a record, an array a list, a memory of nodes a partial function from
  addresses (words of any width) to nodes. Operations take the state and return the new one in an
  option: \<open>None\<close> is undefined behaviour (an access out of bounds or through a null or unmapped pointer, an
  overflow of a signed integer, a division by zero) or a loop that does not end. Failures that the
  code reports are values of the result. Loops whose termination depends on the shape of the memory
  are \<open>partial_function\<close>s, so that an equation \<open>f x = Some y\<close> says that the C function returns; no
  fuel is used. A local \<open>RB_PATH\<close> is not initialised in C: its contents are a parameter, and the
  theorems hold for all contents.

  \<^bold>\<open>What is proved.\<close>
  \<^item> Queue: on every sequence of operations and inspections it is a bounded FIFO of the given capacity, at each width;
    no reachable state has undefined behaviour; iteration ends and visits the elements in order;
    removal through an iterator deletes one element and keeps the iterator usable; a size that does not fit \<open>size_type\<close>
    makes a FIFO of the size modulo \<open>2 ^ w\<close>.
  \<^item> Array map: a finite map with a capacity on every sequence of operations; what is refused, exactly
    when, and that it changes nothing; binary search is correct for at most \<open>2 ^ 30\<close> entries, and the sum of the bounds overflows beyond.
  \<^item> Pool: each operation on every branch; objects are neither lost nor duplicated; every sequence of operations without a clearing,
    or with a finalizer that changes nothing, including rewrites of the objects by the client, is a run of the keyed allocator as documented, which leaves open which
    free object an allocation returns and applies the finalizer to every object that is deallocated; \<open>ARRAY_MAP_POOL_CLEAR\<close> does so
    exactly if the finalizer changes none of the objects in use, since it does not call it; operations on other keys leave
    the object of a key alone.
  \<^item> Red-black trees: each implementation is a finite map from keys to entries on every sequence of
    operations, and both return the same and build the same tree; every reachable state is a
    sorted red-black tree of logarithmic height; removal of any node, insertion on every branch,
    iteration in both directions, complete traversals and traversals from a given key on, missing keys, tagged words. All changes are
    equations between memories, so that nothing outside the tree changes.
    The tree without parent pointers needs that its height is less than the number of entries of a
    \<open>RB_PATH\<close>, which follows from \<open>(n + 1)\<^sup>2 < 2 ^ w\<close> for \<open>n\<close> entries and pointers of \<open>w\<close> bits; a search
    returns exactly if its way fits, and so does an insertion. The limit is met in practice: with pointers of
    \<open>2 * m\<close> bits, \<open>2 ^ (m + 1) - 2\<close> insertions in ascending order succeed and the next one writes beyond
    the array, that is the insertion number 131071 with 32 bits. For the proof, the right edge of the tree is read as
    a number with the digits 2 and 3, to which an insertion adds one.
  \<^item> Tests of the trees: the checks decide what they are made for on every tree in memory, balanced or not; a test with any
    fixed sequence passes on both trees exactly if a computation on trees finds what it expects, as the ones of the file do; the random
    tests and the test of the iteration pass for every sequence of random numbers, every number of runs and every number \<open>n\<close> of
    entries with \<open>2 \<le> n < 2 ^ 30\<close> and, on the tree without parent pointers, \<open>(n + 1)\<^sup>2 < 2 ^ w\<close>.
  \<^item> Tests of the queue, the pool and the map: the checks decide what they are made for on every container that is not empty; all nine tests
    pass, whatever the buffers and the memory contain before.

  The proofs for the trees relate a C function to a function on trees by an equation between states
  \<open>st enc F k t\<close>: the memory that holds the tree \<open>t\<close> in the context \<open>k\<close> in the layout \<open>enc\<close>, and is \<open>F\<close>
  elsewhere. Moving the focus does not change the state (\<open>st_move\<close>), so that every step can be
  seen from the node at which it happens.

  \<^bold>\<open>Not modelled.\<close> The declaration generators (\<open>..._PROTO\<close>), the macros that only paste a name (\<open>ARRAY_MAP_INSERT\<close> and the
  like) and include guards have no behaviour of their own. The assertions of the test framework, which is
  not part of the repository, are taken as documented (\<open>Test_Outcome\<close>); \<open>qsort\<close> sorts with the comparators of the test programs
  (\<open>node_cmp\<close>, \<open>item_ptr_cmp\<close>). Comparators of the test programs that overflow, which C leaves undefined, wrap around in the model; the
  theorems are for keys for which they do not; the registration of the tests (\<open>main\<close>) has no behaviour of its own. Of \<open>rbtree/test_rbtree.c\<close> the printing functions, which no test calls,
  are left out. The build and documentation files hold no program logic. Uses of the
  macros that C does not evaluate as functions (arguments with side effects) are not considered, nor is
  concurrent use, for which the library has no provision.
\<close>

section \<open>The checks of the array containers\<close>

text \<open>
  C39. The checks of the test programs of the queue, the map and the pool decide what they are made for, on every
  container that is not empty and meets its invariant, for every array of expected values that has \<open>n\<close> elements. The loops that compare
  the first \<open>n\<close> elements with the array pass if and only if the container starts with these elements, in this order, and
  fail otherwise, also when it has fewer than \<open>n\<close>; the loop over the iterators, which compares each element with the one at the
  same index, passes if and only if there are \<open>n\<close> elements; a search with an expected result and index passes if and only if the
  result says whether the key is there and the index is the number of the smaller keys. None of them has undefined
  behaviour. (On an empty container the bound \<open>len - 1\<close> of the range check wraps around and excludes no index.)
\<close>

theorem array_checks_decide:
  assumes "aq_inv q" and "aq_list q \<noteq> []" and "am_inv key safe_keys m" and "am_entries m \<noteq> []"
    and "amp_inv key safe_keys mem pool" and "amp_entries pool \<noteq> []"
    and "n \<le> length expected" and "int n \<le> INT_MAX" and "k \<in> safe_keys"
  shows "compare_items n expected q = Some (if take n (aq_list q) = take n expected then Passed () else Failed) \<and>
    iterate_count n q = Some (if length (aq_list q) = n then Passed () else Failed) \<and>
    compare_map_keys n expected m = Some (if take n (map key (am_entries m)) = take n expected then Passed () else Failed) \<and>
    compare_pool_keys n expected mem pool =
      Some (if take n (map (\<lambda>p. key (mem p)) (amp_entries pool)) = take n expected then Passed () else Failed) \<and>
    expect_search (item_map_bsearch m k) found index =
      Some (if found = (k \<in> key ` set (am_entries m)) \<and>
              index = int (length (filter (\<lambda>j. j < k) (map key (am_entries m)))) then Passed () else Failed) \<and>
    expect_search (item_pool_bsearch mem pool k) found index =
      Some (if found = (k \<in> (\<lambda>p. key (mem p)) ` set (amp_entries pool)) \<and>
              index = int (length (filter (\<lambda>j. j < k) (map (\<lambda>p. key (mem p)) (amp_entries pool)))) then Passed () else Failed)"
  using compare_items_decides [OF assms(1) disjI2 [OF assms(2)] assms(7,8)] iterate_count_decides [OF assms(1)]
    compare_map_keys_decides [OF assms(3) disjI2 [OF assms(4)] assms(7,8)]
    compare_pool_keys_decides [OF assms(5) disjI2 [OF assms(6)] assms(7,8)]
    expect_search_decides [OF map_search_rank [OF assms(3,9)]] expect_search_decides [OF pool_search_rank [OF assms(5,9)]]
  by (intro conjI)

theorem array_checks_decide_witness:
  "compare_items 3 [3, 1, 2] \<lparr>aq_item = [1, 2, 3], aq_size = 3, aq_front = 2, aq_back = 2, aq_len = 3\<rparr> = Some (Passed ()) \<and>
    compare_map_keys 2 [4, 7] \<lparr>am_item = [\<lparr>key = 4, val = 0\<rparr>, \<lparr>key = 6, val = 0\<rparr>], am_size = 2, am_len = 2\<rparr> = Some Failed \<and>
    expect_search (item_pool_bsearch (\<lambda>p :: nat. \<lparr>key = int p, val = 4\<rparr>) \<lparr>amp_item = [10, 20], amp_size = 2, amp_len = 2\<rparr> 15)
      False 1 = Some (Passed ())"
proof -
  let ?q = "\<lparr>aq_item = [1, 2, 3], aq_size = 3, aq_front = 2, aq_back = 2, aq_len = 3\<rparr> :: A_ITEM_QUEUE"
  let ?m = "\<lparr>am_item = [\<lparr>key = 4, val = 0\<rparr>, \<lparr>key = 6, val = 0\<rparr>], am_size = 2, am_len = 2\<rparr>"
  let ?pool = "\<lparr>amp_item = [10, 20 :: nat], amp_size = 2, amp_len = 2\<rparr>" and ?mem = "\<lambda>p :: nat. \<lparr>key = int p, val = 4\<rparr>"
  have q: "aq_inv ?q" "aq_list ?q = [3, 1, 2]" by (simp_all add: aq_inv_def aq_list_def aq_pos_def upt_rec)
  have m: "am_inv key safe_keys ?m" "am_entries ?m = [\<lparr>key = 4, val = 0\<rparr>, \<lparr>key = 6, val = 0\<rparr>]"
    by (simp_all add: am_inv_def am_entries_def safe_keys_def)
  have p: "amp_inv key safe_keys ?mem ?pool" "amp_entries ?pool = [10, 20]"
    by (simp_all add: amp_inv_def amp_entries_def safe_keys_def)
  have "15 \<in> safe_keys" by (simp add: safe_keys_def)
  note decide = array_checks_decide [OF q(1) _ m(1) _ p(1) _ _ _ this, unfolded q(2) m(2) p(2), where found = False and index = 1]
  show ?thesis using decide [of 3 "[3, 1, 2]"] decide [of 2 "[4, 7]"] by (simp add: INT_MAX_def)
qed

section \<open>Properties of both red-black trees\<close>

text \<open>
  C3. The two red-black trees are interchangeable: the same sequence of insertions, removals and
  lookups returns the same entries from both, and leaves the same tree in both memories, down to the
  colours, although the nodes are laid out differently and one follows parent pointers and the other
  a recorded path.
\<close>

theorem rb_trees_equivalent:
  fixes cmp :: "'w::len word \<Rightarrow> 'w word \<Rightarrow> int" and key_of :: "'w word \<Rightarrow> 'k::linorder"
  assumes "rb_client cmp key_cmp key_of K offset N"
    and "\<forall>e\<in>N. rb_heap s (e + offset) \<noteq> None" and "\<forall>e\<in>N. rb_heap s' (e + offset) \<noteq> None"
    and "length (rp_path rp) = LENGTH('w)" and "(Suc (card N))\<^sup>2 < 2 ^ LENGTH('w)"
    and "list_all (legal_op K N) ops"
  shows "\<exists>rs s1 s2 t. run_ops (rb_step offset cmp key_cmp) ops (RB_ROOT_INIT s) = Some (rs, s1) \<and>
    run_ops (rb_step_c offset cmp key_cmp rp) ops (RB_ROOT_INIT_c s') = Some (rs, s2) \<and>
    rb_holds s1 t \<and> rb_holds_c s2 t"
proof -
  obtain rs t where run: "tree_run key_cmp key_of offset ops Leaf = (rs, t)" by fastforce
  note leaf = rb_client.tree_ok_Leaf [OF assms(1)]
  have compact: "compact_client cmp key_cmp key_of K offset N rp"
    using assms(1,4,5) by (simp add: compact_client_def compact_client_axioms_def)
  have init: "RB_ROOT_INIT s = st enc (rb_heap s) [] Leaf" "RB_ROOT_INIT_c s' = st enc_c (rb_heap s') [] Leaf"
    by (simp_all add: RB_ROOT_INIT_def RB_ROOT_INIT_c_def st_def)
  obtain F1 where F1: "run_ops (rb_step offset cmp key_cmp) ops (RB_ROOT_INIT s) = Some (rs, st enc F1 [] t)"
    and t: "tree_ok key_of offset N t"
    using rb_client.rb_run_tree [OF assms(1) leaf assms(6,2) run] unfolding init by blast
  obtain F2 where F2: "run_ops (rb_step_c offset cmp key_cmp rp) ops (RB_ROOT_INIT_c s') = Some (rs, st enc_c F2 [] t)"
    using compact_client.compact_run_tree [OF compact leaf assms(6,3) run] unfolding init by blast
  have "rb_holds (st enc F1 [] t) t" "rb_holds_c (st enc_c F2 [] t) t"
    using t by (auto simp: tree_ok_def intro: st_holds)
  with F1 F2 show ?thesis by blast
qed

theorem rb_trees_equivalent_witness:
  "\<exists>s1 s2 t. run_ops (rb_step 8 (A_NODE_CMP (\<lambda>e. uint e div 8192)) (A_NODE_KEY_CMP (\<lambda>e. uint e div 8192)))
      [RB_INSERT 0x4000, RB_INSERT 0x2000, RB_INSERT 0x6000, RB_REMOVE 2] (RB_ROOT_INIT \<lparr>rb_root = 1,
        rb_heap = (\<lambda>a :: 64 word. Some \<lparr>rb_parent_color = 7, rb_children = (\<lambda>d. 7)\<rparr>)\<rparr>) = Some (s1) \<and>
    run_ops (rb_step_c 8 (A_NODE_CMP (\<lambda>e. uint e div 8192)) (A_NODE_KEY_CMP (\<lambda>e. uint e div 8192)) ex_path)
      [RB_INSERT 0x4000, RB_INSERT 0x2000, RB_INSERT 0x6000, RB_REMOVE 2] (RB_ROOT_INIT_c \<lparr>rb_root = 1,
        rb_heap = (\<lambda>a :: 64 word. Some \<lparr>rb_child_color = (\<lambda>d. 7)\<rparr>)\<rparr>) = Some s2 \<and>
    fst s1 = fst s2 \<and> rb_holds (snd s1) t \<and> rb_holds_c (snd s2) t"
proof -
  let ?v = "\<lambda>e :: 64 word. uint e div 8192" and ?N = "{0x2000, 0x4000, 0x6000 :: 64 word}"
  let ?ops = "[RB_INSERT 0x4000, RB_INSERT 0x2000, RB_INSERT 0x6000, RB_REMOVE 2]"
  have client: "rb_client (A_NODE_CMP ?v) (A_NODE_KEY_CMP ?v) ?v safe_keys 8 ?N"
    using a_node.node_order_axioms
    by (auto simp: rb_client_def rb_client_axioms_def node_addr_def aligned_def safe_keys_def)
  have legal: "list_all (legal_op safe_keys ?N) ?ops" by (simp add: safe_keys_def)
  have few: "(Suc (card ?N))\<^sup>2 < 2 ^ LENGTH(64)" by (simp add: power2_eq_square)
  have "length (rp_path ex_path) = LENGTH(64)" by (simp add: ex_path_length)
  from rb_trees_equivalent [OF client _ _ this few legal,
      of "\<lparr>rb_root = 1, rb_heap = (\<lambda>a :: 64 word. Some \<lparr>rb_parent_color = 7, rb_children = (\<lambda>d. 7)\<rparr>)\<rparr>"
        "\<lparr>rb_root = 1, rb_heap = (\<lambda>a :: 64 word. Some \<lparr>rb_child_color = (\<lambda>d. 7)\<rparr>)\<rparr>"]
  show ?thesis by fastforce
qed

text \<open>
  C19. A key that is not in the tree is an error that both implementations report by a null pointer:
  \<open>RB_FIND\<close> and \<open>RB_REMOVE\<close> return it, and \<open>RB_REMOVE\<close> leaves the memory as it was.
\<close>

theorem rb_missing_key:
  assumes "rb_client cmp key_cmp key_of K offset N" and "tree_ok key_of offset N t"
    and "rb_holds s t" and "rb_holds_c s' t" and "rb_height t < length (rp_path rp)"
    and "k \<in> K" and "k \<notin> key_of ` set (entries offset t)"
  shows "rb_find offset key_cmp k s = Some 0 \<and> rb_remove_key offset key_cmp k s = Some (0, s) \<and>
    (\<exists>rp'. rb_find_c offset key_cmp k rp s' = Some (0, rp')) \<and>
    rb_remove_key_c offset key_cmp rp k s' = Some (0, s')"
proof -
  have "tree_map key_of offset t k = None"
    using assms(7) by (simp add: tree_map_def find_key_eq_None_iff)
  then obtain kk where loc: "locate (key_search key_cmp offset k) [] t = (kk, Leaf)" and zip: "zip_up kk Leaf = t"
    by (rule rb_client.locate_absent [OF assms(1,2,6)])
  obtain j J where J: "rp_path rp = j # J" using assms(5) by (cases "rp_path rp") auto
  have "length kk \<le> length J" using assms(5) J length_le_height [of kk "Leaf"] zip by simp
  moreover have "tok t" using assms(3) by (simp add: holds_def)
  ultimately have "\<exists>rp'. rb_find_c offset key_cmp k rp s' = Some (0, rp')"
    using rb_find_c_st [OF _ J loc, of "rb_heap s'"] holds_st [OF assms(4)] by (simp add: located_def)
  moreover have "rb_find offset key_cmp k s = Some 0"
    using rb_client.rb_find_tree [OF assms(1,2) loc, of "rb_heap s"] holds_st [OF assms(3)] by simp
  ultimately show ?thesis by (auto simp: rb_remove_key_def rb_remove_key_c_def)
qed

theorem rb_missing_key_witness:
  "rb_remove_key 8 (A_NODE_KEY_CMP (\<lambda>e. uint e div 4096)) 5 ex_state = Some (0, ex_state) \<and>
    rb_remove_key_c 8 (A_NODE_KEY_CMP (\<lambda>e. uint e div 4096)) ex_path 5 ex_state_c = Some (0, ex_state_c)"
proof -
  let ?v = "\<lambda>e :: 64 word. uint e div 4096"
  have ent: "entries 8 ex_tree = [0x1000, 0x2000, 0x3000]"
    by (simp add: entries_def ex_inorder RB_ENTRY_def)
  have ok: "tree_ok ?v 8 (a_nodes ?v 8) ex_tree"
    using ex_holds by (simp add: tree_ok_def holds_def ent a_nodes_def node_addr_def aligned_def safe_keys_def)
  have "rb_height ex_tree < length (rp_path ex_path)" "5 \<in> safe_keys" "5 \<notin> ?v ` set (entries 8 ex_tree)"
    by (simp_all add: ex_path_length safe_keys_def ent)
  from rb_missing_key [OF a_client.rb_client_axioms ok ex_holds ex_holds_c this] show ?thesis by simp
qed

end
